(* ===== verification/KV_Prelude.thy ===== *)
theory KV_Prelude
  imports Main "HOL-Library.Word" "HOL-Library.Log_Nat" "HOL-Library.Multiset"
begin

text \<open>
  Shared vocabulary of the development: the machine-integer types of the C++
  sources, the casts between them, and the generic lemmas on words, bit lengths
  and lists that the component theories use.

  \<^item> \<open>u64\<close>, \<open>u32\<close> are \<^verbatim>\<open>uint64_t\<close> and \<^verbatim>\<open>uint32_t\<close>: arithmetic wraps.
  \<^item> \<^verbatim>\<open>int32_t\<close> and \<^verbatim>\<open>int\<close> values are \<^typ>\<open>int\<close>; a narrowing cast to them is
    written out with \<open>i32_of_u64\<close>, and the lemmas of the component show that the
    values stay in the range of the C type.
\<close>

unbundle bit_operations_syntax

type_synonym u64 = "64 word"
type_synonym u32 = "32 word"

named_theorems word_nat_simps \<open>moving word comparisons and arithmetic to natural numbers\<close>

text \<open>The cast \<^verbatim>\<open>(int32_t)x\<close> of a 64-bit value: keep the low 32 bits, read as two's complement.\<close>

definition i32_of_u64 :: "u64 \<Rightarrow> int" where
  "i32_of_u64 w = sint (ucast w :: u32)"

text \<open>The implicit conversion of an \<^verbatim>\<open>int\<close> to \<^verbatim>\<open>uint64_t\<close>.\<close>

definition u64_of_int :: "int \<Rightarrow> u64" where
  "u64_of_int i = word_of_int i"

subsection \<open>Words as natural numbers\<close>

declare word_less_nat_alt [word_nat_simps] word_le_nat_alt [word_nat_simps]

lemma unat_u64_less: "unat (w :: u64) < 2 ^ 64"
  using unsigned_less [where ?'a = nat and w = w] by simp

lemma unat_u32_less: "unat (w :: u32) < 2 ^ 32"
  using unsigned_less [where ?'a = nat and w = w] by simp

lemma unat_u64_of_int: "0 \<le> i \<Longrightarrow> i < 2 ^ 64 \<Longrightarrow> unat (u64_of_int i) = nat i"
  by (simp add: u64_of_int_def unsigned_of_int take_bit_int_eq_self)

lemma unat_of_nat_u64: "n < 2 ^ 64 \<Longrightarrow> unat (of_nat n :: u64) = n"
  by (simp add: unat_of_nat)

lemma i32_of_u64_small:
  assumes "unat w < 2 ^ 31"
  shows "i32_of_u64 w = int (unat w)"
proof -
  have "int (unat w) < int (2 ^ 31)"
    using assms by (simp only: of_nat_less_iff)
  then have less: "uint w < 2 ^ 31"
    by simp
  have eq: "uint (ucast w :: u32) = uint w"
    using less by (simp add: unsigned_ucast_eq take_bit_int_eq_self)
  have "sint (ucast w :: u32) = signed_take_bit 31 (uint w)"
    by (simp add: sint_uint eq)
  also have "\<dots> = uint w"
    using less uint_ge_0 [of w] by (intro signed_take_bit_int_eq_self) linarith+
  finally show ?thesis
    by (simp add: i32_of_u64_def)
qed

lemma unat_push_bit_u64:
  assumes "unat (w :: u64) * 2 ^ n < 2 ^ 64"
  shows "unat (push_bit n w) = unat w * 2 ^ n"
proof -
  have "unat (push_bit n w) = take_bit 64 (push_bit n (unat w))"
    using unsigned_push_bit_eq [where ?'a = nat and n = n and w = w] by simp
  with assms show ?thesis
    by (simp add: push_bit_eq_mult take_bit_nat_eq_self)
qed

lemma unat_drop_bit_u64: "unat (drop_bit n (w :: u64)) = unat w div 2 ^ n"
  using unat_drop_bit_eq [of n w] by (simp only: drop_bit_eq_div)

lemma unat_mask_u64:
  assumes "m \<le> 64"
  shows "unat (mask m :: u64) = 2 ^ m - 1"
proof -
  have "int (unat (mask m :: u64)) = int (mask m)"
    using assms by (simp add: uint_mask_eq min_def of_nat_mask_eq)
  then show ?thesis
    by (simp only: of_nat_eq_iff mask_eq_exp_minus_1)
qed

lemma unat_add_u64: "unat a + unat b < 2 ^ 64 \<Longrightarrow> unat (a + b :: u64) = unat a + unat b"
  by (simp add: unat_plus_if')

lemma unat_plus_1_u64: "unat (c :: u64) + 1 < 2 ^ 64 \<Longrightarrow> unat (c + 1) = unat c + 1"
  by (simp add: unat_plus_if')

lemma unat_eqI: "unat a = unat b \<Longrightarrow> a = b"
  by (simp add: word_unat_eq_iff)

lemma unat_neI: "unat a \<noteq> unat b \<Longrightarrow> a \<noteq> b"
  by auto

subsection \<open>Bit lengths\<close>

lemma floorlog_2_bounds:
  assumes "0 < n"
  shows "2 ^ (floorlog 2 n - 1) \<le> n" and "n < 2 ^ floorlog 2 n" and "0 < floorlog 2 n"
  using floorlog_bounds [of n 2] assms floorlog_eq_zero_iff [of 2 n] by auto

lemma floorlog_2_le_iff: "floorlog 2 n \<le> k \<longleftrightarrow> n < 2 ^ k"
  by (simp add: floorlog_le_iff)

subsection \<open>Lists\<close>

lemma unat_sum_list_bound:
  "\<forall>x \<in> set xs. f x \<le> (g x :: nat) \<Longrightarrow> sum_list (map f xs) \<le> sum_list (map g xs)"
  by (induction xs) auto

end
