(* ===== verification/Fp_Double.thy ===== *)
theory Fp_Double
  imports KV_Prelude Complex_Main
begin

text \<open>
  The \<^verbatim>\<open>double\<close> arithmetic that the statistics code uses. A finite double is a
  rational number, and every operation of the language is the exact operation
  followed by rounding to 53 significant bits, ties to even (IEEE 754 binary64).
  The magnitudes the program computes with are far from the subnormal and the
  overflow range, so the exponent is left unbounded.

  The laws that the clients of rounding need are the locale \<open>fp_rounding\<close>:
  rounding is monotone, exact on multiples of one half up to \<open>2 ^ 52\<close>, and off by at
  most half a unit in the last place.
\<close>

type_synonym double = rat

text \<open>The exponent of the leading bit of a positive rational.\<close>

definition fp_exp :: "rat \<Rightarrow> int" where
  "fp_exp x = (let (p, q) = quotient_of x; e = bitlen p - bitlen q
               in if 2 powi e \<le> x then e else e - 1)"

definition round_half_even :: "rat \<Rightarrow> int" where
  "round_half_even x =
     (let n = \<lfloor>x\<rfloor>; f = x - of_int n
      in if f < 1 / 2 then n else if f > 1 / 2 then n + 1 else if even n then n else n + 1)"

definition dbl_pos :: "rat \<Rightarrow> rat" where
  "dbl_pos x = (let e = fp_exp x - 52 in of_int (round_half_even (x * 2 powi (- e))) * 2 powi e)"

definition dbl :: "rat \<Rightarrow> double" where
  "dbl x = (if x = 0 then 0 else if x < 0 then - dbl_pos (- x) else dbl_pos x)"

text \<open>The conversions \<^verbatim>\<open>(double)w\<close> and \<^verbatim>\<open>(uint64_t)d\<close> (truncation of a value in range).\<close>

definition double_of_u64 :: "u64 \<Rightarrow> double" where
  "double_of_u64 w = dbl (of_nat (unat w))"

definition u64_of_double :: "double \<Rightarrow> u64" where
  "u64_of_double d = word_of_int \<lfloor>d\<rfloor>"

subsection \<open>The exponent\<close>

lemma powi_2_add: "(2 :: rat) powi (a + b) = 2 powi a * 2 powi b"
  by (simp add: power_int_add)

lemma powi_2_pos: "0 < (2 :: rat) powi a"
  by simp

lemma powi_2_mono: "a \<le> b \<Longrightarrow> (2 :: rat) powi a \<le> 2 powi b"
  by (intro power_int_increasing) auto

lemma powi_2_minus: "(2 :: rat) powi a * 2 powi (- a) = 1"
  by (simp add: power_int_minus)

lemma bitlen_rat_bounds:
  assumes "0 < (p :: int)"
  shows "2 powi (bitlen p - 1) \<le> (of_int p :: rat)" and "(of_int p :: rat) < 2 powi bitlen p"
proof -
  have pos: "0 < bitlen p"
    using assms by (metis bitlen_eq_zero_iff bitlen_nonneg linorder_not_le order_less_le)
  have b: "2 ^ nat (bitlen p - 1) \<le> p" "p < 2 ^ nat (bitlen p)"
    using bitlen_bounds [of p] assms by auto
  have "(of_int (2 ^ nat (bitlen p - 1)) :: rat) \<le> of_int p"
    using b(1) by (simp only: of_int_le_iff)
  then show "2 powi (bitlen p - 1) \<le> (of_int p :: rat)"
    using pos by (simp add: power_int_def)
  have "(of_int p :: rat) < of_int (2 ^ nat (bitlen p))"
    using b(2) by (simp only: of_int_less_iff)
  then show "(of_int p :: rat) < 2 powi bitlen p"
    using pos by (simp add: power_int_def)
qed

lemma fp_exp_bounds:
  assumes "0 < x"
  shows "2 powi fp_exp x \<le> x" and "x < 2 powi (fp_exp x + 1)"
proof -
  obtain p q where pq: "quotient_of x = (p, q)"
    by (cases "quotient_of x")
  have q: "0 < q" and x: "x = of_int p / of_int q"
    using quotient_of_denom_pos [OF pq] quotient_of_div [OF pq] by auto
  have p: "0 < p"
    using assms q x by (simp add: zero_less_divide_iff)
  let ?e = "bitlen p - bitlen q"
  note bp = bitlen_rat_bounds [OF p] and bq = bitlen_rat_bounds [OF q]
  have qr: "0 < (of_int q :: rat)"
    using q by simp
  have "2 powi (?e - 1) * (of_int q :: rat) \<le> 2 powi (?e - 1) * 2 powi bitlen q"
    using bq(2) by (intro mult_left_mono) auto
  also have "\<dots> = 2 powi (bitlen p - 1)"
    by (simp flip: powi_2_add)
  also have "\<dots> \<le> of_int p"
    by (rule bp)
  finally have lo: "2 powi (?e - 1) \<le> x"
    using qr by (simp add: x field_simps)
  have "(of_int p :: rat) < 2 powi bitlen p"
    by (rule bp)
  also have "\<dots> = 2 powi (?e + 1) * 2 powi (bitlen q - 1)"
    by (simp flip: powi_2_add)
  also have "\<dots> \<le> 2 powi (?e + 1) * of_int q"
    using bq(1) by (intro mult_left_mono) auto
  finally have hi: "x < 2 powi (?e + 1)"
    using qr by (simp add: x field_simps)
  show "2 powi fp_exp x \<le> x" and "x < 2 powi (fp_exp x + 1)"
    using lo hi by (auto simp: fp_exp_def pq Let_def)
qed

lemma fp_exp_mono:
  assumes "0 < x" and "x \<le> y"
  shows "fp_exp x \<le> fp_exp y"
proof (rule ccontr)
  assume "\<not> fp_exp x \<le> fp_exp y"
  then have "(2 :: rat) powi (fp_exp y + 1) \<le> 2 powi fp_exp x"
    by (intro powi_2_mono) simp
  then show False
    using fp_exp_bounds [OF assms(1)] fp_exp_bounds [of y] assms by linarith
qed

subsection \<open>Rounding to an integer\<close>

lemma round_half_even_int: "round_half_even (of_int n) = n"
  by (simp add: round_half_even_def)

lemma round_half_even_bounds: "\<lfloor>x\<rfloor> \<le> round_half_even x" "round_half_even x \<le> \<lfloor>x\<rfloor> + 1"
  by (auto simp: round_half_even_def Let_def)

lemma round_half_even_mono:
  assumes "x \<le> y"
  shows "round_half_even x \<le> round_half_even y"
proof (cases "\<lfloor>x\<rfloor> = \<lfloor>y\<rfloor>")
  case True
  with assms show ?thesis
    by (auto simp: round_half_even_def Let_def)
next
  case False
  then have "\<lfloor>x\<rfloor> + 1 \<le> \<lfloor>y\<rfloor>"
    using floor_mono [OF assms] by linarith
  then show ?thesis
    using round_half_even_bounds [of x] round_half_even_bounds [of y] by linarith
qed

lemma round_half_even_between:
  assumes "of_int a \<le> x" and "x \<le> of_int b"
  shows "a \<le> round_half_even x" and "round_half_even x \<le> b"
  using round_half_even_mono [OF assms(1)] round_half_even_mono [OF assms(2)]
  by (simp_all add: round_half_even_int)

subsection \<open>Rounding to 53 bits\<close>

lemma dbl_pos_binade:
  assumes "0 < x"
  shows "2 powi fp_exp x \<le> dbl_pos x" and "dbl_pos x \<le> 2 powi (fp_exp x + 1)"
proof -
  let ?E = "fp_exp x"
  let ?e = "?E - 52"
  let ?m = "x * 2 powi (- ?e)"
  have lo: "of_int (2 ^ 52) \<le> ?m"
  proof -
    have "(of_int (2 ^ 52) :: rat) = 2 powi ?E * 2 powi (- ?e)"
      by (simp flip: powi_2_add)
    also have "\<dots> \<le> ?m"
      using fp_exp_bounds(1) [OF assms] by (intro mult_right_mono) auto
    finally show ?thesis .
  qed
  have hi: "?m \<le> of_int (2 ^ 53)"
  proof -
    have "?m \<le> 2 powi (?E + 1) * 2 powi (- ?e)"
      using fp_exp_bounds(2) [OF assms] by (intro mult_right_mono) auto
    also have "\<dots> = of_int (2 ^ 53)"
      by (simp flip: powi_2_add)
    finally show ?thesis .
  qed
  note r = round_half_even_between [OF lo hi]
  have "(2 :: rat) powi ?E = of_int (2 ^ 52) * 2 powi ?e"
    by (simp add: power_int_diff)
  also have "\<dots> \<le> dbl_pos x"
    unfolding dbl_pos_def Let_def using r(1) by (intro mult_right_mono) (auto simp only: of_int_le_iff powi_2_pos less_imp_le)
  finally show "2 powi ?E \<le> dbl_pos x" .
  have "dbl_pos x \<le> of_int (2 ^ 53) * 2 powi ?e"
    unfolding dbl_pos_def Let_def using r(2) by (intro mult_right_mono) (auto simp only: of_int_le_iff powi_2_pos less_imp_le)
  also have "\<dots> = 2 powi (?E + 1)"
    by (simp add: power_int_diff power_int_add)
  finally show "dbl_pos x \<le> 2 powi (?E + 1)" .
qed

lemma dbl_pos_mono:
  assumes "0 < x" and "x \<le> y"
  shows "dbl_pos x \<le> dbl_pos y"
proof (cases "fp_exp x = fp_exp y")
  case True
  have "round_half_even (x * 2 powi (- (fp_exp y - 52))) \<le> round_half_even (y * 2 powi (- (fp_exp y - 52)))"
    using assms by (intro round_half_even_mono mult_right_mono) auto
  then show ?thesis
    unfolding dbl_pos_def Let_def True by (intro mult_right_mono) auto
next
  case False
  with fp_exp_mono [OF assms] have "(2 :: rat) powi (fp_exp x + 1) \<le> 2 powi fp_exp y"
    by (intro powi_2_mono) simp
  then show ?thesis
    using dbl_pos_binade [OF assms(1)] dbl_pos_binade [of y] assms by linarith
qed

lemma dbl_mono_nonneg: "0 \<le> x \<Longrightarrow> x \<le> y \<Longrightarrow> dbl x \<le> dbl y"
  using dbl_pos_mono [of x y] dbl_pos_binade(1) [of y] order_trans [OF less_imp_le [OF powi_2_pos [of "fp_exp y"]]]
  by (auto simp: dbl_def)

lemma dbl_nonneg: "0 \<le> x \<Longrightarrow> 0 \<le> dbl x"
  using dbl_mono_nonneg [of 0 x] by (simp add: dbl_def)

lemma dbl_pos_exact:
  assumes "x * 2 powi (52 - fp_exp x) = of_int k"
  shows "dbl_pos x = x"
proof -
  have "dbl_pos x = of_int k * 2 powi (fp_exp x - 52)"
    using assms by (simp add: dbl_pos_def Let_def round_half_even_int)
  also have "\<dots> = x * (2 powi (52 - fp_exp x) * 2 powi (fp_exp x - 52))"
    by (simp flip: assms)
  also have "\<dots> = x"
    by (simp flip: powi_2_add)
  finally show ?thesis .
qed

lemma dbl_half_exact:
  assumes "k < 2 ^ 53"
  shows "dbl (of_nat k / 2) = of_nat k / 2"
proof (cases "k = 0")
  case True
  then show ?thesis by (simp add: dbl_def)
next
  case False
  let ?x = "of_nat k / 2 :: rat"
  have pos: "0 < ?x"
    using False by simp
  have "?x < 2 powi 52"
  proof -
    have "(of_nat k :: rat) < of_nat (2 ^ 53)"
      using assms by (simp only: of_nat_less_iff)
    then show ?thesis
      by simp
  qed
  then have "(2 :: rat) powi fp_exp ?x < 2 powi 52"
    using fp_exp_bounds(1) [OF pos] by linarith
  then have "fp_exp ?x < 52"
    using powi_2_mono [of 52 "fp_exp ?x"] by linarith
  then have "2 powi (52 - fp_exp ?x) = (2 :: rat) * of_nat (2 ^ nat (51 - fp_exp ?x))"
    by (simp add: power_int_def nat_diff_distrib flip: power_Suc)
  then have "?x * 2 powi (52 - fp_exp ?x) = of_int (int (k * 2 ^ nat (51 - fp_exp ?x)))"
    by simp
  then have "dbl_pos ?x = ?x"
    by (rule dbl_pos_exact)
  with pos show ?thesis
    by (simp add: dbl_def)
qed

lemma round_half_even_near: "\<bar>of_int (round_half_even x) - x\<bar> \<le> 1 / 2"
  using floor_correct [of x] by (auto simp: round_half_even_def Let_def)

lemma dbl_near:
  assumes "0 \<le> x"
  shows "\<bar>dbl x - x\<bar> \<le> x / 2 ^ 53"
proof (cases "x = 0")
  case True
  then show ?thesis by (simp add: dbl_def)
next
  case False
  with assms have pos: "0 < x" by simp
  let ?e = "fp_exp x - 52"
  have "dbl x - x = (of_int (round_half_even (x * 2 powi (- ?e))) - x * 2 powi (- ?e)) * 2 powi ?e"
    using pos by (simp add: dbl_def dbl_pos_def Let_def left_diff_distrib mult.assoc flip: powi_2_add)
  then have "\<bar>dbl x - x\<bar> \<le> 1 / 2 * 2 powi ?e"
    using round_half_even_near [of "x * 2 powi (- ?e)"]
    by (simp only: abs_mult) (intro mult_mono, auto)
  also have "\<dots> = 2 powi fp_exp x / 2 ^ 53"
    by (simp add: power_int_diff)
  also have "\<dots> \<le> x / 2 ^ 53"
    using fp_exp_bounds(1) [OF pos] by (rule divide_right_mono) simp
  finally show ?thesis .
qed

subsection \<open>The contract of rounding\<close>

locale fp_rounding =
  fixes rnd :: "rat \<Rightarrow> rat"
  assumes rnd_mono: "0 \<le> x \<Longrightarrow> x \<le> y \<Longrightarrow> rnd x \<le> rnd y"
    and rnd_half: "k < 2 ^ 53 \<Longrightarrow> rnd (of_nat k / 2) = of_nat k / 2"
    and rnd_near: "0 \<le> x \<Longrightarrow> \<bar>rnd x - x\<bar> \<le> x / 2 ^ 53"
begin

lemma rnd_nat: "n < 2 ^ 52 \<Longrightarrow> rnd (of_nat n) = of_nat n"
  using rnd_half [of "2 * n"] by simp

lemma rnd_nonneg: "0 \<le> x \<Longrightarrow> 0 \<le> rnd x"
  using rnd_mono [of 0 x] rnd_nat [of 0] by simp

text \<open>A fraction of a count, rounded to the nearest integer, never exceeds the count.\<close>

lemma fraction_of_count:
  assumes q: "0 \<le> q" "q \<le> 1" and n: "n < 2 ^ 51"
  shows "\<lfloor>rnd (rnd (rnd q * of_nat n) + 1 / 2)\<rfloor> \<le> int n"
    and "0 \<le> \<lfloor>rnd (rnd (rnd q * of_nat n) + 1 / 2)\<rfloor>"
proof -
  have q1: "rnd q \<le> 1" "0 \<le> rnd q"
    using rnd_mono [OF q] rnd_nat [of 1] rnd_nonneg [OF q(1)] by simp_all
  have p0: "0 \<le> rnd q * of_nat n"
    using q1 by simp
  have "rnd q * of_nat n \<le> of_nat n"
    using q1 by (simp add: mult_left_le_one_le)
  then have p1: "rnd (rnd q * of_nat n) \<le> of_nat n"
    using rnd_mono [OF p0] rnd_nat [of n] n by fastforce
  have h: "rnd (of_nat n + 1 / 2) = of_nat n + 1 / 2"
    using rnd_half [of "2 * n + 1"] n by (simp add: add_divide_distrib add.commute)
  have s0: "0 \<le> rnd (rnd q * of_nat n) + 1 / 2"
    using rnd_nonneg [OF p0] by simp
  have "rnd (rnd (rnd q * of_nat n) + 1 / 2) \<le> of_nat n + 1 / 2"
    using rnd_mono [OF s0, of "of_nat n + 1 / 2"] p1 h by simp
  then have "rnd (rnd (rnd q * of_nat n) + 1 / 2) < of_int (int n + 1)"
    by simp
  then have "\<lfloor>rnd (rnd (rnd q * of_nat n) + 1 / 2)\<rfloor> < int n + 1"
    by (simp only: floor_less_iff)
  then show "\<lfloor>rnd (rnd (rnd q * of_nat n) + 1 / 2)\<rfloor> \<le> int n"
    by simp
  show "0 \<le> \<lfloor>rnd (rnd (rnd q * of_nat n) + 1 / 2)\<rfloor>"
    using rnd_nonneg [OF s0] by simp
qed

lemma fraction_mono:
  assumes "0 \<le> q" and "q \<le> r"
  shows "\<lfloor>rnd (rnd (rnd q * of_nat n) + 1 / 2)\<rfloor> \<le> \<lfloor>rnd (rnd (rnd r * of_nat n) + 1 / 2)\<rfloor>"
proof -
  have "rnd q * of_nat n \<le> rnd r * of_nat n" and "0 \<le> rnd q * of_nat n"
    using rnd_mono [OF assms] rnd_nonneg [OF assms(1)] by (simp_all add: mult_right_mono)
  then have "rnd (rnd q * of_nat n) + 1 / 2 \<le> rnd (rnd r * of_nat n) + 1 / 2"
    and "0 \<le> rnd (rnd q * of_nat n) + 1 / 2"
    using rnd_mono rnd_nonneg by (fastforce, fastforce)
  then show ?thesis
    by (intro floor_mono rnd_mono)
qed

text \<open>The rounded fraction is within one of the exact one.\<close>

lemma fraction_near:
  assumes q: "0 \<le> q" "q \<le> 1" and n: "n < 2 ^ 50"
  shows "\<bar>of_int \<lfloor>rnd (rnd (rnd q * of_nat n) + 1 / 2)\<rfloor> - q * of_nat n\<bar> < 1"
proof -
  let ?n = "of_nat n :: rat" and ?d = "2 ^ 53 :: rat"
  have "?n < of_nat (2 ^ 50)"
    using n by (simp only: of_nat_less_iff)
  then have n8: "?n / ?d \<le> 1 / 8"
    by simp
  have q1: "rnd q \<le> 1" "0 \<le> rnd q"
    using rnd_mono [OF q] rnd_nat [of 1] rnd_nonneg [OF q(1)] by simp_all
  let ?a = "rnd q * ?n"
  have a: "0 \<le> ?a" "?a \<le> ?n"
    using q1 by (simp_all add: mult_left_le_one_le)
  have "\<bar>?a - q * ?n\<bar> = \<bar>rnd q - q\<bar> * ?n"
    by (simp add: abs_mult flip: left_diff_distrib)
  also have "\<dots> \<le> (1 / ?d) * ?n"
    using rnd_near [OF q(1)] q by (intro mult_right_mono) (auto intro: order_trans divide_right_mono)
  finally have e1: "\<bar>?a - q * ?n\<bar> \<le> 1 / 8"
    using n8 by simp
  have "?a / ?d \<le> ?n / ?d"
    using a by (intro divide_right_mono) auto
  then have e2: "\<bar>rnd ?a - ?a\<bar> \<le> 1 / 8"
    using rnd_near [OF a(1)] n8 by linarith
  let ?b = "rnd ?a + 1 / 2"
  have b0: "0 \<le> ?b"
    using rnd_nonneg [OF a(1)] by simp
  have "?b / ?d \<le> (?n + 1) / ?d"
    using a e2 by (intro divide_right_mono) (linarith, simp)
  then have "?b / ?d < 1 / 4"
    using n8 by (simp add: add_divide_distrib)
  then have e3: "\<bar>rnd ?b - ?b\<bar> < 1 / 4"
    using rnd_near [OF b0] by linarith
  have "\<bar>rnd ?b - (q * ?n + 1 / 2)\<bar> < 1 / 2"
    using e1 e2 e3 by linarith
  then show ?thesis
    using floor_correct [of "rnd ?b"] by linarith
qed

end

interpretation ieee: fp_rounding dbl
  by unfold_locales (fact dbl_mono_nonneg dbl_half_exact dbl_near)+

end
