(* ===== verification/Hist.thy ===== *)
theory Hist
  imports KV_Prelude Fp_Double
begin

text \<open>
  The latency histogram of \<^verbatim>\<open>src/hist.h\<close>: its record, one definition per
  function, and the correctness of the bucket arithmetic.

  \<^verbatim>\<open>counts\<close> is a heap array that may be null, so the field is an option; a pointer
  to a histogram itself is an object in every caller and is passed by value.
  \<^verbatim>\<open>calloc\<close> may fail, which is the Boolean argument of \<open>kv_hist_init\<close>.
\<close>

section \<open>The code\<close>

record kv_hist =
  unit_magnitude :: int
  sub_bucket_count_magnitude :: int
  sub_bucket_half_count_magnitude :: int
  sub_bucket_count :: int
  sub_bucket_half_count :: int
  bucket_count :: int
  counts_array_length :: int
  sub_bucket_mask :: u64
  lowest_trackable :: u64
  highest_trackable :: u64
  total_count :: u64
  min_value :: u64
  max_value :: u64
  counts :: "u64 list option"

subsection \<open>Bit lengths\<close>

text \<open>The portable loop; on a non-zero argument \<^verbatim>\<open>__builtin_clzll\<close> agrees with it, and no
  caller passes zero.\<close>

function bit_count_loop :: "u64 \<Rightarrow> int \<Rightarrow> int" where
  "bit_count_loop v n = (if v \<noteq> 0 then bit_count_loop (drop_bit 1 v) (n + 1) else n)"
  by pat_completeness auto
termination
proof (relation "measure (\<lambda>(v, n). unat v)")
  fix v :: u64 and n :: int
  assume "v \<noteq> 0"
  then show "((drop_bit 1 v, n + 1), (v, n)) \<in> measure (\<lambda>(v, n). unat v)"
    using unat_drop_bit_u64 [of 1 v] by (simp add: unat_gt_0 del: drop_bit_eq_div)
qed simp

declare bit_count_loop.simps [simp del]

definition kv_hist_leading_zeros64 :: "u64 \<Rightarrow> int" where
  "kv_hist_leading_zeros64 v = 64 - bit_count_loop v 0"

definition kv_hist_floor_log2 :: "u64 \<Rightarrow> int" where
  "kv_hist_floor_log2 v = 64 - kv_hist_leading_zeros64 v - 1"

definition kv_hist_ceil_log2 :: "u64 \<Rightarrow> int" where
  "kv_hist_ceil_log2 v =
     (if v \<le> 1 then 0
      else let fl = kv_hist_floor_log2 v
           in if v = push_bit (nat fl) 1 then fl else fl + 1)"

subsection \<open>Set-up\<close>

definition hist_zero :: kv_hist where
  "hist_zero =
     \<lparr>unit_magnitude = 0, sub_bucket_count_magnitude = 0, sub_bucket_half_count_magnitude = 0,
      sub_bucket_count = 0, sub_bucket_half_count = 0, bucket_count = 0,
      counts_array_length = 0, sub_bucket_mask = 0, lowest_trackable = 0,
      highest_trackable = 0, total_count = 0, min_value = 0, max_value = 0, counts = None\<rparr>"

text \<open>\<^verbatim>\<open>while (trackable < highest) { trackable <<= 1; buckets++; }\<close>: the value \<open>None\<close> is
  a loop that does not end.\<close>

partial_function (option) init_buckets :: "u64 \<Rightarrow> u64 \<Rightarrow> int \<Rightarrow> int option" where
  "init_buckets highest trackable buckets =
     (if trackable < highest then init_buckets highest (push_bit 1 trackable) (buckets + 1)
      else Some buckets)"

definition single_unit_resolution :: "int \<Rightarrow> u64" where
  "single_unit_resolution sigfigs =
     (if sigfigs = 2 then 2 * 100
      else if sigfigs = 1 then 2 * 10
      else if sigfigs = 4 then 2 * 10000
      else if sigfigs = 5 then 2 * 100000
      else 2 * 1000)"

definition kv_hist_init :: "bool \<Rightarrow> u64 \<Rightarrow> u64 \<Rightarrow> int \<Rightarrow> (int \<times> kv_hist) option" where
  "kv_hist_init calloc_ok lowest highest sigfigs =
     (if lowest = 0 \<or> highest \<le> lowest then Some (- 1, hist_zero)
      else
        let unit = kv_hist_floor_log2 lowest;
            cm = kv_hist_ceil_log2 (single_unit_resolution sigfigs);
            cnt = push_bit (nat cm) 1;
            half = cnt div 2;
            trackable = push_bit (nat unit) (u64_of_int cnt - 1)
        in case init_buckets highest trackable 1 of
             None \<Rightarrow> None
           | Some buckets \<Rightarrow>
             (let len = (buckets + 1) * half;
                  h = hist_zero
                    \<lparr>lowest_trackable := lowest, highest_trackable := highest,
                     unit_magnitude := unit, sub_bucket_count_magnitude := cm,
                     sub_bucket_half_count_magnitude := cm - 1, sub_bucket_count := cnt,
                     sub_bucket_half_count := half, sub_bucket_mask := u64_of_int cnt - 1,
                     bucket_count := buckets, counts_array_length := len\<rparr>
              in if calloc_ok
                 then Some (0, h\<lparr>counts := Some (replicate (nat len) 0),
                                 min_value := - 1, max_value := 0\<rparr>)
                 else Some (- 1, h)))"

definition kv_hist_destroy :: "kv_hist \<Rightarrow> kv_hist" where
  "kv_hist_destroy h = h\<lparr>counts := None, counts_array_length := 0\<rparr>"

definition kv_hist_reset :: "kv_hist \<Rightarrow> kv_hist" where
  "kv_hist_reset h =
     (case counts h of
        None \<Rightarrow> h
      | Some cs \<Rightarrow> h\<lparr>counts := Some (replicate (nat (counts_array_length h)) 0),
                     total_count := 0, min_value := - 1, max_value := 0\<rparr>)"

definition kv_hist_copy :: "kv_hist \<Rightarrow> kv_hist \<Rightarrow> kv_hist" where
  "kv_hist_copy dst src =
     (case (counts dst, counts src) of
        (Some dc, Some sc) \<Rightarrow>
          (let n = (if counts_array_length src > counts_array_length dst
                    then counts_array_length dst else counts_array_length src);
               rest = (if n < counts_array_length dst
                       then replicate (nat (counts_array_length dst - n)) 0
                       else drop (nat n) dc)
           in dst\<lparr>counts := Some (take (nat n) sc @ rest),
                  total_count := total_count src,
                  min_value := min_value src, max_value := max_value src\<rparr>)
      | _ \<Rightarrow> dst)"

subsection \<open>Buckets\<close>

definition kv_hist_get_bucket_index :: "kv_hist \<Rightarrow> u64 \<Rightarrow> int" where
  "kv_hist_get_bucket_index h value =
     (if value < u64_of_int (sub_bucket_half_count h) then 0
      else let pow2ceiling = u64_of_int (64 - kv_hist_leading_zeros64 (value OR sub_bucket_mask h))
           in i32_of_u64 pow2ceiling - sub_bucket_half_count_magnitude h)"

definition kv_hist_get_sub_bucket_index :: "kv_hist \<Rightarrow> u64 \<Rightarrow> int \<Rightarrow> int" where
  "kv_hist_get_sub_bucket_index h value bucket_index =
     i32_of_u64 (drop_bit (nat (bucket_index + unit_magnitude h)) value)"

definition kv_hist_value_from_index :: "kv_hist \<Rightarrow> int \<Rightarrow> int \<Rightarrow> u64" where
  "kv_hist_value_from_index h bucket_index sub_bucket_index =
     push_bit (nat (bucket_index + unit_magnitude h)) (u64_of_int sub_bucket_index + 1)"

text \<open>The decoding of an array index that the read-out loops share:
  \<^verbatim>\<open>i >> sub_bucket_half_count_magnitude\<close> and \<^verbatim>\<open>i & (sub_bucket_half_count - 1)\<close>.\<close>

definition value_of_slot :: "kv_hist \<Rightarrow> nat \<Rightarrow> u64" where
  "value_of_slot h i =
     (let bucket_index = drop_bit (nat (sub_bucket_half_count_magnitude h)) (int i);
          sub_bucket_index = int i AND (sub_bucket_half_count h - 1)
      in kv_hist_value_from_index h bucket_index sub_bucket_index)"

subsection \<open>Recording and combining\<close>

definition clamp_value :: "kv_hist \<Rightarrow> u64 \<Rightarrow> u64" where
  "clamp_value h value =
     (if value < lowest_trackable h then lowest_trackable h
      else if value > highest_trackable h then highest_trackable h else value)"

definition kv_hist_record :: "kv_hist \<Rightarrow> u64 \<Rightarrow> kv_hist" where
  "kv_hist_record h value0 =
     (let value = clamp_value h value0;
          bucket_index = kv_hist_get_bucket_index h value;
          sub_bucket_index = kv_hist_get_sub_bucket_index h value bucket_index;
          index = push_bit (nat (sub_bucket_half_count_magnitude h)) bucket_index
                  + sub_bucket_index
      in if index < 0 \<or> index \<ge> counts_array_length h then h
         else h\<lparr>counts := map_option (\<lambda>cs. cs[nat index := cs ! nat index + 1]) (counts h),
                total_count := total_count h + 1,
                min_value := (if value < min_value h then value else min_value h),
                max_value := (if value > max_value h then value else max_value h)\<rparr>)"

fun merge_counts :: "u64 list \<Rightarrow> u64 list \<Rightarrow> u64 list" where
  "merge_counts (d # ds) (c # cs) = (if c \<noteq> 0 then d + c else d) # merge_counts ds cs"
| "merge_counts ds cs = ds"

definition kv_hist_merge :: "kv_hist \<Rightarrow> kv_hist \<Rightarrow> kv_hist" where
  "kv_hist_merge dst src =
     (case (counts src, counts dst) of
        (Some sc, Some dc) \<Rightarrow>
          (let n = (if counts_array_length src > counts_array_length dst
                    then counts_array_length dst else counts_array_length src)
           in dst\<lparr>counts := Some (merge_counts dc (take (nat n) sc)),
                  total_count := total_count dst + total_count src,
                  min_value := (if min_value src < min_value dst then min_value src
                                else min_value dst),
                  max_value := (if max_value src > max_value dst then max_value src
                                else max_value dst)\<rparr>)
      | _ \<Rightarrow> dst)"

text \<open>The body shared by the two loops that rebuild the statistics from bucket counts: add
  \<open>c\<close> samples to bucket \<open>i\<close>, whose representative value updates the extremes.\<close>

definition add_bucket :: "nat \<Rightarrow> u64 \<Rightarrow> u64 \<Rightarrow> kv_hist \<Rightarrow> kv_hist" where
  "add_bucket i new c dst =
     (let value = value_of_slot dst i
      in dst\<lparr>counts := map_option (\<lambda>cs. cs[i := new]) (counts dst),
             total_count := total_count dst + c,
             min_value := (if value < min_value dst then value else min_value dst),
             max_value := (if value > max_value dst then value else max_value dst)\<rparr>)"

definition snapshot_step :: "u64 list \<Rightarrow> nat \<Rightarrow> kv_hist \<Rightarrow> kv_hist" where
  "snapshot_step sc i dst =
     (let c = sc ! i
      in if c = 0 then dst else add_bucket i (the (counts dst) ! i + c) c dst)"

definition kv_hist_merge_snapshot :: "kv_hist \<Rightarrow> kv_hist \<Rightarrow> kv_hist" where
  "kv_hist_merge_snapshot dst src =
     (case (counts src, counts dst) of
        (Some sc, Some dc) \<Rightarrow>
          (let n = (if counts_array_length src > counts_array_length dst
                    then counts_array_length dst else counts_array_length src)
           in fold (snapshot_step sc) [0..<nat n] dst)
      | _ \<Rightarrow> dst)"

definition delta_step :: "u64 list \<Rightarrow> u64 list \<Rightarrow> nat \<Rightarrow> kv_hist \<Rightarrow> kv_hist" where
  "delta_step cur prev i dst =
     (let added = (if cur ! i \<ge> prev ! i then cur ! i - prev ! i else cur ! i)
      in if added = 0 then dst else add_bucket i added added dst)"

definition kv_hist_delta :: "kv_hist \<Rightarrow> kv_hist \<Rightarrow> kv_hist \<Rightarrow> kv_hist" where
  "kv_hist_delta dst current previous =
     (case (counts dst, counts current, counts previous) of
        (Some dc, Some cc, Some pc) \<Rightarrow>
          (let dst1 = kv_hist_reset dst;
               n0 = counts_array_length current;
               n1 = (if n0 > counts_array_length previous
                     then counts_array_length previous else n0);
               n = (if n1 > counts_array_length dst1 then counts_array_length dst1 else n1)
           in fold (delta_step cc pc) [0..<nat n] dst1)
      | _ \<Rightarrow> dst)"

subsection \<open>Reading out\<close>

text \<open>The running sum of the percentile loop; \<open>None\<close> when the array ends first.\<close>

fun rank_loop :: "u64 list \<Rightarrow> nat \<Rightarrow> u64 \<Rightarrow> u64 \<Rightarrow> nat option" where
  "rank_loop [] i total_to_current target = None"
| "rank_loop (c # cs) i total_to_current target =
     (let t = total_to_current + c
      in if t \<ge> target then Some i else rank_loop cs (Suc i) t target)"

definition count_at_percentile :: "kv_hist \<Rightarrow> double \<Rightarrow> u64" where
  "count_at_percentile h percentile =
     (let requested = (if percentile > 100 then 100 else percentile);
          n = u64_of_double (dbl (dbl (dbl (requested / 100) * double_of_u64 (total_count h)) + 1 / 2))
      in if n = 0 then 1 else n)"

definition kv_hist_value_at_percentile :: "kv_hist \<Rightarrow> double \<Rightarrow> u64" where
  "kv_hist_value_at_percentile h percentile =
     (if total_count h = 0 then 0
      else case counts h of
             None \<Rightarrow> max_value h
           | Some cs \<Rightarrow>
             (case rank_loop (take (nat (counts_array_length h)) cs) 0 0
                     (count_at_percentile h percentile) of
                Some i \<Rightarrow> value_of_slot h i
              | None \<Rightarrow> max_value h))"

fun mean_loop :: "kv_hist \<Rightarrow> u64 list \<Rightarrow> nat \<Rightarrow> double \<Rightarrow> double" where
  "mean_loop h [] i s = s"
| "mean_loop h (c # cs) i s =
     mean_loop h cs (Suc i)
       (if c \<noteq> 0 then dbl (s + dbl (double_of_u64 (value_of_slot h i) * double_of_u64 c)) else s)"

definition kv_hist_mean :: "kv_hist \<Rightarrow> double" where
  "kv_hist_mean h =
     (if total_count h = 0 then 0
      else let s = (case counts h of None \<Rightarrow> 0
                    | Some cs \<Rightarrow> mean_loop h (take (nat (counts_array_length h)) cs) 0 0)
           in dbl (s / double_of_u64 (total_count h)))"

definition kv_hist_min :: "kv_hist \<Rightarrow> u64" where
  "kv_hist_min h = (if total_count h = 0 then 0 else min_value h)"

definition kv_hist_max :: "kv_hist \<Rightarrow> u64" where
  "kv_hist_max h = (if total_count h = 0 then 0 else max_value h)"

section \<open>Bucket arithmetic\<close>

text \<open>The bit length that the counting loop computes.\<close>

lemma bit_count_loop_floorlog: "bit_count_loop v n = n + int (floorlog 2 (unat v))"
proof (induction v n rule: bit_count_loop.induct)
  case (1 v n)
  show ?case
  proof (cases "v = 0")
    case True
    then show ?thesis
      by (simp add: bit_count_loop.simps [of 0 n] floorlog_def)
  next
    case False
    have half: "unat (drop_bit 1 v) = unat v div 2"
      using unat_drop_bit_u64 [of 1 v] by (simp del: drop_bit_eq_div)
    have "floorlog 2 (unat v) = floorlog 2 (unat v div 2) + 1"
      using False by (subst compute_floorlog) (simp add: unat_gt_0)
    with "1.IH" False half show ?thesis
      by (simp add: bit_count_loop.simps [of v n])
  qed
qed

lemma leading_zeros_bit_length: "64 - kv_hist_leading_zeros64 v = int (floorlog 2 (unat v))"
  by (simp add: kv_hist_leading_zeros64_def bit_count_loop_floorlog)

lemma floor_log2_bounds:
  assumes "v \<noteq> 0"
  shows "0 \<le> kv_hist_floor_log2 v" and "kv_hist_floor_log2 v < 64"
    and "2 ^ nat (kv_hist_floor_log2 v) \<le> unat v" and "unat v < 2 ^ nat (kv_hist_floor_log2 v + 1)"
proof -
  have pos: "0 < unat v"
    using assms by (simp add: unat_gt_0)
  have le: "floorlog 2 (unat v) \<le> 64"
    using unat_u64_less [of v] by (simp only: floorlog_2_le_iff)
  have eq: "kv_hist_floor_log2 v = int (floorlog 2 (unat v)) - 1"
    by (simp add: kv_hist_floor_log2_def leading_zeros_bit_length)
  note b = floorlog_2_bounds [OF pos]
  show "0 \<le> kv_hist_floor_log2 v" and "kv_hist_floor_log2 v < 64"
    using b(3) le eq by linarith+
  show "2 ^ nat (kv_hist_floor_log2 v) \<le> unat v"
    using b by (simp add: eq nat_diff_distrib)
  show "unat v < 2 ^ nat (kv_hist_floor_log2 v + 1)"
    using b by (simp add: eq)
qed

text \<open>
  The layout in natural numbers, for \<open>k\<close> the half-count magnitude: the bucket of a value,
  its slot in the array, and the representative (the exclusive upper edge) of a slot.
\<close>

definition bucket_of :: "nat \<Rightarrow> nat \<Rightarrow> nat" where
  "bucket_of k v = (if v < 2 ^ k then 0 else floorlog 2 v - k)"

definition slot_of :: "nat \<Rightarrow> nat \<Rightarrow> nat" where
  "slot_of k v = bucket_of k v * 2 ^ k + v div 2 ^ bucket_of k v"

definition edge_of :: "nat \<Rightarrow> nat \<Rightarrow> nat" where
  "edge_of k i = (i mod 2 ^ k + 1) * 2 ^ (i div 2 ^ k)"

lemma bucket_of_upper: "v < 2 ^ (k + bucket_of k v)"
proof (cases "v < 2 ^ k")
  case False
  then have pos: "0 < v"
    using zero_less_power [of "2 :: nat" k] by linarith
  have "k < floorlog 2 v"
    using False floorlog_2_le_iff [of v k] by linarith
  with floorlog_2_bounds(2) [OF pos] False show ?thesis
    by (simp add: bucket_of_def)
qed (simp add: bucket_of_def)

lemma bucket_of_lower:
  assumes "0 < k" and "0 < bucket_of k v"
  shows "2 ^ bucket_of k v * 2 ^ (k - 1) \<le> v"
proof -
  have ge: "2 ^ k \<le> v"
    using assms by (simp add: bucket_of_def split: if_splits)
  then have pos: "0 < v"
    using zero_less_power [of "2 :: nat" k] by linarith
  have "k < floorlog 2 v"
    using ge floorlog_2_le_iff [of v k] by linarith
  then have "bucket_of k v + (k - 1) = floorlog 2 v - 1"
    using ge assms by (simp add: bucket_of_def)
  then show ?thesis
    using floorlog_2_bounds(1) [OF pos] by (simp flip: power_add)
qed

lemma bucket_of_mono: "v \<le> w \<Longrightarrow> bucket_of k v \<le> bucket_of k w"
  using floorlog_mono [of v w 2] by (auto simp: bucket_of_def)

lemma sub_bucket_less: "v div 2 ^ bucket_of k v < 2 ^ k"
  using bucket_of_upper [of v k] by (simp add: less_mult_imp_div_less power_add)

lemma slot_of_div [simp]: "slot_of k v div 2 ^ k = bucket_of k v"
  using sub_bucket_less [of v k] by (simp add: slot_of_def)

lemma slot_of_mod [simp]: "slot_of k v mod 2 ^ k = v div 2 ^ bucket_of k v"
  using sub_bucket_less [of v k] by (simp add: slot_of_def)

lemma edge_slot: "edge_of k (slot_of k v) = (v div 2 ^ bucket_of k v + 1) * 2 ^ bucket_of k v"
  by (simp add: edge_of_def)

lemma edge_above: "v < edge_of k (slot_of k v)"
  using dividend_less_div_times [of "2 ^ bucket_of k v" v]
  by (simp add: edge_slot distrib_right)

lemma edge_close: "edge_of k (slot_of k v) \<le> v + 2 ^ bucket_of k v"
  using div_times_less_eq_dividend [of v "2 ^ bucket_of k v"]
  by (simp add: edge_slot distrib_right)

lemma edge_small: "v < 2 ^ k \<Longrightarrow> edge_of k (slot_of k v) = v + 1"
  by (simp add: edge_slot bucket_of_def)

lemma edge_precision:
  assumes "0 < k"
  shows "(edge_of k (slot_of k v) - v) * 2 ^ (k - 1) \<le> max v (2 ^ (k - 1))"
proof (cases "bucket_of k v = 0")
  case True
  then show ?thesis
    by (simp add: edge_slot)
next
  case False
  have "(edge_of k (slot_of k v) - v) * 2 ^ (k - 1) \<le> 2 ^ bucket_of k v * 2 ^ (k - 1)"
    using edge_close [of k v] by (intro mult_right_mono) auto
  then show ?thesis
    using bucket_of_lower [OF assms, of v] False by linarith
qed

lemma slot_of_mono:
  assumes "v \<le> w"
  shows "slot_of k v \<le> slot_of k w"
proof (cases "bucket_of k v = bucket_of k w")
  case True
  then show ?thesis
    using assms by (simp add: slot_of_def div_le_mono)
next
  case False
  with bucket_of_mono [OF assms] have "Suc (bucket_of k v) \<le> bucket_of k w"
    by (meson Suc_leI le_neq_implies_less)
  then have "Suc (bucket_of k v) * 2 ^ k \<le> bucket_of k w * 2 ^ k"
    by (rule mult_right_mono) simp
  then show ?thesis
    using sub_bucket_less [of v k] by (simp add: slot_of_def)
qed

section \<open>Well-formed histograms\<close>

text \<open>
  What \<open>kv_hist_init\<close> establishes for a lowest value of 1 (every histogram of the
  program) and every operation keeps. The capacity clause is the loop's exit condition.
\<close>

definition hmag :: "kv_hist \<Rightarrow> nat" where
  "hmag h = nat (sub_bucket_half_count_magnitude h)"

definition hist_slots :: "kv_hist \<Rightarrow> nat" where
  "hist_slots h = nat (counts_array_length h)"

definition hist_wf :: "kv_hist \<Rightarrow> bool" where
  "hist_wf h \<longleftrightarrow>
     unit_magnitude h = 0 \<and>
     4 \<le> sub_bucket_half_count_magnitude h \<and> sub_bucket_half_count_magnitude h \<le> 17 \<and>
     sub_bucket_half_count h = 2 ^ hmag h \<and>
     unat (sub_bucket_mask h) = 2 ^ (hmag h + 1) - 1 \<and>
     1 \<le> bucket_count h \<and> sub_bucket_half_count_magnitude h + bucket_count h \<le> 63 \<and>
     counts_array_length h = (bucket_count h + 1) * 2 ^ hmag h \<and>
     (case counts h of None \<Rightarrow> False | Some cs \<Rightarrow> length cs = hist_slots h) \<and>
     lowest_trackable h \<le> highest_trackable h \<and>
     unat (highest_trackable h) \<le> (2 ^ (hmag h + 1) - 1) * 2 ^ nat (bucket_count h - 1)"

abbreviation hcounts :: "kv_hist \<Rightarrow> u64 list" where
  "hcounts h \<equiv> the (counts h)"

lemma hist_wf_hmag:
  assumes "hist_wf h"
  shows "4 \<le> hmag h" and "hmag h \<le> 17" and "sub_bucket_half_count_magnitude h = int (hmag h)"
  using assms by (auto simp: hist_wf_def hmag_def)

lemma hist_wfD:
  assumes "hist_wf h"
  shows "unit_magnitude h = 0"
    and "sub_bucket_half_count h = 2 ^ hmag h"
    and "unat (sub_bucket_mask h) = 2 ^ (hmag h + 1) - 1"
    and "1 \<le> bucket_count h" and "int (hmag h) + bucket_count h \<le> 63"
    and "counts_array_length h = (bucket_count h + 1) * 2 ^ hmag h"
    and "lowest_trackable h \<le> highest_trackable h"
    and "unat (highest_trackable h) \<le> (2 ^ (hmag h + 1) - 1) * 2 ^ nat (bucket_count h - 1)"
  using assms unfolding hist_wf_def by (blast, blast, blast, blast, auto simp: hmag_def)

lemma hist_wf_counts:
  assumes "hist_wf h"
  obtains cs where "counts h = Some cs" and "length cs = hist_slots h"
  using assms by (cases "counts h") (auto simp: hist_wf_def)

lemma hist_slots_eq:
  assumes "hist_wf h"
  shows "hist_slots h = nat (bucket_count h + 1) * 2 ^ hmag h"
  using assms by (simp add: hist_wf_def hist_slots_def nat_mult_distrib nat_power_eq)

lemma hist_slots_small:
  assumes "hist_wf h"
  shows "hist_slots h < 2 ^ 30"
proof -
  have "(2 :: nat) ^ hmag h \<le> 2 ^ 17"
    using hist_wf_hmag [OF assms] by (intro power_increasing) auto
  moreover have "nat (bucket_count h + 1) \<le> 61"
    using hist_wfD(5) [OF assms] hist_wf_hmag [OF assms] by linarith
  ultimately have "nat (bucket_count h + 1) \<le> 61" and "(2 :: nat) ^ hmag h \<le> 2 ^ 17"
    by auto
  then have "hist_slots h \<le> 61 * 2 ^ 17"
    unfolding hist_slots_eq [OF assms] by (rule mult_le_mono)
  then show ?thesis
    by simp
qed

lemma or_mask_bit_length:
  assumes "2 ^ k \<le> unat v" and "unat m = 2 ^ (k + 1) - 1"
  shows "floorlog 2 (unat (v OR m)) = floorlog 2 (unat (v :: u64))"
proof -
  let ?L = "floorlog 2 (unat v)"
  have pos: "0 < unat v"
    using assms(1) zero_less_power [of "2 :: nat" k] by linarith
  have "k < ?L"
    using assms(1) floorlog_2_le_iff [of "unat v" k] by linarith
  then have "(2 :: nat) ^ (k + 1) \<le> 2 ^ ?L"
    by (intro power_increasing) auto
  then have m: "unat m < 2 ^ ?L"
    unfolding assms(2) using zero_less_power [of "2 :: nat" "k + 1"] by linarith
  have v: "unat v < 2 ^ ?L"
    using floorlog_2_bounds(2) [OF pos] .
  have "take_bit ?L (unat v OR unat m) = unat v OR unat m"
    using m v by (simp add: take_bit_nat_eq_self)
  then have up: "unat v OR unat m < 2 ^ ?L"
    by (metis take_bit_nat_less_exp)
  have "int (unat v) \<le> int (unat v) OR int (unat m)"
    by (rule or_greater_eq) simp
  then have lo: "unat v \<le> unat v OR unat m"
    by (simp flip: of_nat_or_eq del: of_nat_unat)
  have eq: "unat (v OR m) = unat v OR unat m"
    by (rule unsigned_or_eq)
  have "?L \<le> floorlog 2 (unat v OR unat m)"
    using lo by (rule floorlog_mono)
  moreover have "floorlog 2 (unat v OR unat m) \<le> ?L"
    using up by (simp only: floorlog_2_le_iff)
  ultimately show ?thesis
    by (simp add: eq)
qed

lemma get_bucket_index_eq:
  assumes wf: "hist_wf h"
  shows "kv_hist_get_bucket_index h v = int (bucket_of (hmag h) (unat v))"
proof -
  note k = hist_wf_hmag [OF wf]
  have half: "unat (u64_of_int (sub_bucket_half_count h)) = 2 ^ hmag h"
  proof -
    have "(2 :: int) ^ hmag h < 2 ^ 64"
      using k by (intro power_strict_increasing) auto
    then show ?thesis
      using wf by (simp add: hist_wf_def unat_u64_of_int nat_power_eq)
  qed
  show ?thesis
  proof (cases "unat v < 2 ^ hmag h")
    case True
    then show ?thesis
      by (simp add: kv_hist_get_bucket_index_def bucket_of_def word_less_nat_alt half)
  next
    case False
    let ?L = "floorlog 2 (unat v)"
    have ge: "hmag h < ?L" and le: "?L \<le> 64"
      using False floorlog_2_le_iff [of "unat v" "hmag h"] unat_u64_less [of v]
        floorlog_2_le_iff [of "unat v" 64] by auto
    have "floorlog 2 (unat (v OR sub_bucket_mask h)) = ?L"
      using False wf by (intro or_mask_bit_length [of "hmag h"]) (auto simp: hist_wf_def)
    then have "64 - kv_hist_leading_zeros64 (v OR sub_bucket_mask h) = int ?L"
      by (simp only: leading_zeros_bit_length)
    moreover have "i32_of_u64 (u64_of_int (int ?L)) = int ?L"
      using le by (subst i32_of_u64_small) (simp_all add: unat_u64_of_int)
    ultimately show ?thesis
      using False ge k
      by (simp add: kv_hist_get_bucket_index_def bucket_of_def word_less_nat_alt half)
  qed
qed

lemma get_sub_bucket_index_eq:
  assumes wf: "hist_wf h"
  shows "kv_hist_get_sub_bucket_index h v (int (bucket_of (hmag h) (unat v)))
         = int (unat v div 2 ^ bucket_of (hmag h) (unat v))"
proof -
  let ?b = "bucket_of (hmag h) (unat v)"
  have "(2 :: nat) ^ hmag h \<le> 2 ^ 17"
    using hist_wf_hmag [OF wf] by (intro power_increasing) auto
  then have "unat v div 2 ^ ?b < 2 ^ 31"
    using sub_bucket_less [of "unat v" "hmag h"] by simp
  then have "i32_of_u64 (drop_bit ?b v) = int (unat v div 2 ^ ?b)"
    using i32_of_u64_small [of "drop_bit ?b v"] by (simp only: unat_drop_bit_u64)
  then show ?thesis
    using wf by (simp add: kv_hist_get_sub_bucket_index_def hist_wf_def del: drop_bit_eq_div)
qed

text \<open>The slot of a value, and that values in range have a slot inside the array.\<close>

definition hslot :: "kv_hist \<Rightarrow> u64 \<Rightarrow> nat" where
  "hslot h v = slot_of (hmag h) (unat v)"

lemma record_index_eq:
  assumes wf: "hist_wf h"
  shows "push_bit (nat (sub_bucket_half_count_magnitude h)) (kv_hist_get_bucket_index h v)
         + kv_hist_get_sub_bucket_index h v (kv_hist_get_bucket_index h v) = int (hslot h v)"
  using hist_wf_hmag [OF wf]
  by (simp add: get_bucket_index_eq [OF wf] get_sub_bucket_index_eq [OF wf] hslot_def slot_of_def
      push_bit_eq_mult)

lemma hslot_in_range:
  assumes wf: "hist_wf h" and v: "v \<le> highest_trackable h"
  shows "hslot h v < hist_slots h"
proof -
  let ?k = "hmag h" and ?B = "nat (bucket_count h)"
  have B: "1 \<le> ?B"
    using hist_wfD(4) [OF wf] by linarith
  have "unat v \<le> unat (highest_trackable h)"
    using v by (simp add: word_le_nat_alt)
  also have "\<dots> \<le> (2 ^ (?k + 1) - 1) * 2 ^ (?B - 1)"
    using hist_wfD(4,8) [OF wf] by (simp add: nat_diff_distrib)
  also have "\<dots> < 2 ^ (?k + 1) * 2 ^ (?B - 1)"
    by (intro mult_strict_right_mono) auto
  also have "\<dots> = 2 ^ ((?k + 1) + (?B - 1))"
    by (simp only: power_add)
  also have "(?k + 1) + (?B - 1) = ?k + ?B"
    using B by simp
  finally have "floorlog 2 (unat v) \<le> ?k + ?B"
    by (simp only: floorlog_2_le_iff)
  then have "bucket_of ?k (unat v) \<le> ?B"
    by (simp add: bucket_of_def le_diff_conv add.commute)
  then have "bucket_of ?k (unat v) * 2 ^ ?k \<le> ?B * 2 ^ ?k"
    by (rule mult_right_mono) simp
  then have "slot_of ?k (unat v) < ?B * 2 ^ ?k + 2 ^ ?k"
    using sub_bucket_less [of "unat v" ?k] unfolding slot_of_def by (rule add_le_less_mono)
  moreover have "hist_slots h = ?B * 2 ^ ?k + 2 ^ ?k"
    using hist_wfD(4) [OF wf] hist_slots_eq [OF wf] by (simp add: nat_add_distrib)
  ultimately show ?thesis
    by (simp add: hslot_def)
qed

lemma hslot_mono: "v \<le> w \<Longrightarrow> hslot h v \<le> hslot h w"
  by (simp add: hslot_def slot_of_mono word_le_nat_alt)

lemma clamp_value_range:
  "hist_wf h \<Longrightarrow> lowest_trackable h \<le> clamp_value h v \<and> clamp_value h v \<le> highest_trackable h"
  by (auto simp: clamp_value_def hist_wf_def not_less)

lemma clamp_value_id: "lowest_trackable h \<le> v \<Longrightarrow> v \<le> highest_trackable h \<Longrightarrow> clamp_value h v = v"
  by (auto simp: clamp_value_def)

lemma and_half_count:
  "int i AND (2 ^ k - 1) = int (i mod 2 ^ k)"
  by (simp add: of_nat_take_bit flip: take_bit_eq_mod mask_eq_exp_minus_1 take_bit_eq_mask)

lemma value_of_slot_eq:
  assumes wf: "hist_wf h" and i: "i < hist_slots h"
  shows "unat (value_of_slot h i) = edge_of (hmag h) i"
proof -
  let ?k = "hmag h" and ?b = "i div 2 ^ hmag h" and ?s = "i mod 2 ^ hmag h"
  note k = hist_wf_hmag [OF wf]
  have "?b < nat (bucket_count h + 1)"
    using i unfolding hist_slots_eq [OF wf] by (rule less_mult_imp_div_less)
  then have b: "?b + ?k \<le> 63"
    using hist_wfD(4,5) [OF wf] by linarith
  have s: "?s + 1 \<le> 2 ^ ?k"
    by (simp add: Suc_leI)
  have k63: "(2 :: nat) ^ ?k \<le> 2 ^ 63"
    using k by (intro power_increasing) auto
  have us: "unat (u64_of_int (int ?s) + 1) = ?s + 1"
  proof -
    have "int ?s < 2 ^ 64"
      using s k63 by simp
    then have "unat (u64_of_int (int ?s)) = ?s"
      by (simp add: unat_u64_of_int)
    then show ?thesis
      using s k63 by (subst unat_plus_if') simp
  qed
  have "(?s + 1) * 2 ^ ?b \<le> 2 ^ ?k * 2 ^ ?b"
    using s by (rule mult_right_mono) simp
  also have "\<dots> = 2 ^ (?b + ?k)"
    by (simp add: power_add)
  also have "\<dots> \<le> 2 ^ 63"
    using b by (intro power_increasing) auto
  finally have "(?s + 1) * 2 ^ ?b < 2 ^ 64"
    by simp
  then have "unat (push_bit ?b (u64_of_int (int ?s) + 1)) = (?s + 1) * 2 ^ ?b"
    using us by (subst unat_push_bit_u64) (simp_all only: us)
  moreover have "value_of_slot h i = push_bit ?b (u64_of_int (int ?s) + 1)"
    using hist_wfD(1,2) [OF wf] k and_half_count [of i ?k]
    by (simp add: value_of_slot_def kv_hist_value_from_index_def drop_bit_eq_div Let_def
        flip: zdiv_int of_nat_power del: push_bit_eq_mult) (simp add: nat_div_distrib nat_power_eq)
  ultimately show ?thesis
    by (simp add: edge_of_def)
qed

section \<open>Initialisation\<close>

lemma init_buckets_returns:
  assumes "unat highest \<le> unat t * 2 ^ j" and "unat t * 2 ^ j < 2 ^ 64"
  shows "\<exists>i \<le> j. init_buckets highest t b = Some (b + int i) \<and> unat highest \<le> unat t * 2 ^ i \<and>
           (\<forall>i' < i. unat t * 2 ^ i' < unat highest)"
  using assms
proof (induction j arbitrary: t b)
  case 0
  then show ?case
    by (simp add: init_buckets.simps [of highest t b] word_less_nat_alt not_less)
next
  case (Suc j)
  show ?case
  proof (cases "unat t < unat highest")
    case False
    then show ?thesis
      by (intro exI [of _ 0]) (simp add: init_buckets.simps [of highest t b] word_less_nat_alt)
  next
    case True
    have "unat t * 2 ^ 1 \<le> unat t * 2 ^ Suc j"
      by (intro mult_left_mono power_increasing) auto
    then have "unat t * 2 ^ 1 < 2 ^ 64"
      using Suc.prems(2) by (rule le_less_trans)
    then have "unat (push_bit 1 t) = unat t * 2 ^ 1"
      by (rule unat_push_bit_u64)
    then have t2: "unat (push_bit 1 t) = 2 * unat t"
      by (simp only: power_one_right mult.commute)
    have "unat highest \<le> unat (push_bit 1 t) * 2 ^ j" and "unat (push_bit 1 t) * 2 ^ j < 2 ^ 64"
      using Suc.prems by (simp_all only: t2 power_Suc ac_simps)
    then obtain i where i: "i \<le> j" "init_buckets highest (push_bit 1 t) (b + 1) = Some (b + 1 + int i)"
      "unat highest \<le> unat (push_bit 1 t) * 2 ^ i"
      "\<forall>i' < i. unat (push_bit 1 t) * 2 ^ i' < unat highest"
      using Suc.IH [of "push_bit 1 t" "b + 1"] by blast
    have "\<forall>i' < Suc i. unat t * 2 ^ i' < unat highest"
      using i(4) True t2 by (auto simp: less_Suc_eq_0_disj algebra_simps simp del: push_bit_eq_mult)
    then show ?thesis
      using i(1-3) True t2
      by (intro exI [of _ "Suc i"])
        (simp add: init_buckets.simps [of highest t b] word_less_nat_alt algebra_simps)
  qed
qed

lemma init_buckets_diverges:
  assumes "\<And>i. push_bit i t < highest"
  shows "init_buckets highest t b = None"
proof (rule ccontr)
  assume "init_buckets highest t b \<noteq> None"
  then obtain r where ret: "init_buckets highest t b = Some r"
    by auto
  have "\<exists>i. \<not> push_bit i t < highest"
  proof (rule init_buckets.raw_induct
      [where P = "\<lambda>highest t b r. \<exists>i. \<not> push_bit i t < highest", OF _ ret])
    fix f :: "u64 \<Rightarrow> u64 \<Rightarrow> int \<Rightarrow> int option" and highest t :: u64 and b r :: int
    assume IH: "\<And>highest t b r. f highest t b = Some r \<Longrightarrow> \<exists>i. \<not> push_bit i t < highest"
      and eq: "(if t < highest then f highest (push_bit 1 t) (b + 1) else Some b) = Some r"
    show "\<exists>i. \<not> push_bit i t < highest"
    proof (cases "t < highest")
      case True
      with eq have "f highest (push_bit 1 t) (b + 1) = Some r"
        by simp
      then obtain i where "\<not> push_bit i (push_bit 1 t) < highest"
        using IH by blast
      then show ?thesis
        by (intro exI [of _ "i + 1"]) (simp only: push_bit_push_bit not_False_eq_True)
    next
      case False
      then show ?thesis
        by (intro exI [of _ 0]) simp
    qed
  qed
  with assms show False
    by blast
qed

text \<open>The magnitude chosen for a number of significant figures.\<close>

definition figures_magnitude :: "int \<Rightarrow> nat" where
  "figures_magnitude sigfigs =
     (if sigfigs = 2 then 8 else if sigfigs = 1 then 5 else if sigfigs = 4 then 15
      else if sigfigs = 5 then 18 else 11)"

lemma ceil_log2_figures:
  "kv_hist_ceil_log2 (single_unit_resolution sigfigs) = int (figures_magnitude sigfigs)"
proof -
  have "floorlog 2 2000 = 11" "floorlog 2 200 = 8" "floorlog 2 20 = 5" "floorlog 2 20000 = 15"
    "floorlog 2 200000 = 18"
    by (simp_all add: compute_floorlog)
  then show ?thesis
    by (simp add: single_unit_resolution_def figures_magnitude_def kv_hist_ceil_log2_def Let_def
        kv_hist_floor_log2_def leading_zeros_bit_length word_le_nat_alt)
qed

lemma figures_magnitude_range: "5 \<le> figures_magnitude sigfigs" "figures_magnitude sigfigs \<le> 18"
  by (simp_all add: figures_magnitude_def)

lemma shifted_mask_mod:
  assumes "m \<le> 64"
  shows "((2 ^ m - 1) * 2 ^ s) mod 2 ^ 64 \<le> ((2 ^ m - 1) * 2 ^ (64 - m) :: nat)"
proof -
  have top: "(2 ^ m - 1) * 2 ^ (64 - m) = (2 ^ 64 - 2 ^ (64 - m) :: nat)"
    using assms by (simp add: diff_mult_distrib flip: power_add)
  consider "s + m \<le> 64" | "64 < s + m" "s < 64" | "64 \<le> s"
    by linarith
  then show ?thesis
  proof cases
    case 1
    then have "(2 :: nat) ^ s \<le> 2 ^ (64 - m)"
      by (intro power_increasing) auto
    then have "(2 ^ m - 1) * 2 ^ s \<le> ((2 ^ m - 1) * 2 ^ (64 - m) :: nat)"
      by (rule mult_left_mono) simp
    then show ?thesis
      using mod_less_eq_dividend [of "(2 ^ m - 1) * 2 ^ s" "2 ^ 64 :: nat"] by linarith
  next
    case 2
    let ?j = "s + m - 64"
    have "(2 ^ m - 1) * 2 ^ s = (2 ^ (s + m) - 2 ^ s :: nat)"
      by (simp add: diff_mult_distrib power_add mult.commute [of "2 ^ s"])
    also have "(2 :: nat) ^ (s + m) = 2 ^ (64 + ?j)"
      using 2 by simp
    also have "(2 :: nat) ^ (64 + ?j) - 2 ^ s = 2 ^ 64 * (2 ^ ?j - 1) + (2 ^ 64 - 2 ^ s)"
    proof -
      have "(2 :: nat) ^ s \<le> 2 ^ 64"
        using 2 by (intro power_increasing) auto
      then have "(2 :: nat) ^ 64 * (2 ^ ?j - 1) + (2 ^ 64 - 2 ^ s) = 2 ^ 64 * (2 ^ ?j - 1) + 2 ^ 64 - 2 ^ s"
        by (rule Nat.add_diff_assoc)
      also have "(2 :: nat) ^ 64 * (2 ^ ?j - 1) + 2 ^ 64 = 2 ^ 64 * 2 ^ ?j"
        by (simp add: diff_mult_distrib2)
      finally show ?thesis
        by (simp only: power_add)
    qed
    finally have "((2 ^ m - 1) * 2 ^ s) mod 2 ^ 64 = (2 ^ 64 - 2 ^ s :: nat) mod 2 ^ 64"
      by (simp only: mod_mult_self4)
    also have "\<dots> = 2 ^ 64 - 2 ^ s"
      by (intro mod_less diff_less) auto
    also have "\<dots> \<le> 2 ^ 64 - 2 ^ (64 - m)"
      using 2 by (intro diff_le_mono2 power_increasing) auto
    finally show ?thesis
      by (simp only: top)
  next
    case 3
    then have "(2 :: nat) ^ 64 dvd (2 ^ m - 1) * 2 ^ s"
      by (intro dvd_mult le_imp_power_dvd)
    then show ?thesis
      by (simp only: dvd_imp_mod_0)
  qed
qed

lemma shifted_mask_bound:
  assumes "m \<le> 64"
  shows "unat (push_bit s (u64_of_int (2 ^ m) - 1)) \<le> (2 ^ m - 1) * 2 ^ (64 - m)"
proof -
  have "(u64_of_int (2 ^ m) - 1) = (mask m :: u64)"
    by (simp add: u64_of_int_def mask_eq_exp_minus_1)
  then have "unat (push_bit s (u64_of_int (2 ^ m) - 1)) = take_bit 64 (push_bit s (unat (mask m :: u64)))"
    using unsigned_push_bit_eq [where ?'a = nat and n = s and w = "mask m :: u64"] by simp
  also have "unat (mask m :: u64) = 2 ^ m - 1"
    by (rule unat_mask_u64 [OF assms])
  also have "take_bit 64 (push_bit s (2 ^ m - 1 :: nat)) = ((2 ^ m - 1) * 2 ^ s) mod 2 ^ 64"
    by (simp only: take_bit_eq_mod push_bit_eq_mult)
  finally show ?thesis
    using shifted_mask_mod [OF assms, of s] by linarith
qed

lemma init_buckets_from_mask:
  assumes hi: "unat highest \<le> (2 ^ m - 1) * 2 ^ (64 - m)" and m: "0 < m" "m \<le> 18"
  obtains i where "init_buckets highest (u64_of_int (2 ^ m) - 1) 1 = Some (1 + int i)"
    and "unat highest \<le> (2 ^ m - 1) * 2 ^ i"
    and "\<forall>i' < i. (2 ^ m - 1) * 2 ^ i' < unat highest"
proof -
  let ?t = "u64_of_int (2 ^ m) - 1"
  have t: "unat ?t = 2 ^ m - 1"
    using unat_mask_u64 [of m] m by (simp add: u64_of_int_def mask_eq_exp_minus_1)
  have "(2 ^ m - 1) * 2 ^ (64 - m) < (2 ^ m * 2 ^ (64 - m) :: nat)"
    by (intro mult_strict_right_mono) auto
  also have "\<dots> = 2 ^ 64"
    using m by (simp flip: power_add)
  finally have "unat ?t * 2 ^ (64 - m) < 2 ^ 64"
    by (simp only: t)
  moreover have "unat highest \<le> unat ?t * 2 ^ (64 - m)"
    using hi by (simp only: t)
  ultimately show ?thesis
    using init_buckets_returns [of highest ?t "64 - m" 1] that by (auto simp: t)
qed

lemma floor_log2_1 [simp]: "kv_hist_floor_log2 1 = 0"
  by (simp add: kv_hist_floor_log2_def leading_zeros_bit_length compute_floorlog)

text \<open>\<open>kv_hist_init\<close> on the lowest value 1, in terms of the bucket loop.\<close>

definition hist_fresh :: "int \<Rightarrow> u64 \<Rightarrow> nat \<Rightarrow> kv_hist" where
  "hist_fresh buckets highest m =
     hist_zero\<lparr>lowest_trackable := 1, highest_trackable := highest,
       unit_magnitude := 0, sub_bucket_count_magnitude := int m,
       sub_bucket_half_count_magnitude := int m - 1, sub_bucket_count := 2 ^ m,
       sub_bucket_half_count := 2 ^ (m - 1), sub_bucket_mask := u64_of_int (2 ^ m) - 1,
       bucket_count := buckets, counts_array_length := (buckets + 1) * 2 ^ (m - 1),
       counts := Some (replicate (nat ((buckets + 1) * 2 ^ (m - 1))) 0),
       min_value := - 1, max_value := 0\<rparr>"

lemma kv_hist_init_1:
  assumes "1 < highest" and m: "m = figures_magnitude sigfigs"
  shows "kv_hist_init True 1 highest sigfigs =
         map_option (\<lambda>b. (0, hist_fresh b highest m)) (init_buckets highest (u64_of_int (2 ^ m) - 1) 1)"
proof -
  have "m \<noteq> 0"
    using figures_magnitude_range [of sigfigs] m by simp
  then have "(2 :: int) ^ m = 2 * 2 ^ (m - 1)"
    using power_minus_mult [of m "2 :: int"] by simp
  then have "(2 :: int) ^ m div 2 = 2 ^ (m - 1)"
    by simp
  moreover have "kv_hist_ceil_log2 (single_unit_resolution sigfigs) = int m"
    by (simp add: ceil_log2_figures m)
  ultimately show ?thesis
    using assms(1)
    by (simp add: kv_hist_init_def hist_fresh_def Let_def push_bit_eq_mult not_le
        split: option.split)
qed

lemma hist_fresh_wf:
  assumes ret: "init_buckets highest (u64_of_int (2 ^ m) - 1) 1 = Some (1 + int i)"
    and hi: "1 < highest" "unat highest < 2 ^ 62"
    and cap: "unat highest \<le> (2 ^ m - 1) * 2 ^ i" "\<forall>i' < i. (2 ^ m - 1) * 2 ^ i' < unat highest"
    and m: "5 \<le> m" "m \<le> 18"
  shows "hist_wf (hist_fresh (1 + int i) highest m)"
proof -
  have small: "m - 1 + i < 63"
  proof (cases i)
    case 0
    then show ?thesis using m by simp
  next
    case (Suc j)
    have "2 ^ (m - 1) \<le> (2 ^ m - 1 :: nat)"
    proof -
      have "(2 :: nat) ^ m = 2 * 2 ^ (m - 1)"
        using m by (cases m) auto
      then show ?thesis
        using zero_less_power [of "2 :: nat" "m - 1"] by linarith
    qed
    then have "2 ^ (m - 1) * 2 ^ j \<le> (2 ^ m - 1) * (2 ^ j :: nat)"
      by (rule mult_right_mono) simp
    also have "\<dots> < 2 ^ 62"
      using cap(2) hi(2) Suc by (meson less_trans lessI)
    finally have "(2 :: nat) ^ (m - 1 + j) < 2 ^ 62"
      by (simp only: power_add)
    then have "m - 1 + j < 62"
      by (rule power_less_imp_less_exp [rotated]) simp
    then show ?thesis
      using Suc by simp
  qed
  have mask: "unat (u64_of_int (2 ^ m) - 1) = 2 ^ m - 1"
    using unat_mask_u64 [of m] m by (simp add: u64_of_int_def mask_eq_exp_minus_1)
  have km: "nat (int m - 1) = m - 1" "m - 1 + 1 = m"
    using m by auto
  show ?thesis
    using m hi cap(1) small mask
    by (simp add: hist_wf_def hist_fresh_def hist_zero_def hmag_def hist_slots_def km less_imp_le)
qed

end
