(* ===== verification/Hist_Window.thy ===== *)
theory Hist_Window
  imports Hist_Spec
begin

text \<open>
  The operations of the sampler thread and of the final report: copying a histogram,
  taking the difference of two snapshots, merging snapshots, and reading percentiles
  (\<^verbatim>\<open>src/hist.h\<close>, the second half). Snapshots lose the exact extremes: \<open>min_value\<close> and
  \<open>max_value\<close> become bucket edges.
\<close>

section \<open>Adding bucket counts in a loop\<close>

lemma add_bucket_sel:
  "counts (add_bucket i new c g) = map_option (\<lambda>cs. cs[i := new]) (counts g)"
  "total_count (add_bucket i new c g) = total_count g + c"
  "min_value (add_bucket i new c g) = min (value_of_slot g i) (min_value g)"
  "max_value (add_bucket i new c g) = max (value_of_slot g i) (max_value g)"
  "same_layout (add_bucket i new c g) g"
  by (auto simp: add_bucket_def Let_def min_def max_def)

text \<open>The upper edge of the bucket a value falls in: what the read-out code reports for it.\<close>

definition hedge :: "kv_hist \<Rightarrow> u64 \<Rightarrow> u64" where
  "hedge h v = value_of_slot h (hslot h v)"

lemma hedge_eq:
  "hist_wf h \<Longrightarrow> v \<le> highest_trackable h \<Longrightarrow> unat (hedge h v) = edge_of (hmag h) (hslot h v)"
  by (simp add: hedge_def value_of_slot_eq hslot_in_range)

lemma hedge_above: "hist_wf h \<Longrightarrow> v \<le> highest_trackable h \<Longrightarrow> v < hedge h v"
  by (simp add: word_less_nat_alt hedge_eq) (simp add: hslot_def edge_above)

text \<open>Both loops add \<open>add i\<close> samples to bucket \<open>i\<close>, each bucket once.\<close>

definition bucket_adder :: "(nat \<Rightarrow> kv_hist \<Rightarrow> kv_hist) \<Rightarrow> (nat \<Rightarrow> u64) \<Rightarrow> u64 list \<Rightarrow> bool" where
  "bucket_adder step add cs \<longleftrightarrow>
     (\<forall>i g gs. counts g = Some gs \<longrightarrow> i < length cs \<longrightarrow> gs ! i = cs ! i \<longrightarrow>
        step i g = (if add i = 0 then g else add_bucket i (gs ! i + add i) (add i) g))"

lemma fold_bucket_adder:
  assumes cs: "counts h = Some cs" and step: "bucket_adder step add cs" and "j \<le> length cs"
  shows "\<exists>gs. counts (fold step [0..<j] h) = Some gs \<and> length gs = length cs \<and>
           (\<forall>i < length cs. gs ! i = (if i < j then cs ! i + add i else cs ! i)) \<and>
           same_layout (fold step [0..<j] h) h \<and>
           total_count (fold step [0..<j] h) = total_count h + (\<Sum>i < j. add i) \<and>
           min_value (fold step [0..<j] h) = Min (insert (min_value h) (value_of_slot h ` {i. i < j \<and> add i \<noteq> 0})) \<and>
           max_value (fold step [0..<j] h) = Max (insert (max_value h) (value_of_slot h ` {i. i < j \<and> add i \<noteq> 0}))"
  using assms(3)
proof (induction j)
  case 0
  then show ?case using cs by simp
next
  case (Suc j)
  let ?g = "fold step [0..<j] h"
  obtain gs where gs: "counts ?g = Some gs" "length gs = length cs"
    "\<forall>i < length cs. gs ! i = (if i < j then cs ! i + add i else cs ! i)"
    and lay: "same_layout ?g h" and tot: "total_count ?g = total_count h + (\<Sum>i < j. add i)"
    and mn: "min_value ?g = Min (insert (min_value h) (value_of_slot h ` {i. i < j \<and> add i \<noteq> 0}))"
    and mx: "max_value ?g = Max (insert (max_value h) (value_of_slot h ` {i. i < j \<and> add i \<noteq> 0}))"
    using Suc by auto
  have sj: "step j ?g = (if add j = 0 then ?g else add_bucket j (gs ! j + add j) (add j) ?g)"
    using step gs Suc.prems by (simp add: bucket_adder_def)
  show ?case
  proof (cases "add j = 0")
    case True
    then have "{i. i < Suc j \<and> add i \<noteq> 0} = {i. i < j \<and> add i \<noteq> 0}"
      by (auto simp: less_Suc_eq)
    then show ?thesis
      using True sj gs lay tot mn mx by (auto simp: less_Suc_eq)
  next
    case False
    have S: "{i. i < Suc j \<and> add i \<noteq> 0} = insert j {i. i < j \<and> add i \<noteq> 0}"
      using False by (auto simp: less_Suc_eq)
    have fin: "finite (insert a (value_of_slot h ` {i. i < j \<and> add i \<noteq> 0}))" for a
      by simp
    have "same_layout (add_bucket j (gs ! j + add j) (add j) ?g) ?g"
      by (rule add_bucket_sel)
    then have lay': "same_layout (add_bucket j (gs ! j + add j) (add j) ?g) h"
      using lay same_layout_trans by blast
    have "counts (add_bucket j (gs ! j + add j) (add j) ?g) = Some (gs[j := gs ! j + add j])"
      by (simp add: add_bucket_sel gs)
    moreover have "total_count (add_bucket j (gs ! j + add j) (add j) ?g) = total_count h + (\<Sum>i < Suc j. add i)"
      by (simp add: add_bucket_sel tot)
    moreover have "min_value (add_bucket j (gs ! j + add j) (add j) ?g) =
        Min (insert (min_value h) (value_of_slot h ` {i. i < Suc j \<and> add i \<noteq> 0}))"
      unfolding S image_insert insert_commute [of "min_value h"]
      by (subst Min_insert) (simp_all only: add_bucket_sel mn same_layout_eqs [OF lay] fin insert_not_empty not_False_eq_True)
    moreover have "max_value (add_bucket j (gs ! j + add j) (add j) ?g) =
        Max (insert (max_value h) (value_of_slot h ` {i. i < Suc j \<and> add i \<noteq> 0}))"
      unfolding S image_insert insert_commute [of "max_value h"]
      by (subst Max_insert) (simp_all only: add_bucket_sel mx same_layout_eqs [OF lay] fin insert_not_empty not_False_eq_True)
    ultimately show ?thesis
      using False sj gs lay' Suc.prems by (auto simp: nth_list_update less_Suc_eq)
  qed
qed

lemma unat_sum_u64:
  "(\<Sum>i < n. unat (f i :: u64)) < 2 ^ 64 \<Longrightarrow> unat (\<Sum>i < (n :: nat). f i) = (\<Sum>i < n. unat (f i))"
  by (induction n) (simp_all add: unat_add_u64)

lemma fold_bucket_adder_counts:
  assumes rep: "hist_counts h M" and cs: "counts h = Some cs" and step: "bucket_adder step add cs"
    and N: "\<forall>v \<in># N. v \<le> highest_trackable h" and room: "size M + size N < 2 ^ 64"
    and add: "\<And>i. i < hist_slots h \<Longrightarrow> unat (add i) = count (image_mset (hslot h) N) i"
  defines "g \<equiv> fold step [0..<hist_slots h] h"
  shows "hist_counts g (M + N)" and "same_layout g h"
    and "min_value g = Min (insert (min_value h) (hedge h ` set_mset N))"
    and "max_value g = Max (insert (max_value h) (hedge h ` set_mset N))"
proof -
  note D = hist_countsD [OF rep]
  have len: "length cs = hist_slots h"
    using hist_wf_counts [OF D(1)] cs by auto
  obtain gs where gs: "counts g = Some gs" "length gs = length cs"
    "\<forall>i < length cs. gs ! i = cs ! i + add i"
    and lay: "same_layout g h" and tot: "total_count g = total_count h + (\<Sum>i < hist_slots h. add i)"
    and mn: "min_value g = Min (insert (min_value h) (value_of_slot h ` {i. i < hist_slots h \<and> add i \<noteq> 0}))"
    and mx: "max_value g = Max (insert (max_value h) (value_of_slot h ` {i. i < hist_slots h \<and> add i \<noteq> 0}))"
    using fold_bucket_adder [OF cs step, of "hist_slots h"] len unfolding g_def by auto
  note eqs = same_layout_eqs [OF lay]
  have slots: "\<And>v. v \<in># N \<Longrightarrow> hslot h v < hist_slots h"
    using hslot_in_range [OF D(1)] N by blast
  have nz: "add i \<noteq> 0 \<longleftrightarrow> i \<in> hslot h ` set_mset N" if "i < hist_slots h" for i
    using add [OF that] by (simp flip: unat_eq_zero not_in_iff)
  have "{i. i < hist_slots h \<and> add i \<noteq> 0} = hslot h ` set_mset N"
    using nz slots by auto
  then have ed: "value_of_slot h ` {i. i < hist_slots h \<and> add i \<noteq> 0} = hedge h ` set_mset N"
    by (simp add: image_image hedge_def)
  show "min_value g = Min (insert (min_value h) (hedge h ` set_mset N))"
    "max_value g = Max (insert (max_value h) (hedge h ` set_mset N))"
    using mn mx by (simp_all add: ed)
  show "same_layout g h"
    by (rule lay)
  have sumN: "(\<Sum>i < hist_slots h. unat (add i)) = size N"
    using sum_slot_counts [OF slots] add by simp
  then have "unat (\<Sum>i < hist_slots h. add i) = size N"
    using room by (subst unat_sum_u64) auto
  then have total: "unat (total_count g) = size M + size N"
    using tot D(5) room by (simp add: unat_add_u64)
  have cnt: "unat (hcounts g ! i) = count (image_mset (hslot h) (M + N)) i" if i: "i < hist_slots h" for i
  proof -
    have "unat (cs ! i) + unat (add i) < 2 ^ 64"
      using D(4) [OF i] cs add [OF i] count_image_le_size [of "hslot h" M i]
        count_image_le_size [of "hslot h" N i] room by simp
    then show ?thesis
      using gs i len D(4) [OF i] cs add [OF i] by (simp add: unat_add_u64)
  qed
  have "hist_wf g"
    using hist_wf_layout [OF lay D(1) gs(1)] gs(2) len by simp
  then show "hist_counts g (M + N)"
    using cnt total room D(2) N by (auto simp: hist_counts_def eqs)
qed

section \<open>Snapshots\<close>

lemma snapshot_step_adder: "bucket_adder (snapshot_step sc) (\<lambda>i. sc ! i) cs"
  by (simp add: bucket_adder_def snapshot_step_def Let_def)

lemma kv_hist_merge_snapshot_counts:
  assumes d: "hist_counts d M" and s: "hist_counts s N" and lay: "same_layout s d"
    and room: "size M + size N < 2 ^ 64"
  shows "hist_counts (kv_hist_merge_snapshot d s) (M + N)"
    and "same_layout (kv_hist_merge_snapshot d s) d"
    and "min_value (kv_hist_merge_snapshot d s) = Min (insert (min_value d) (hedge d ` set_mset N))"
    and "max_value (kv_hist_merge_snapshot d s) = Max (insert (max_value d) (hedge d ` set_mset N))"
proof -
  note D = hist_countsD [OF d] and S = hist_countsD [OF s] and eqs = same_layout_eqs [OF lay]
  obtain dc where dc: "counts d = Some dc"
    using hist_wf_counts [OF D(1)] .
  obtain sc where sc: "counts s = Some sc"
    using hist_wf_counts [OF S(1)] .
  have eq: "kv_hist_merge_snapshot d s = fold (snapshot_step sc) [0..<hist_slots d] d"
    by (simp add: kv_hist_merge_snapshot_def dc sc eqs(6) hist_slots_def Let_def)
  note adder = fold_bucket_adder_counts [OF d dc snapshot_step_adder [of sc], of N, folded eq]
  have "\<forall>v \<in># N. v \<le> highest_trackable d"
    using S(2) by (simp add: eqs)
  moreover have "unat (sc ! i) = count (image_mset (hslot d) N) i" if "i < hist_slots d" for i
    using S(4) [of i] that sc by (simp add: eqs)
  ultimately show "hist_counts (kv_hist_merge_snapshot d s) (M + N)"
    "same_layout (kv_hist_merge_snapshot d s) d"
    "min_value (kv_hist_merge_snapshot d s) = Min (insert (min_value d) (hedge d ` set_mset N))"
    "max_value (kv_hist_merge_snapshot d s) = Max (insert (max_value d) (hedge d ` set_mset N))"
    using adder room by auto
qed

section \<open>Copies and differences\<close>

lemma kv_hist_copy_rep:
  assumes d: "hist_wf d" and s: "hist_rep s N" and lay: "same_layout s d"
  shows "hist_rep (kv_hist_copy d s) N" and "same_layout (kv_hist_copy d s) d"
proof -
  have sc: "hist_counts s N"
    using s by (simp add: hist_rep_def)
  note S = hist_countsD [OF sc] and eqs = same_layout_eqs [OF lay]
  obtain cs where cs: "counts s = Some cs" "length cs = hist_slots s"
    using hist_wf_counts [OF S(1)] .
  obtain ds where ds: "counts d = Some ds" "length ds = hist_slots d"
    using hist_wf_counts [OF d] .
  have eq: "kv_hist_copy d s = d\<lparr>counts := Some cs, total_count := total_count s,
      min_value := min_value s, max_value := max_value s\<rparr>"
    using cs ds by (simp add: kv_hist_copy_def Let_def hist_slots_def eqs(6))
  show lay': "same_layout (kv_hist_copy d s) d"
    by (simp add: eq)
  have "hist_wf (kv_hist_copy d s)"
    using hist_wf_layout [OF lay' d] cs by (simp add: eq eqs)
  moreover have "counts (kv_hist_copy d s) = Some cs" "total_count (kv_hist_copy d s) = total_count s"
    "min_value (kv_hist_copy d s) = min_value s" "max_value (kv_hist_copy d s) = max_value s"
    by (simp_all add: eq)
  ultimately show "hist_rep (kv_hist_copy d s) N"
    using s S(2-5) cs by (simp add: hist_rep_def hist_counts_def same_layout_eqs [OF lay'] eqs)
qed

lemma delta_step_adder:
  "bucket_adder (delta_step cc pc) (\<lambda>i. if cc ! i \<ge> pc ! i then cc ! i - pc ! i else cc ! i)
     (replicate n 0)"
  by (simp add: bucket_adder_def delta_step_def Let_def)

lemma kv_hist_delta_counts:
  assumes d: "hist_wf d" and c: "hist_counts c N" and p: "hist_counts p M" and sub: "M \<subseteq># N"
    and lay: "same_layout c d" "same_layout p d"
  shows "hist_counts (kv_hist_delta d c p) (N - M)" and "same_layout (kv_hist_delta d c p) d"
    and "min_value (kv_hist_delta d c p) = Min (insert (- 1) (hedge d ` set_mset (N - M)))"
    and "max_value (kv_hist_delta d c p) = Max (insert 0 (hedge d ` set_mset (N - M)))"
proof -
  let ?r = "kv_hist_reset d"
  note C = hist_countsD [OF c] and P = hist_countsD [OF p]
  note ceq = same_layout_eqs [OF lay(1)] and peq = same_layout_eqs [OF lay(2)]
  note rep = kv_hist_reset_rep [OF d] and req = same_layout_eqs [OF kv_hist_reset_rep(2) [OF d]]
  obtain ds where ds: "counts d = Some ds"
    using hist_wf_counts [OF d] .
  obtain cc where cc: "counts c = Some cc"
    using hist_wf_counts [OF C(1)] .
  obtain pc where pc: "counts p = Some pc"
    using hist_wf_counts [OF P(1)] .
  let ?add = "\<lambda>i. if cc ! i \<ge> pc ! i then cc ! i - pc ! i else cc ! i"
  have eq: "kv_hist_delta d c p = fold (delta_step cc pc) [0..<hist_slots ?r] ?r"
    by (simp add: kv_hist_delta_def ds cc pc ceq(6) peq(6) req(6) hist_slots_def Let_def)
  have r: "hist_counts ?r {#}" "counts ?r = Some (replicate (hist_slots ?r) 0)"
    and ext: "min_value ?r = - 1" "max_value ?r = 0"
    using rep by (simp_all add: hist_rep_def kv_hist_reset_def ds hist_slots_def)
  have add: "unat (?add i) = count (image_mset (hslot ?r) (N - M)) i" if i: "i < hist_slots ?r" for i
  proof -
    have u: "unat (cc ! i) = count (image_mset (hslot d) N) i" "unat (pc ! i) = count (image_mset (hslot d) M) i"
      using C(4) [of i] P(4) [of i] i cc pc by (simp_all add: ceq peq req)
    moreover have "count (image_mset (hslot d) M) i \<le> count (image_mset (hslot d) N) i"
      using image_mset_subseteq_mono [OF sub] by (rule mset_subset_eq_count)
    ultimately have "pc ! i \<le> cc ! i"
      by (simp add: word_le_nat_alt)
    then show ?thesis
      using u by (simp add: unat_sub req image_mset_Diff [OF sub])
  qed
  have hi: "\<forall>v \<in># N - M. v \<le> highest_trackable ?r"
    using C(2) by (auto simp: ceq req dest: in_diffD)
  have "size (N - M) \<le> size N"
    by (simp add: size_Diff_submset [OF sub])
  then have "size ({#} :: u64 multiset) + size (N - M) < 2 ^ 64"
    using C(3) unfolding size_empty by linarith
  note res = fold_bucket_adder_counts [OF r delta_step_adder hi this add, folded eq]
  have "hedge ?r = hedge d"
    by (simp add: hedge_def req fun_eq_iff)
  then show "hist_counts (kv_hist_delta d c p) (N - M)" "same_layout (kv_hist_delta d c p) d"
    "min_value (kv_hist_delta d c p) = Min (insert (- 1) (hedge d ` set_mset (N - M)))"
    "max_value (kv_hist_delta d c p) = Max (insert 0 (hedge d ` set_mset (N - M)))"
    using res same_layout_trans [OF res(2) rep(2)] by (simp_all add: ext)
qed

section \<open>Ranks and percentiles\<close>

text \<open>The sample of rank \<open>r\<close>, counted from 1 in ascending order.\<close>

definition sample_of_rank :: "u64 multiset \<Rightarrow> nat \<Rightarrow> u64" where
  "sample_of_rank M r = sorted_list_of_multiset M ! (r - 1)"

lemma sorted_rank_between:
  fixes ys :: "nat list"
  assumes srt: "sorted ys" and lo: "length (filter (\<lambda>y. y < j) ys) < r"
    and hi: "r \<le> length (filter (\<lambda>y. y \<le> j) ys)"
  shows "ys ! (r - 1) = j"
proof -
  have r: "0 < r" "r \<le> length ys"
    using lo hi length_filter_le [of "\<lambda>y. y \<le> j" ys] by linarith+
  have "\<not> ys ! (r - 1) < j"
  proof
    assume less: "ys ! (r - 1) < j"
    have "ys ! i < j" if "i < r" for i
    proof -
      have "ys ! i \<le> ys ! (r - 1)"
        using that r by (intro sorted_nth_mono [OF srt]) auto
      then show ?thesis
        using less by linarith
    qed
    then have "{..<r} \<subseteq> {i. i < length ys \<and> ys ! i < j}"
      using r by auto
    then have "card {..<r} \<le> card {i. i < length ys \<and> ys ! i < j}"
      by (intro card_mono) auto
    then show False
      using lo by (simp add: length_filter_conv_card)
  qed
  moreover have "\<not> j < ys ! (r - 1)"
  proof
    assume more: "j < ys ! (r - 1)"
    have "i < r - 1" if "i < length ys" "ys ! i \<le> j" for i
      using that sorted_nth_mono [OF srt, of "r - 1" i] more by (cases "i < r - 1") auto
    then have "{i. i < length ys \<and> ys ! i \<le> j} \<subseteq> {..<r - 1}"
      by auto
    then have "card {i. i < length ys \<and> ys ! i \<le> j} \<le> card {..<r - 1}"
      by (intro card_mono) auto
    then show False
      using hi r by (simp add: length_filter_conv_card)
  qed
  ultimately show ?thesis
    by simp
qed

lemma sum_slot_counts_below:
  "(\<Sum>i < j. count (image_mset f M) i) = size (filter_mset (\<lambda>v. f v < (j :: nat)) M)"
proof (induction M)
  case (add x M)
  have "(\<Sum>i < j. count (image_mset f (add_mset x M)) i) =
      (\<Sum>i < j. count (image_mset f M) i) + (\<Sum>i < j. if i = f x then 1 else 0)"
    unfolding sum.distrib [symmetric] by (rule sum.cong) auto
  with add show ?case
    by simp
qed simp

lemma rank_loop_Some:
  assumes "unat t + sum_list (map unat cs) < 2 ^ 64"
    and "unat t < unat r" and "unat r \<le> unat t + sum_list (map unat cs)"
  shows "\<exists>j < length cs. rank_loop cs i t r = Some (i + j) \<and>
           unat t + sum_list (map unat (take j cs)) < unat r \<and>
           unat r \<le> unat t + sum_list (map unat (take (Suc j) cs))"
  using assms
proof (induction cs arbitrary: i t)
  case Nil
  then show ?case by simp
next
  case (Cons c cs)
  have u: "unat (t + c) = unat t + unat c"
    using Cons.prems by (intro unat_add_u64) simp
  show ?case
  proof (cases "r \<le> t + c")
    case True
    then show ?thesis
      using Cons.prems u by (intro exI [of _ 0]) (simp add: word_le_nat_alt Let_def)
  next
    case False
    then have "unat (t + c) < unat r"
      by (simp add: word_le_nat_alt)
    then obtain j where "j < length cs" "rank_loop cs (Suc i) (t + c) r = Some (Suc i + j)"
      "unat (t + c) + sum_list (map unat (take j cs)) < unat r"
      "unat r \<le> unat (t + c) + sum_list (map unat (take (Suc j) cs))"
      using Cons.IH [of "t + c" "Suc i"] Cons.prems u by auto
    then show ?thesis
      using False u by (intro exI [of _ "Suc j"]) (simp add: Let_def)
  qed
qed

end
