(* ===== verification/Hist_Percentile.thy ===== *)
theory Hist_Percentile
  imports Hist_Window
begin

text \<open>
  Percentiles of \<^verbatim>\<open>src/hist.h\<close> (\<^verbatim>\<open>kv_hist_value_at_percentile\<close>): the value read out is the
  upper edge of the bucket of the sample whose rank the percentile asks for, the rank is
  within one of the exact one although it is computed in floating point, and the whole
  pipeline (initialise, record, read out) is correct up to the bucket width.
\<close>

section \<open>From ranks to buckets\<close>

lemma length_sorted_list_of_multiset: "length (sorted_list_of_multiset M) = size M"
  by (metis mset_sorted_list_of_multiset size_mset)

lemma length_filter_slots:
  "length (filter P (map f (sorted_list_of_multiset M))) = size (filter_mset (\<lambda>v. P (f v)) M)"
proof -
  have "size (filter_mset (\<lambda>v. P (f v)) (mset (sorted_list_of_multiset M))) =
      length (filter (\<lambda>v. P (f v)) (sorted_list_of_multiset M))"
    by (metis mset_filter size_mset)
  then show ?thesis
    by (simp add: filter_map o_def)
qed

lemma rank_loop_sample:
  assumes rep: "hist_counts h M" and cs: "counts h = Some cs"
    and r: "1 \<le> unat r" "unat r \<le> size M"
  shows "rank_loop cs 0 0 r = Some (hslot h (sample_of_rank M (unat r)))"
proof -
  note D = hist_countsD [OF rep]
  have len: "length cs = hist_slots h"
    using hist_wf_counts [OF D(1)] cs by auto
  let ?slots = "map (hslot h) (sorted_list_of_multiset M)"
  have below: "sum_list (map unat (take j cs)) = size (filter_mset (\<lambda>v. hslot h v < j) M)"
    if "j \<le> hist_slots h" for j
  proof -
    have "sum_list (map unat (take j cs)) = (\<Sum>i < j. unat (cs ! i))"
      using that len by (simp add: sum_list_sum_nth atLeast0LessThan)
    also have "\<dots> = (\<Sum>i < j. count (image_mset (hslot h) M) i)"
      using that D(4) cs by (intro sum.cong) auto
    finally show ?thesis
      by (simp only: sum_slot_counts_below)
  qed
  have all: "filter_mset (\<lambda>v. hslot h v < hist_slots h) M = M"
    using D(2) hslot_in_range [OF D(1)] by (simp add: filter_mset_eq_conv)
  have sum: "sum_list (map unat cs) = size M"
    using below [of "hist_slots h"] len by (simp add: all)
  then obtain j where j: "j < length cs" "rank_loop cs 0 0 r = Some j"
    "sum_list (map unat (take j cs)) < unat r" "unat r \<le> sum_list (map unat (take (Suc j) cs))"
    using rank_loop_Some [of 0 cs r 0] r D(3) by auto
  have "?slots ! (unat r - 1) = j"
  proof (rule sorted_rank_between)
    show "sorted ?slots"
      by (rule sorted_map_mono) (auto intro: monoI hslot_mono mono_onI)
    show "length (filter (\<lambda>y. y < j) ?slots) < unat r"
      unfolding length_filter_slots using j(1,3) below [of j] len by simp
    show "unat r \<le> length (filter (\<lambda>y. y \<le> j) ?slots)"
      unfolding length_filter_slots using j(1,4) below [of "Suc j"] len by (simp add: less_Suc_eq_le)
  qed
  moreover have "unat r - 1 < length (sorted_list_of_multiset M)"
    unfolding length_sorted_list_of_multiset using r by linarith
  ultimately have "hslot h (sample_of_rank M (unat r)) = j"
    unfolding sample_of_rank_def by (simp only: nth_map)
  then show ?thesis
    using j(2) by simp
qed

section \<open>The rank a percentile asks for\<close>

definition percentile_rank :: "double \<Rightarrow> nat \<Rightarrow> nat" where
  "percentile_rank p n =
     max 1 (nat \<lfloor>dbl (dbl (dbl (min p 100 / 100) * of_nat n) + 1 / 2)\<rfloor>)"

lemma percentile_fraction:
  "0 \<le> p \<Longrightarrow> 0 \<le> min p 100 / 100" "min p 100 / 100 \<le> (1 :: double)"
  by (auto simp: min_def)

lemma percentile_rank_range:
  assumes "0 \<le> p" and "0 < n" and "n < 2 ^ 51"
  shows "1 \<le> percentile_rank p n" and "percentile_rank p n \<le> n"
  using ieee.fraction_of_count [OF percentile_fraction(1) [OF assms(1)] percentile_fraction(2) assms(3)] assms
  by (auto simp: percentile_rank_def)

lemma percentile_rank_near:
  assumes "0 \<le> p" and "p \<le> 100" and "0 < n" and "n < 2 ^ 50"
  shows "\<bar>of_nat (percentile_rank p n) - p / 100 * of_nat n\<bar> \<le> 1"
proof -
  let ?k = "\<lfloor>dbl (dbl (dbl (p / 100) * of_nat n) + 1 / 2)\<rfloor>"
  have q: "0 \<le> p / 100" "p / 100 \<le> 1"
    using assms by simp_all
  have near: "\<bar>of_int ?k - p / 100 * of_nat n\<bar> < 1"
    by (rule ieee.fraction_near [OF q assms(4)])
  have "n < 2 ^ 51"
    using assms(4) by simp
  then have k: "0 \<le> ?k"
    by (rule ieee.fraction_of_count [OF q])
  have pn: "0 \<le> p / 100 * of_nat n"
    using q by simp
  show ?thesis
  proof (cases "?k = 0")
    case True
    then show ?thesis
      using near pn assms by (simp add: percentile_rank_def min_def abs_le_iff abs_less_iff)
  next
    case False
    then have "1 \<le> ?k"
      using k by linarith
    then have "1 \<le> nat ?k"
      by linarith
    then have "max 1 (nat ?k) = nat ?k" and "of_nat (nat ?k) = (of_int ?k :: rat)"
      using of_nat_nat [OF k] by (simp_all only: max_absorb2)
    then show ?thesis
      using near assms by (simp only: percentile_rank_def min_absorb1)
  qed
qed

lemma percentile_rank_mono:
  assumes "0 \<le> p" and "p \<le> p'"
  shows "percentile_rank p n \<le> percentile_rank p' n"
proof -
  have "min p 100 / 100 \<le> min p' 100 / (100 :: double)"
    using assms by (simp add: min_def divide_right_mono)
  then show ?thesis
    unfolding percentile_rank_def
    by (intro max.mono nat_mono ieee.fraction_mono percentile_fraction assms) simp_all
qed

lemma unat_at_least_1:
  assumes "0 \<le> k" and "k < 2 ^ 64"
  shows "unat (if (word_of_int k :: u64) = 0 then 1 else (word_of_int k :: u64)) = max 1 (nat k)"
proof -
  have u: "unat (word_of_int k :: u64) = nat k"
    using assms by (simp add: unat_eq_nat_uint uint_word_of_int_eq take_bit_int_eq_self)
  then have "(word_of_int k :: u64) = 0 \<longleftrightarrow> nat k = 0"
    by (simp flip: unat_eq_0)
  then show ?thesis
    using u by (cases "nat k = 0") auto
qed

lemma count_at_percentile_rank:
  assumes "unat (total_count h) = n" and "0 \<le> p" and "0 < n" and "n < 2 ^ 51"
  shows "unat (count_at_percentile h p) = percentile_rank p n"
proof -
  let ?k = "\<lfloor>dbl (dbl (dbl (min p 100 / 100) * of_nat n) + 1 / 2)\<rfloor>"
  have req: "(if 100 < p then 100 else p) = min p 100"
    by (simp add: min_def)
  have "double_of_u64 (total_count h) = of_nat n"
    using ieee.rnd_nat [of n] assms by (simp add: double_of_u64_def)
  then have c: "count_at_percentile h p =
      (if (word_of_int ?k :: u64) = 0 then 1 else word_of_int ?k)"
    by (simp only: count_at_percentile_def Let_def u64_of_double_def req)
  have k: "0 \<le> ?k" "?k \<le> int n"
    using ieee.fraction_of_count [OF percentile_fraction(1) [OF assms(2)] percentile_fraction(2) assms(4)] by auto
  have "int n < 2 ^ 51"
    using assms(4) by simp
  also have "\<dots> < (2 :: int) ^ 64"
    by simp
  finally have "?k < 2 ^ 64"
    using k(2) by linarith
  then show ?thesis
    unfolding c percentile_rank_def using k(1) by (intro unat_at_least_1)
qed

lemma value_at_percentile_sample:
  assumes rep: "hist_counts h M" and M: "M \<noteq> {#}" "size M < 2 ^ 51" and p: "0 \<le> p"
  shows "kv_hist_value_at_percentile h p = hedge h (sample_of_rank M (percentile_rank p (size M)))"
proof -
  note D = hist_countsD [OF rep]
  obtain cs where cs: "counts h = Some cs" "length cs = hist_slots h"
    using hist_wf_counts [OF D(1)] .
  have n: "0 < size M"
    using M(1) by (simp add: nonempty_has_size)
  have tot: "total_count h \<noteq> 0"
    using D(5) n by auto
  have tk: "take (nat (counts_array_length h)) cs = cs"
    using cs(2) by (simp add: hist_slots_def)
  note r = count_at_percentile_rank [OF D(5) p n M(2)]
  have "rank_loop cs 0 0 (count_at_percentile h p) =
      Some (hslot h (sample_of_rank M (percentile_rank p (size M))))"
    using rank_loop_sample [OF rep cs(1), of "count_at_percentile h p"]
      percentile_rank_range [OF p n M(2)] by (simp only: r)
  then show ?thesis
    by (simp add: kv_hist_value_at_percentile_def tot cs tk hedge_def)
qed

lemma sample_of_rank_in: "1 \<le> r \<Longrightarrow> r \<le> size M \<Longrightarrow> sample_of_rank M r \<in># M"
  using nth_mem [of "r - 1" "sorted_list_of_multiset M"]
  by (simp add: sample_of_rank_def length_sorted_list_of_multiset)

lemma sample_of_rank_mono:
  assumes "1 \<le> r" and "r \<le> s" and "s \<le> size M"
  shows "sample_of_rank M r \<le> sample_of_rank M s"
  using assms unfolding sample_of_rank_def
  by (intro sorted_nth_mono sorted_sorted_list_of_multiset) (auto simp: length_sorted_list_of_multiset)

text \<open>The relative error of a bucket edge: one part in \<open>2 ^ (hmag h - 1)\<close>.\<close>

lemma hedge_precision:
  assumes wf: "hist_wf h" and v: "v \<le> highest_trackable h"
  shows "(unat (hedge h v) - unat v) * 2 ^ (hmag h - 1) \<le> max (unat v) (2 ^ (hmag h - 1))"
  using edge_precision [of "hmag h" "unat v"] hist_wf_hmag(1) [OF wf]
  by (simp add: hedge_eq [OF wf v] hslot_def)

lemma edge_slot_mono:
  assumes "0 < k" and "v \<le> w"
  shows "edge_of k (slot_of k v) \<le> edge_of k (slot_of k w)"
proof (cases "bucket_of k v = bucket_of k w")
  case True
  then show ?thesis
    using assms by (simp add: edge_slot div_le_mono)
next
  case False
  with bucket_of_mono [OF assms(2)] have less: "bucket_of k v < bucket_of k w"
    by (meson le_neq_implies_less)
  have "edge_of k (slot_of k v) \<le> 2 ^ k * 2 ^ bucket_of k v"
    unfolding edge_slot using sub_bucket_less [of v k] by (intro mult_right_mono) auto
  also have "\<dots> = 2 ^ (Suc (bucket_of k v) + (k - 1))"
    using assms(1) by (simp add: power_add [symmetric])
  also have "\<dots> \<le> 2 ^ (bucket_of k w + (k - 1))"
    using less by (intro power_increasing) auto
  also have "\<dots> \<le> w"
    using bucket_of_lower [OF assms(1), of w] less by (simp add: power_add)
  also have "\<dots> \<le> edge_of k (slot_of k w)"
    using edge_above [of w k] by simp
  finally show ?thesis .
qed

lemma hedge_mono:
  assumes wf: "hist_wf h" and "v \<le> w" and w: "w \<le> highest_trackable h"
  shows "hedge h v \<le> hedge h w"
proof -
  have "edge_of (hmag h) (hslot h v) \<le> edge_of (hmag h) (hslot h w)"
    using assms(2) hist_wf_hmag(1) [OF wf] by (simp add: hslot_def edge_slot_mono word_le_nat_alt)
  then show ?thesis
    using assms by (simp add: word_le_nat_alt hedge_eq)
qed

section \<open>Properties\<close>

text \<open>C8: Recording splits over workers: merging the histogram of the samples \<open>ws\<close> into the
  histogram of the samples \<open>vs\<close> gives exactly, field by field, the histogram that one
  worker would have after recording \<open>vs\<close> and then \<open>ws\<close>.\<close>

theorem merge_is_sequential_recording:
  assumes init: "kv_hist_init True 1 highest sigfigs = Some (0, h)"
    and hi: "1 < highest" "unat highest < 2 ^ 62" and room: "length vs + length ws < 2 ^ 64"
  shows "kv_hist_merge (record_all h vs) (record_all h ws) = record_all h (vs @ ws)"
proof -
  have h: "hist_rep h {#}"
    using kv_hist_init_fresh [OF hi, of sigfigs] init by auto
  let ?C = "\<lambda>xs. image_mset (clamp_value h) (mset xs)"
  have r: "hist_rep (record_all h xs) (?C xs) \<and> same_layout (record_all h xs) h"
    if "length xs < 2 ^ 64" for xs
    using record_all_rep [OF h, of xs] that by simp
  have v: "hist_rep (record_all h vs) (?C vs)" "same_layout (record_all h vs) h"
    and w: "hist_rep (record_all h ws) (?C ws)" "same_layout (record_all h ws) h"
    and vw: "hist_rep (record_all h (vs @ ws)) (?C (vs @ ws))" "same_layout (record_all h (vs @ ws)) h"
    using r [of vs] r [of ws] r [of "vs @ ws"] room by auto
  have lay: "same_layout (record_all h ws) (record_all h vs)"
    using same_layout_trans [OF w(2) same_layout_sym [OF v(2)]] .
  have "hist_rep (kv_hist_merge (record_all h vs) (record_all h ws)) (?C vs + ?C ws)"
    using room by (intro kv_hist_merge_rep [OF v(1) w(1) lay]) simp
  moreover have "same_layout (kv_hist_merge (record_all h vs) (record_all h ws)) (record_all h vs)"
    using v(1) w(1) room by (intro kv_hist_merge_counts(2) [OF _ _ lay]) (auto simp: hist_rep_def)
  ultimately show ?thesis
    using vw v(2) by (intro hist_rep_unique) (auto intro: same_layout_trans same_layout_sym)
qed

text \<open>C1: Percentiles are right end to end. For a histogram set up with a lowest value of 1
  and a highest below \<open>2 ^ 62\<close>, after recording any non-empty run of samples, the value
  reported for percentile \<open>p\<close> is above the sample of a rank within one of \<open>p / 100 * n\<close>, and
  above it by at most one bucket width: at most 1, or one part in \<open>2 ^ (m - 2)\<close> of the
  sample, for \<open>m\<close> the magnitude that the number of significant figures selects.\<close>

theorem percentile_of_recorded:
  assumes init: "kv_hist_init True 1 highest sigfigs = Some (0, h)"
    and hi: "1 < highest" "unat highest < 2 ^ 62"
    and vs: "vs \<noteq> []" "length vs < 2 ^ 50" and p: "0 \<le> p" "p \<le> 100"
  shows "\<exists>r. 1 \<le> r \<and> r \<le> length vs \<and> \<bar>of_nat r - p / 100 * of_nat (length vs)\<bar> \<le> 1 \<and>
           (let s = sort (map (clamp_value h) vs) ! (r - 1);
                q = kv_hist_value_at_percentile (record_all h vs) p
            in s < q \<and> (unat q - unat s) * 2 ^ (figures_magnitude sigfigs - 2)
                        \<le> max (unat s) (2 ^ (figures_magnitude sigfigs - 2)))"
proof -
  have h: "hist_rep h {#}" and mag: "hmag h = figures_magnitude sigfigs - 1"
    using kv_hist_init_fresh [OF hi, of sigfigs] init by auto
  let ?M = "mset (map (clamp_value h) vs)" and ?g = "record_all h vs"
  let ?r = "percentile_rank p (size ?M)"
  let ?s = "sample_of_rank ?M ?r"
  have n: "0 < size ?M" "size ?M < 2 ^ 50" "size ?M < 2 ^ 51" "?M \<noteq> {#}"
    using vs by auto
  have rep: "hist_counts ?g ?M" and lay: "same_layout ?g h"
    using record_all_rep [OF h, of vs] vs by (auto simp: hist_rep_def)
  note D = hist_countsD [OF rep] and eqs = same_layout_eqs [OF lay]
  have r: "1 \<le> ?r" "?r \<le> size ?M"
    using percentile_rank_range [OF p(1) n(1,3)] .
  have s: "?s \<le> highest_trackable ?g"
    using D(2) sample_of_rank_in [OF r] by blast
  have q: "kv_hist_value_at_percentile ?g p = hedge ?g ?s"
    by (rule value_at_percentile_sample [OF rep n(4,3) p(1)])
  have m: "hmag ?g - 1 = figures_magnitude sigfigs - 2"
    by (simp add: eqs mag)
  have "?s = sort (map (clamp_value h) vs) ! (?r - 1)"
    by (simp add: sample_of_rank_def del: mset_map)
  then show ?thesis
    using r percentile_rank_near [OF p n(1,2)] hedge_above [OF D(1) s] hedge_precision [OF D(1) s, unfolded m]
    unfolding Let_def q by (intro exI [of _ ?r]) simp
qed

text \<open>C34: Percentiles are ordered: a larger percentile never reports a smaller latency.\<close>

theorem percentile_monotone:
  assumes rep: "hist_counts h M" and M: "size M < 2 ^ 51" and p: "0 \<le> p" "p \<le> p'"
  shows "kv_hist_value_at_percentile h p \<le> kv_hist_value_at_percentile h p'"
proof (cases "M = {#}")
  case True
  then have "total_count h = 0"
    using hist_countsD(5) [OF rep] by (simp add: unat_eq_0)
  then show ?thesis
    by (simp add: kv_hist_value_at_percentile_def)
next
  case False
  let ?r = "percentile_rank p (size M)" and ?r' = "percentile_rank p' (size M)"
  note D = hist_countsD [OF rep]
  have n: "0 < size M"
    using False by (simp add: nonempty_has_size)
  have p': "0 \<le> p'"
    using p by simp
  have s: "1 \<le> ?r" "?r \<le> ?r'" "?r' \<le> size M"
    using percentile_rank_range [OF p(1) n M] percentile_rank_range [OF p' n M] percentile_rank_mono [OF p]
    by auto
  then have "sample_of_rank M ?r' \<in># M"
    by (intro sample_of_rank_in) auto
  then have "hedge h (sample_of_rank M ?r) \<le> hedge h (sample_of_rank M ?r')"
    using hedge_mono [OF D(1) sample_of_rank_mono [OF s]] D(2) by blast
  then show ?thesis
    by (simp add: value_at_percentile_sample [OF rep False M] p p')
qed

text \<open>C13: A window is exactly the samples recorded in it: the difference of a later and an
  earlier snapshot of a growing histogram holds, bucket by bucket, the samples recorded in
  between, whatever the destination held before, and its total is their number.\<close>

theorem delta_is_the_window:
  assumes prev: "hist_rep prev M" and room: "size M + length vs < 2 ^ 64"
    and d: "hist_wf d" "same_layout prev d"
  shows "hist_counts (kv_hist_delta d (record_all prev vs) prev)
           (image_mset (clamp_value prev) (mset vs))"
proof -
  have cur: "hist_counts (record_all prev vs) (M + image_mset (clamp_value prev) (mset vs))"
    and lay: "same_layout (record_all prev vs) d"
    using record_all_rep [OF prev room] d(2) same_layout_trans by (auto simp: hist_rep_def)
  have "hist_counts prev M"
    using prev by (simp add: hist_rep_def)
  from kv_hist_delta_counts(1) [OF d(1) cur this _ lay d(2)] show ?thesis
    by simp
qed

text \<open>C19: Setting up a histogram with lowest value 1 returns if and only if the highest value
  is at most \<open>(2 ^ m - 1) * 2 ^ (64 - m)\<close>; above it the loop that counts the buckets
  shifts its bound to zero and runs forever.\<close>

theorem init_terminates_iff:
  "1 < highest \<Longrightarrow>
   (\<exists>r. kv_hist_init True 1 highest sigfigs = Some r) \<longleftrightarrow>
   unat highest \<le> (2 ^ figures_magnitude sigfigs - 1) * 2 ^ (64 - figures_magnitude sigfigs)"
  using kv_hist_init_none_iff [of highest sigfigs] by (metis not_None_eq not_less)

text \<open>C16: Every sample lands: after recording any run of samples the bucket counts, the
  total and the exact minimum and maximum are those of the clamped samples.\<close>

theorem recording_keeps_all_samples:
  assumes init: "kv_hist_init True 1 highest sigfigs = Some (0, h)"
    and hi: "1 < highest" "unat highest < 2 ^ 62" and room: "length vs < 2 ^ 64"
  shows "hist_rep (record_all h vs) (image_mset (clamp_value h) (mset vs))"
  using kv_hist_init_fresh [OF hi, of sigfigs] init record_all_rep [of h "{#}" vs] room by auto

lemma slot_1024: "slot_of 10 1024 = slot_of 10 1025"
  by (simp add: slot_of_def bucket_of_def compute_floorlog)

text \<open>The bucket width at three significant figures: 1024 and 1025 already share a
  bucket, so recording either of them leaves the same counts.\<close>

theorem three_figures_merge_1024_1025:
  assumes init: "kv_hist_init True 1 highest 3 = Some (0, h)"
    and hi: "1025 \<le> unat highest" "unat highest < 2 ^ 62"
  shows "counts (kv_hist_record h 1024) = counts (kv_hist_record h 1025)"
proof -
  have "1 < highest"
    using hi(1) by (simp add: word_less_nat_alt)
  then have h: "hist_rep h {#}" "hmag h = 10" "lowest_trackable h = 1" "highest_trackable h = highest"
    using kv_hist_init_fresh [of highest 3] hi init by (auto simp: figures_magnitude_def)
  have "clamp_value h 1024 = 1024" "clamp_value h 1025 = 1025"
    using hi(1) h by (auto intro!: clamp_value_id simp: word_le_nat_alt)
  moreover have "hslot h 1024 = hslot h 1025"
    using slot_1024 by (simp add: hslot_def h)
  ultimately show ?thesis
    using h(1) by (simp add: hist_rep_def hist_counts_def kv_hist_record_eq)
qed

section \<open>Witnesses\<close>

text \<open>The histogram that every worker of the program allocates.\<close>

lemma bench_range: "1 < (60000000000 :: u64)" "unat (60000000000 :: u64) < 2 ^ 62"
  by (simp_all add: word_less_nat_alt)

lemma bench_histogram:
  obtains h where "kv_hist_init True 1 60000000000 3 = Some (0, h)" and "hist_rep h {#}"
    and "\<And>v. 1 \<le> v \<Longrightarrow> v \<le> 60000000000 \<Longrightarrow> clamp_value h v = v"
  using kv_hist_init_fresh [OF bench_range, of 3] by (auto simp: clamp_value_id)

lemma bench_recorded:
  obtains h where "hist_rep h {#7, 9#}"
proof -
  obtain h where h: "hist_rep h {#}" "\<And>v. 1 \<le> v \<Longrightarrow> v \<le> 60000000000 \<Longrightarrow> clamp_value h v = v"
    using bench_histogram by blast
  have "hist_rep (record_all h [7, 9]) (image_mset (clamp_value h) (mset [7, 9]))"
    using record_all_rep [OF h(1), of "[7, 9]"] by simp
  then show ?thesis
    using that h(2) [of 7] h(2) [of 9] by (simp add: word_le_nat_alt)
qed

theorem merge_is_sequential_recording_witness:
  "\<exists>h. kv_hist_init True 1 60000000000 3 = Some (0, h) \<and>
       kv_hist_merge (record_all h [5, 7000]) (record_all h [9]) = record_all h [5, 7000, 9]"
proof -
  obtain h where h: "kv_hist_init True 1 60000000000 3 = Some (0, h)"
    by (rule bench_histogram)
  from merge_is_sequential_recording [OF h bench_range, of "[5, 7000]" "[9]"] h show ?thesis
    by auto
qed

theorem percentile_of_recorded_witness:
  "\<exists>h r. kv_hist_init True 1 60000000000 3 = Some (0, h) \<and> 1 \<le> r \<and> r \<le> length [5 :: u64, 7000, 9] \<and>
         (let s = sort (map (clamp_value h) [5, 7000, 9]) ! (r - 1);
              q = kv_hist_value_at_percentile (record_all h [5, 7000, 9]) 50
          in s < q \<and> (unat q - unat s) * 2 ^ (figures_magnitude 3 - 2)
                      \<le> max (unat s) (2 ^ (figures_magnitude 3 - 2)))"
proof -
  obtain h where h: "kv_hist_init True 1 60000000000 3 = Some (0, h)"
    by (rule bench_histogram)
  have "[5 :: u64, 7000, 9] \<noteq> []" "length [5 :: u64, 7000, 9] < 2 ^ 50" "(0 :: rat) \<le> 50" "(50 :: rat) \<le> 100"
    by simp_all
  from percentile_of_recorded [OF h bench_range this] h show ?thesis
    by blast
qed

theorem percentile_monotone_witness:
  "\<exists>h. hist_counts h {#7, 9#} \<and> kv_hist_value_at_percentile h 50 \<le> kv_hist_value_at_percentile h 99"
proof -
  obtain h where "hist_rep h {#7, 9#}"
    by (rule bench_recorded)
  then have "hist_counts h {#7, 9#}"
    by (simp add: hist_rep_def)
  with percentile_monotone [OF this, of 50 99] show ?thesis
    by auto
qed

theorem delta_is_the_window_witness:
  "\<exists>h. hist_rep h {#7, 9#} \<and>
       hist_counts (kv_hist_delta h (record_all h [3, 4]) h) (image_mset (clamp_value h) (mset [3, 4]))"
proof -
  obtain h where h: "hist_rep h {#7, 9#}"
    by (rule bench_recorded)
  then have "hist_wf h"
    by (simp add: hist_rep_def hist_counts_def)
  with delta_is_the_window [OF h, of "[3, 4]" h] h show ?thesis
    by auto
qed

theorem init_terminates_iff_witness:
  "\<exists>r. kv_hist_init True 1 60000000000 3 = Some r"
  using init_terminates_iff [OF bench_range(1), of 3] by (simp add: figures_magnitude_def)

theorem recording_keeps_all_samples_witness:
  "\<exists>h. kv_hist_init True 1 60000000000 3 = Some (0, h) \<and>
       hist_rep (record_all h [5, 7000]) (image_mset (clamp_value h) (mset [5, 7000]))"
proof -
  obtain h where h: "kv_hist_init True 1 60000000000 3 = Some (0, h)"
    by (rule bench_histogram)
  from recording_keeps_all_samples [OF h bench_range, of "[5, 7000]"] h show ?thesis
    by auto
qed

theorem three_figures_merge_1024_1025_witness:
  "\<exists>h. kv_hist_init True 1 60000000000 3 = Some (0, h) \<and>
       counts (kv_hist_record h 1024) = counts (kv_hist_record h 1025)"
proof -
  obtain h where h: "kv_hist_init True 1 60000000000 3 = Some (0, h)"
    by (rule bench_histogram)
  from three_figures_merge_1024_1025 [OF h _ bench_range(2)] h show ?thesis
    by auto
qed

end
