(* ===== verification/EventSlotPool.thy ===== *)
theory EventSlotPool
  imports KV_Prelude
begin

text \<open>
  The completion slots of \<^verbatim>\<open>src/urma/event_slot_pool.h\<close>. A worker acquires a slot per
  request and gets a token (generation and slot index); the polling thread completes the
  token; the worker probes or aborts it. The state word of a slot is 0 (free),
  \<^verbatim>\<open>token << 2\<close> (pending) or \<^verbatim>\<open>token << 2 | 1\<close>, \<^verbatim>\<open>token << 2 | 2\<close> (done).

  This theory has the operations run one at a time; the interleaving of the worker with
  the polling thread is in \<open>EventSlotConc\<close>. Array indices and \<^verbatim>\<open>freeCount_\<close> are natural
  numbers: the invariant bounds them by 256, so the 32-bit counters never wrap. Generations
  and tokens keep their widths, since generations do wrap.
\<close>

section \<open>The code\<close>

record event_pool =
  states :: "u64 list"
  generations :: "u32 list"
  freeSlots :: "nat list"
  freeCount :: nat

abbreviation kSlotCount :: nat where "kSlotCount \<equiv> 256"

abbreviation kSlotBits :: nat where "kSlotBits \<equiv> 8"

definition Pending :: "u64 \<Rightarrow> u64" where
  "Pending token = push_bit 2 token"

definition Done :: "u64 \<Rightarrow> bool \<Rightarrow> u64" where
  "Done token ok = push_bit 2 token OR (if ok then 1 else 2)"

definition Index :: "u64 \<Rightarrow> nat" where
  "Index token = unat (token AND 255)"

definition EventSlotPool_init :: event_pool where
  "EventSlotPool_init =
     \<lparr>states = replicate kSlotCount 0, generations = replicate kSlotCount 0,
      freeSlots = map (\<lambda>i. kSlotCount - 1 - i) [0..<kSlotCount], freeCount = kSlotCount\<rparr>"

definition Release :: "nat \<Rightarrow> event_pool \<Rightarrow> event_pool" where
  "Release index p = p\<lparr>freeSlots := (freeSlots p)[freeCount p := index], freeCount := freeCount p + 1\<rparr>"

definition make_token :: "u32 \<Rightarrow> nat \<Rightarrow> u64" where
  "make_token generation index = push_bit kSlotBits (ucast generation) OR of_nat index"

definition next_generation :: "u32 \<Rightarrow> u32" where
  "next_generation g = (let g1 = g + 1 in if g1 = 0 then g1 + 1 else g1)"

text \<open>The result flag, the token (0 on failure) and the new pool.\<close>

definition Acquire :: "event_pool \<Rightarrow> bool \<times> u64 \<times> event_pool" where
  "Acquire p =
     (if freeCount p = 0 then (False, 0, p)
      else
        let fc = freeCount p - 1;
            index = freeSlots p ! fc;
            generation = next_generation (generations p ! index);
            p1 = p\<lparr>freeCount := fc, generations := (generations p)[index := generation]\<rparr>;
            token = make_token generation index
        in if states p1 ! index = 0
           then (True, token, p1\<lparr>states := (states p1)[index := Pending token]\<rparr>)
           else (False, 0, Release index p1))"

definition Complete :: "u64 \<Rightarrow> bool \<Rightarrow> event_pool \<Rightarrow> event_pool" where
  "Complete token ok p =
     (if token = 0 then p
      else let index = Index token
           in if states p ! index = Pending token
              then p\<lparr>states := (states p)[index := Done token ok]\<rparr> else p)"

text \<open>1 for success, -1 for failure, 0 for not completed or stale.\<close>

definition Probe :: "u64 \<Rightarrow> event_pool \<Rightarrow> int \<times> event_pool" where
  "Probe token p =
     (if token = 0 then (0, p)
      else
        let index = Index token;
            value = states p ! index
        in if value \<noteq> Done token True \<and> value \<noteq> Done token False then (0, p)
           else (if value = Done token True then 1 else - 1,
                 Release index (p\<lparr>states := (states p)[index := 0]\<rparr>)))"

text \<open>The compare-and-exchange of \<^verbatim>\<open>Abort\<close> is the weak one: it may fail although the value
  matches, which reloads the value. The number of such failures is an argument.\<close>

primrec Abort_loop :: "nat \<Rightarrow> u64 \<Rightarrow> nat \<Rightarrow> event_pool \<Rightarrow> bool \<times> event_pool" where
  "Abort_loop 0 token index p =
     (if drop_bit 2 (states p ! index) = token
      then (True, Release index (p\<lparr>states := (states p)[index := 0]\<rparr>)) else (False, p))"
| "Abort_loop (Suc spurious) token index p =
     (if drop_bit 2 (states p ! index) = token
      then Abort_loop spurious token index p else (False, p))"

definition Abort :: "nat \<Rightarrow> u64 \<Rightarrow> event_pool \<Rightarrow> bool \<times> event_pool" where
  "Abort spurious token p = (if token = 0 then (False, p) else Abort_loop spurious token (Index token) p)"

definition Available :: "event_pool \<Rightarrow> nat" where
  "Available p = freeCount p"

section \<open>Tokens and state words\<close>

lemma or_disjoint_u64:
  assumes "unat b < 2 ^ n" and "n \<le> 64"
  shows "(push_bit n a :: u64) OR b = push_bit n a + b"
proof -
  have "push_bit n a AND b = 0"
  proof (rule bit_eqI)
    fix k
    show "bit (push_bit n a AND b) k \<longleftrightarrow> bit (0 :: u64) k"
    proof (cases "k < n")
      case False
      then have "unat b < 2 ^ k"
        using assms(1) power_increasing [of n k "2 :: nat"] by linarith
      then have "\<not> bit (unat b) k"
        by (simp add: bit_iff_odd)
      then show ?thesis
        by (simp add: bit_simps)
    qed (simp add: bit_simps)
  qed
  then show ?thesis
    by (simp add: disjunctive_add_eq_or)
qed

lemma make_token_unat:
  assumes "i < 256"
  shows "unat (make_token g i) = unat g * 256 + i"
proof -
  have u: "unat (of_nat i :: u64) = i"
    using assms by (intro unat_of_nat_u64) simp
  have g: "unat g * 256 + 256 \<le> 2 ^ 40"
    using unat_u32_less [of g] by simp
  have "unat g < 2 ^ 64"
    using unat_u32_less [of g] by simp
  then have ug: "unat (ucast g :: u64) = unat g"
    by (simp add: unsigned_ucast_eq take_bit_nat_eq_self)
  have "unat (ucast g :: u64) * 2 ^ 8 < 2 ^ 64"
    unfolding ug using g by simp
  then have p: "unat (push_bit 8 (ucast g :: u64)) = unat g * 256"
    by (simp add: unat_push_bit_u64 ug)
  have "make_token g i = push_bit 8 (ucast g) + of_nat i"
    unfolding make_token_def using assms by (intro or_disjoint_u64) (simp_all only: u, simp_all)
  moreover have "unat (push_bit 8 (ucast g :: u64)) + unat (of_nat i :: u64) < 2 ^ 64"
    unfolding p u using g assms by simp
  ultimately show ?thesis
    unfolding p [symmetric] by (simp only: unat_add_u64 u)
qed

lemma Index_unat: "Index t = unat t mod 256"
proof -
  have "(255 :: u64) = mask 8"
    by (simp add: mask_eq_exp_minus_1)
  then have "t AND 255 = take_bit 8 t"
    by (simp only: take_bit_eq_mask)
  then show ?thesis
    using unsigned_take_bit_eq [where ?'a = nat and n = 8 and w = t]
    by (simp add: Index_def take_bit_eq_mod)
qed

lemma Index_less [simp]: "Index t < 256"
  by (simp add: Index_unat)

lemma Index_make_token [simp]: "i < 256 \<Longrightarrow> Index (make_token g i) = i"
  by (simp add: Index_unat make_token_unat)

lemma make_token_inj: "i < 256 \<Longrightarrow> j < 256 \<Longrightarrow> make_token g i = make_token g' j \<longleftrightarrow> g = g' \<and> i = j"
proof
  assume ij: "i < 256" "j < 256" and eq: "make_token g i = make_token g' j"
  then have "unat g * 256 + i = unat g' * 256 + j"
    using make_token_unat by metis
  then have "(unat g * 256 + i) div 256 = (unat g' * 256 + j) div 256"
    "(unat g * 256 + i) mod 256 = (unat g' * 256 + j) mod 256"
    by simp_all
  then have "unat g = unat g' \<and> i = j"
    using ij by simp
  then show "g = g' \<and> i = j"
    by (simp add: word_unat_eq_iff)
qed auto

text \<open>A token the state words can hold without losing its top bits.\<close>

definition valid_token :: "u64 \<Rightarrow> bool" where
  "valid_token t \<longleftrightarrow> unat t < 2 ^ 62"

lemma valid_make_token [simp]:
  assumes "i < 256"
  shows "valid_token (make_token g i)"
  using unat_u32_less [of g] assms by (simp add: valid_token_def make_token_unat)

lemma make_token_nonzero [simp]: "i < 256 \<Longrightarrow> g \<noteq> 0 \<Longrightarrow> make_token g i \<noteq> 0"
  using make_token_unat [of i g] by (auto simp: unat_eq_0)

lemma Pending_unat: "valid_token t \<Longrightarrow> unat (Pending t) = 4 * unat t"
  unfolding Pending_def valid_token_def by (subst unat_push_bit_u64) simp_all

lemma Done_unat:
  assumes "valid_token t"
  shows "unat (Done t ok) = 4 * unat t + (if ok then 1 else 2)"
proof -
  have "Done t ok = Pending t + (if ok then 1 else 2)"
    unfolding Done_def Pending_def by (rule or_disjoint_u64) auto
  moreover have "unat (Pending t) + 2 < 2 ^ 64"
    using Pending_unat [OF assms] assms by (simp add: valid_token_def)
  then have "unat (Pending t + x) = unat (Pending t) + unat x" if "unat x \<le> 2" for x
    using that by (intro unat_add_u64) linarith
  from this [of 1] this [of 2] have "unat (Pending t + 1) = unat (Pending t) + 1"
    "unat (Pending t + 2) = unat (Pending t) + 2"
    by simp_all
  ultimately show ?thesis
    unfolding Pending_unat [OF assms] by (cases ok) (simp_all only: if_True if_False)
qed

lemma state_word_token [simp]:
  assumes "valid_token t"
  shows "drop_bit 2 (Pending t) = t" and "drop_bit 2 (Done t ok) = t"
  by (rule unat_eqI, simp only: unat_drop_bit_u64 Pending_unat [OF assms] Done_unat [OF assms], simp)+

lemma state_word_mod:
  assumes "valid_token t"
  shows "unat (Pending t) mod 4 = 0" and "unat (Done t True) mod 4 = 1" and "unat (Done t False) mod 4 = 2"
proof -
  have "(4 * n + 1) mod 4 = 1" "(4 * n + 2) mod 4 = 2" for n :: nat
    by presburger+
  then show "unat (Pending t) mod 4 = 0" "unat (Done t True) mod 4 = 1" "unat (Done t False) mod 4 = 2"
    by (simp_all only: Pending_unat [OF assms] Done_unat [OF assms] if_True if_False mod_mult_self1_is_0)
qed

lemma state_word_kinds [simp]:
  assumes "valid_token t" and "valid_token t'"
  shows "Pending t \<noteq> Done t' ok" and "Done t' ok \<noteq> Pending t"
    and "Done t True \<noteq> Done t' False" and "Done t False \<noteq> Done t' True"
    and "Pending t = Pending t' \<longleftrightarrow> t = t'" and "Done t ok = Done t' ok \<longleftrightarrow> t = t'"
proof -
  note mods = state_word_mod [OF assms(1)] state_word_mod [OF assms(2)]
  show "Pending t \<noteq> Done t' ok" "Done t' ok \<noteq> Pending t"
    using mods by (cases ok; metis zero_neq_one zero_neq_numeral)+
  show "Done t True \<noteq> Done t' False" "Done t False \<noteq> Done t' True"
    using mods by (metis numeral_One numeral_eq_iff semiring_norm(85))+
  show "Pending t = Pending t' \<longleftrightarrow> t = t'" "Done t ok = Done t' ok \<longleftrightarrow> t = t'"
    by (auto dest: arg_cong [where f = "drop_bit 2"] simp: assms)
qed

lemma state_word_zero [simp]:
  assumes "valid_token t"
  shows "Pending t = 0 \<longleftrightarrow> t = 0" and "Done t ok \<noteq> 0" and "0 \<noteq> Done t ok"
proof -
  have "unat (Done t ok) \<noteq> unat (0 :: u64)"
    unfolding Done_unat [OF assms] by simp
  then show "Done t ok \<noteq> 0" "0 \<noteq> Done t ok"
    by auto
  show "Pending t = 0 \<longleftrightarrow> t = 0"
    using Pending_unat [OF assms] by (metis mult_eq_0_iff unat_eq_0 zero_neq_numeral)
qed

lemma next_generation_nonzero [simp]: "next_generation g \<noteq> 0"
  by (simp add: next_generation_def Let_def)

section \<open>The invariant\<close>

abbreviation free_list :: "event_pool \<Rightarrow> nat list" where
  "free_list p \<equiv> take (freeCount p) (freeSlots p)"

text \<open>The token that a busy slot holds.\<close>

definition slot_token :: "event_pool \<Rightarrow> nat \<Rightarrow> u64" where
  "slot_token p i = make_token (generations p ! i) i"

definition pool_inv :: "event_pool \<Rightarrow> bool" where
  "pool_inv p \<longleftrightarrow>
     length (states p) = 256 \<and> length (generations p) = 256 \<and> length (freeSlots p) = 256 \<and>
     freeCount p \<le> 256 \<and> distinct (free_list p) \<and>
     set (free_list p) = {i. i < 256 \<and> states p ! i = 0} \<and>
     (\<forall>i < 256. states p ! i \<noteq> 0 \<longrightarrow>
        generations p ! i \<noteq> 0 \<and>
        states p ! i \<in> {Pending (slot_token p i), Done (slot_token p i) True, Done (slot_token p i) False})"

lemma pool_invD:
  assumes "pool_inv p"
  shows "length (states p) = 256" and "length (generations p) = 256" and "length (freeSlots p) = 256"
    and "freeCount p \<le> 256" and "distinct (free_list p)"
    and "set (free_list p) = {i. i < 256 \<and> states p ! i = 0}"
    and "\<And>i. i < 256 \<Longrightarrow> states p ! i \<noteq> 0 \<Longrightarrow> generations p ! i \<noteq> 0"
    and "\<And>i. i < 256 \<Longrightarrow> states p ! i \<noteq> 0 \<Longrightarrow>
           states p ! i \<in> {Pending (slot_token p i), Done (slot_token p i) True, Done (slot_token p i) False}"
  using assms by (auto simp: pool_inv_def)

lemma pool_inv_init: "pool_inv EventSlotPool_init"
proof -
  have "set (map (\<lambda>i. 255 - i) [0..<256]) = {i. i < (256 :: nat)}"
  proof -
    have "x \<in> (\<lambda>i. 255 - i) ` {..<256}" if "x < 256" for x :: nat
      using that by (intro image_eqI [of _ _ "255 - x"]) auto
    then show ?thesis
      by (auto simp: atLeast0LessThan)
  qed
  moreover have "distinct (map (\<lambda>i. 255 - i) [0..<(256 :: nat)])"
    by (auto simp: distinct_map inj_on_def)
  ultimately show ?thesis
    by (auto simp: pool_inv_def EventSlotPool_init_def)
qed

text \<open>A slot given back keeps the invariant; the caller has cleared its state word.\<close>

lemma pool_inv_free:
  assumes inv: "pool_inv p" and i: "i < 256" "states p ! i \<noteq> 0"
  shows "pool_inv (Release i (p\<lparr>states := (states p)[i := 0]\<rparr>))"
proof -
  note I = pool_invD [OF inv]
  have notin: "i \<notin> set (free_list p)"
    using I(6) i by simp
  have "set (free_list p) \<subseteq> {..<256} - {i}"
    using I(6) notin by auto
  then have "card (set (free_list p)) \<le> card ({..<256} - {i})"
    by (intro card_mono) auto
  then have fc: "freeCount p < 256"
    using i distinct_card [OF I(5)] I(3,4) by simp
  let ?q = "Release i (p\<lparr>states := (states p)[i := 0]\<rparr>)"
  have fl: "free_list ?q = free_list p @ [i]"
    using fc I(3) by (simp add: Release_def take_Suc_conv_app_nth)
  have "set (free_list ?q) = {j. j < 256 \<and> states ?q ! j = 0}"
    unfolding fl using I(1,6) i by (auto simp: Release_def nth_list_update)
  moreover have "distinct (free_list ?q)"
    unfolding fl using I(5) notin by simp
  moreover have "slot_token ?q = slot_token p"
    by (simp add: slot_token_def Release_def fun_eq_iff)
  ultimately show ?thesis
    using I fc i unfolding pool_inv_def
    by (auto simp: Release_def nth_list_update split: if_splits)
qed

section \<open>What a token stands for\<close>

datatype slot_view = Gone | Waiting | Finished bool

definition slot_view :: "event_pool \<Rightarrow> u64 \<Rightarrow> slot_view" where
  "slot_view p t =
     (let w = states p ! Index t
      in if t = 0 then Gone else if w = Pending t then Waiting
         else if w = Done t True then Finished True
         else if w = Done t False then Finished False else Gone)"

text \<open>Under the invariant the state word of a slot is 0 or belongs to its current token.\<close>

lemma slot_cases:
  assumes inv: "pool_inv p" and i: "i < 256"
  obtains (free) "states p ! i = 0"
  | (pending) "states p ! i = Pending (slot_token p i)" "slot_token p i \<noteq> 0"
  | (finished) ok where "states p ! i = Done (slot_token p i) ok" "slot_token p i \<noteq> 0"
proof (cases "states p ! i = 0")
  case False
  then have "slot_token p i \<noteq> 0"
    using pool_invD(7) [OF inv i] i by (simp add: slot_token_def)
  then show ?thesis
    using pool_invD(8) [OF inv i False] pending finished by blast
qed (rule free)

lemma valid_slot_token [simp]: "i < 256 \<Longrightarrow> valid_token (slot_token p i)"
  by (simp add: slot_token_def)

lemma Index_slot_token [simp]: "i < 256 \<Longrightarrow> Index (slot_token p i) = i"
  by (simp add: slot_token_def)

lemma slot_view_live:
  assumes inv: "pool_inv p" and t: "valid_token t"
  shows "slot_view p t \<noteq> Gone \<longleftrightarrow> t = slot_token p (Index t) \<and> states p ! Index t \<noteq> 0"
proof (cases rule: slot_cases [OF inv Index_less [of t], case_names free pending finished])
  case free
  then show ?thesis
    using t by (auto simp: slot_view_def Let_def dest: sym)
next
  case pending
  then show ?thesis
    using t by (auto simp: slot_view_def Let_def)
next
  case (finished ok)
  then show ?thesis
    using t by (cases ok) (auto simp: slot_view_def Let_def)
qed

lemma slot_view_other:
  assumes inv: "pool_inv p" and "valid_token t" "valid_token t'" "t' \<noteq> t"
    and "slot_view p t \<noteq> Gone" and "Index t' = Index t"
  shows "slot_view p t' = Gone"
  using assms slot_view_live by metis

lemma slot_view_zero [simp]: "slot_view p 0 = Gone"
  by (simp add: slot_view_def)

lemma slot_view_Waiting:
  "slot_view p t = Waiting \<longleftrightarrow> t \<noteq> 0 \<and> states p ! Index t = Pending t"
  by (simp add: slot_view_def Let_def)

lemma slot_view_Finished:
  assumes "valid_token t"
  shows "slot_view p t = Finished ok \<longleftrightarrow> t \<noteq> 0 \<and> states p ! Index t = Done t ok"
  using assms by (cases ok) (auto simp: slot_view_def Let_def)

subsection \<open>Complete\<close>

lemma Complete_view:
  assumes inv: "pool_inv p" and t: "valid_token t" "valid_token t'"
  shows "slot_view (Complete t ok p) t' =
           (if t' = t \<and> slot_view p t = Waiting then Finished ok else slot_view p t')"
proof (cases "slot_view p t = Waiting")
  case False
  then have "Complete t ok p = p"
    by (auto simp: Complete_def slot_view_Waiting Let_def)
  with False show ?thesis by simp
next
  case True
  then have w: "t \<noteq> 0" "states p ! Index t = Pending t"
    by (simp_all add: slot_view_Waiting)
  then have eq: "Complete t ok p = p\<lparr>states := (states p)[Index t := Done t ok]\<rparr>"
    by (simp add: Complete_def Let_def)
  show ?thesis
  proof (cases "Index t' = Index t")
    case same: True
    have "slot_view p t' = Gone" if "t' \<noteq> t"
      using slot_view_other [OF inv t that] True same by simp
    moreover have "states (Complete t ok p) ! Index t' = Done t ok"
      using pool_invD(1) [OF inv] same by (simp add: eq)
    ultimately show ?thesis
      using True w t by (cases ok) (auto simp: slot_view_def [of "Complete t _ p"] Let_def)
  next
    case False
    then show ?thesis
      by (auto simp: eq slot_view_def Let_def)
  qed
qed

lemma Complete_inv:
  assumes inv: "pool_inv p" and t: "valid_token t"
  shows "pool_inv (Complete t ok p)"
proof (cases "slot_view p t = Waiting")
  case False
  then have "Complete t ok p = p"
    by (auto simp: Complete_def slot_view_Waiting Let_def)
  with inv show ?thesis by simp
next
  case True
  have "slot_view p t \<noteq> Gone"
    using True by simp
  then have w: "t \<noteq> 0" "states p ! Index t = Pending t" "t = slot_token p (Index t)"
    using slot_view_live [OF inv t] True by (auto simp: slot_view_Waiting)
  then have eq: "Complete t ok p = p\<lparr>states := (states p)[Index t := Done t ok]\<rparr>"
    by (simp add: Complete_def Let_def)
  have tok: "slot_token (Complete t ok p) = slot_token p"
    by (simp add: slot_token_def eq fun_eq_iff)
  have "states p ! Index t \<noteq> 0"
    using w t by simp
  note I = pool_invD [OF inv] and g = pool_invD(7) [OF inv Index_less this]
  have "{i. i < 256 \<and> states (Complete t ok p) ! i = 0} = {i. i < 256 \<and> states p ! i = 0}"
    using w t I(1) by (auto simp: eq nth_list_update)
  moreover have "states (Complete t ok p) ! i \<in>
      {Pending (slot_token p i), Done (slot_token p i) True, Done (slot_token p i) False}"
    if "i < 256" "states (Complete t ok p) ! i \<noteq> 0" for i
  proof (cases "i = Index t")
    case True
    then have "states (Complete t ok p) ! i = Done (slot_token p i) ok"
      using I(1) w(3) by (simp add: eq)
    then show ?thesis
      by (cases ok) simp_all
  next
    case False
    then have "states (Complete t ok p) ! i = states p ! i"
      by (simp add: eq)
    then show ?thesis
      using that I(8) [OF that(1)] by simp
  qed
  moreover have "generations p ! i \<noteq> 0" if "i < 256" "states (Complete t ok p) ! i \<noteq> 0" for i
    using that I(7) [OF that(1)] g I(1) by (auto simp: eq nth_list_update split: if_splits)
  ultimately show ?thesis
    using I unfolding pool_inv_def tok by (simp add: eq)
qed

subsection \<open>Probe and Abort\<close>

definition free_slot :: "nat \<Rightarrow> event_pool \<Rightarrow> event_pool" where
  "free_slot i p = Release i (p\<lparr>states := (states p)[i := 0]\<rparr>)"

lemma Probe_cases:
  assumes "valid_token t"
  shows "Probe t p = (case slot_view p t of
           Finished ok \<Rightarrow> (if ok then 1 else - 1, free_slot (Index t) p) | _ \<Rightarrow> (0, p))"
  using assms by (auto simp: Probe_def slot_view_def Let_def free_slot_def)

lemma Abort_loop_eq:
  "Abort_loop n t i p =
     (if drop_bit 2 (states p ! i) = t then (True, free_slot i p) else (False, p))"
  by (induction n) (auto simp: free_slot_def)

lemma Abort_cases:
  assumes inv: "pool_inv p" and t: "valid_token t"
  shows "Abort n t p = (if slot_view p t = Gone then (False, p) else (True, free_slot (Index t) p))"
proof -
  have "drop_bit 2 (states p ! Index t) = t \<longleftrightarrow> slot_view p t \<noteq> Gone" if "t \<noteq> 0"
    unfolding slot_view_live [OF inv t]
    by (cases rule: slot_cases [OF inv Index_less [of t]]) (use that in auto)
  then show ?thesis
    by (auto simp: Abort_def Abort_loop_eq)
qed

lemma free_slot_view:
  assumes inv: "pool_inv p" and t: "valid_token t" "valid_token t'" and live: "slot_view p t \<noteq> Gone"
  shows "slot_view (free_slot (Index t) p) t' = (if t' = t then Gone else slot_view p t')"
proof (cases "Index t' = Index t")
  case True
  have "slot_view p t' = Gone" if "t' \<noteq> t"
    using slot_view_other [OF inv t that live] True by simp
  moreover have "states (free_slot (Index t) p) ! Index t' = 0"
    using pool_invD(1) [OF inv] True by (simp add: free_slot_def Release_def)
  ultimately show ?thesis
    using t by (auto simp: slot_view_def [of "free_slot _ p"] Let_def dest: sym)
next
  case False
  then show ?thesis
    by (auto simp: free_slot_def Release_def slot_view_def Let_def)
qed

lemma free_slot_inv:
  assumes "pool_inv p" and "valid_token t" and "slot_view p t \<noteq> Gone"
  shows "pool_inv (free_slot (Index t) p)"
  unfolding free_slot_def using assms slot_view_live by (intro pool_inv_free) auto

lemma free_slot_count [simp]: "freeCount (free_slot i p) = freeCount p + 1"
  by (simp add: free_slot_def Release_def)

subsection \<open>Acquire\<close>

lemma Acquire_empty: "freeCount p = 0 \<Longrightarrow> Acquire p = (False, 0, p)"
  by (simp add: Acquire_def)

lemma Acquire_success:
  assumes inv: "pool_inv p" and fc: "0 < freeCount p"
  defines "i \<equiv> freeSlots p ! (freeCount p - 1)"
  defines "t \<equiv> make_token (next_generation (generations p ! i)) i"
  shows "i < 256" and "states p ! i = 0"
    and "Acquire p = (True, t, p\<lparr>freeCount := freeCount p - 1,
           generations := (generations p)[i := next_generation (generations p ! i)],
           states := (states p)[i := Pending t]\<rparr>)"
proof -
  note I = pool_invD [OF inv]
  have "i \<in> set (free_list p)"
    using fc I(3,4) by (auto simp: in_set_conv_nth i_def intro!: exI [of _ "freeCount p - 1"])
  then show "i < 256" and "states p ! i = 0"
    using I(6) by auto
  then show "Acquire p = (True, t, p\<lparr>freeCount := freeCount p - 1,
           generations := (generations p)[i := next_generation (generations p ! i)],
           states := (states p)[i := Pending t]\<rparr>)"
    using fc by (simp add: Acquire_def Let_def t_def i_def)
qed

lemma Acquire_inv:
  assumes inv: "pool_inv p" and acq: "Acquire p = (True, t, q)"
  shows "pool_inv q" and "freeCount p = freeCount q + 1"
proof -
  have fc: "0 < freeCount p"
    using acq Acquire_empty [of p] by (cases "freeCount p") auto
  define i where "i = freeSlots p ! (freeCount p - 1)"
  define g where "g = next_generation (generations p ! i)"
  note A = Acquire_success [OF inv fc, folded i_def, folded g_def]
  note I = pool_invD [OF inv]
  have t: "t = make_token g i" and q: "freeCount q = freeCount p - 1" "freeSlots q = freeSlots p"
    "generations q = (generations p)[i := g]" "states q = (states p)[i := Pending t]"
    using A(3) acq by auto
  show "freeCount p = freeCount q + 1"
    using fc by (simp add: q)
  have g0: "g \<noteq> 0"
    by (simp add: g_def)
  have fl: "free_list p = free_list q @ [i]"
    using fc I(3,4) take_Suc_conv_app_nth [of "freeCount p - 1" "freeSlots p"] by (simp add: q i_def)
  have dist: "distinct (free_list q)" "i \<notin> set (free_list q)"
    using I(5) unfolding fl by auto
  have Pt: "Pending t \<noteq> 0"
    using A(1) g0 by (simp add: t)
  have tok: "slot_token q j = (if j = i then t else slot_token p j)" if "j < 256" for j
    using I(2) that by (auto simp: slot_token_def q t)
  have st: "states q ! j = (if j = i then Pending t else states p ! j)" if "j < 256" for j
    using I(1) that by (simp add: q)
  have gen: "generations q ! j = (if j = i then g else generations p ! j)" if "j < 256" for j
    using I(2) that by (simp add: q)
  have "set (free_list q) = set (free_list p) - {i}"
    using dist(2) unfolding fl by auto
  moreover have "{j. j < 256 \<and> states q ! j = 0} = {j. j < 256 \<and> states p ! j = 0} - {i}"
    using Pt by (auto simp: st split: if_splits)
  ultimately have "set (free_list q) = {j. j < 256 \<and> states q ! j = 0}"
    by (simp only: I(6))
  moreover have "generations q ! j \<noteq> 0 \<and> states q ! j \<in>
      {Pending (slot_token q j), Done (slot_token q j) True, Done (slot_token q j) False}"
    if j: "j < 256" "states q ! j \<noteq> 0" for j
  proof (cases "j = i")
    case True
    then show ?thesis
      using g0 j by (simp add: st gen tok)
  next
    case False
    then show ?thesis
      using I(7,8) [OF j(1)] j by (simp add: st gen tok)
  qed
  ultimately show "pool_inv q"
    using I(1-4) dist(1) fc unfolding pool_inv_def by (simp add: q(1-3)) (simp add: q(4))
qed

lemma Acquire_token:
  assumes inv: "pool_inv p" and acq: "Acquire p = (True, t, q)"
  shows "t \<noteq> 0" and "valid_token t" and "slot_view p t = Gone"
    and "valid_token t' \<Longrightarrow> slot_view q t' = (if t' = t then Waiting else slot_view p t')"
proof -
  have fc: "0 < freeCount p"
    using acq Acquire_empty [of p] by (cases "freeCount p") auto
  define i where "i = freeSlots p ! (freeCount p - 1)"
  note A = Acquire_success [OF inv fc, folded i_def]
  have t: "t = make_token (next_generation (generations p ! i)) i" and st: "states q = (states p)[i := Pending t]"
    using A(3) acq by auto
  show nz: "t \<noteq> 0" and valid: "valid_token t"
    using A(1) by (simp_all add: t)
  have idx: "Index t = i"
    using A(1) by (simp add: t)
  have gone: "slot_view p u = Gone" if "Index u = i" "valid_token u" for u
    using slot_view_live [OF inv that(2)] that(1) A(2) by auto
  then show "slot_view p t = Gone"
    using idx valid by simp
  show "slot_view q t' = (if t' = t then Waiting else slot_view p t')" if v: "valid_token t'"
  proof (cases "Index t' = i")
    case True
    then have "states q ! Index t' = Pending t"
      using st A(1) pool_invD(1) [OF inv] by simp
    then show ?thesis
      using gone [OF True v] nz valid v by (auto simp: slot_view_def [of q] Let_def)
  next
    case False
    then show ?thesis
      using idx by (auto simp: slot_view_def st Let_def)
  qed
qed

lemma Acquire_flag:
  assumes "pool_inv p"
  shows "fst (Acquire p) \<longleftrightarrow> 0 < freeCount p"
    and "\<not> fst (Acquire p) \<Longrightarrow> Acquire p = (False, 0, p)"
  using Acquire_success(3) [OF assms] Acquire_empty [of p] by (cases "freeCount p = 0"; simp)+

section \<open>The contract of the completion slots\<close>

datatype pool_op = OpAcquire | OpComplete u64 bool | OpProbe u64 | OpAbort nat u64

datatype pool_out = OutToken u64 | OutProbe int | OutAbort bool | OutNone

fun op_token :: "pool_op \<Rightarrow> u64" where
  "op_token OpAcquire = 0"
| "op_token (OpComplete t ok) = t"
| "op_token (OpProbe t) = t"
| "op_token (OpAbort n t) = t"

fun slot_step ::
  "('s \<Rightarrow> bool \<times> u64 \<times> 's) \<Rightarrow> (u64 \<Rightarrow> bool \<Rightarrow> 's \<Rightarrow> 's) \<Rightarrow> (u64 \<Rightarrow> 's \<Rightarrow> int \<times> 's) \<Rightarrow>
   (nat \<Rightarrow> u64 \<Rightarrow> 's \<Rightarrow> bool \<times> 's) \<Rightarrow> pool_op \<Rightarrow> 's \<Rightarrow> pool_out \<times> 's" where
  "slot_step acq cmp prb abt OpAcquire s = (case acq s of (ok, t, s') \<Rightarrow> (OutToken t, s'))"
| "slot_step acq cmp prb abt (OpComplete t ok) s = (OutNone, cmp t ok s)"
| "slot_step acq cmp prb abt (OpProbe t) s = (case prb t s of (r, s') \<Rightarrow> (OutProbe r, s'))"
| "slot_step acq cmp prb abt (OpAbort n t) s = (case abt n t s of (b, s') \<Rightarrow> (OutAbort b, s'))"

text \<open>A history: the operations in the order they take effect, with what each returned.\<close>

fun run_steps :: "('op \<Rightarrow> 's \<Rightarrow> 'out \<times> 's) \<Rightarrow> 'op list \<Rightarrow> 's \<Rightarrow> 'out list \<times> 's" where
  "run_steps step [] s = ([], s)"
| "run_steps step (x # xs) s =
     (case step x s of (out, s1) \<Rightarrow> (case run_steps step xs s1 of (outs, s2) \<Rightarrow> (out # outs, s2)))"

text \<open>The results that probing a token delivered, and the first completion of a token.\<close>

fun delivered :: "u64 \<Rightarrow> pool_op list \<Rightarrow> pool_out list \<Rightarrow> int list" where
  "delivered t (OpProbe t' # ops) (OutProbe r # outs) =
     (if t' = t \<and> r \<noteq> 0 then r # delivered t ops outs else delivered t ops outs)"
| "delivered t (x # ops) (out # outs) = delivered t ops outs"
| "delivered t ops outs = []"

fun first_completion :: "u64 \<Rightarrow> pool_op list \<Rightarrow> bool option" where
  "first_completion t [] = None"
| "first_completion t (OpComplete t' ok # ops) = (if t' = t then Some ok else first_completion t ops)"
| "first_completion t (x # ops) = first_completion t ops"

definition probe_code :: "slot_view \<Rightarrow> int" where
  "probe_code v = (case v of Finished ok \<Rightarrow> if ok then 1 else - 1 | _ \<Rightarrow> 0)"

fun consumes :: "u64 \<Rightarrow> pool_op \<Rightarrow> bool" where
  "consumes t (OpProbe t') = (t' = t)"
| "consumes t (OpAbort n t') = (t' = t)"
| "consumes t x = False"

fun status_after :: "slot_view \<Rightarrow> bool option \<Rightarrow> slot_view" where
  "status_after Waiting (Some ok) = Finished ok"
| "status_after v fc = v"

text \<open>What may be delivered for a token, from its status now and its first completion to come:
  nothing, or once the status of that completion.\<close>

fun delivery_ok :: "slot_view \<Rightarrow> bool option \<Rightarrow> int list \<Rightarrow> bool" where
  "delivery_ok Gone fc rs = (rs = [])"
| "delivery_ok (Finished ok) fc rs = (rs = [] \<or> rs = [probe_code (Finished ok)])"
| "delivery_ok Waiting None rs = (rs = [])"
| "delivery_ok Waiting (Some ok) rs = (rs = [] \<or> rs = [probe_code (Finished ok)])"

lemma delivery_ok_Nil [simp]: "delivery_ok v fc []"
  by (cases v; cases fc) simp_all

locale completion_slots =
  fixes inv :: "'s \<Rightarrow> bool" and view :: "'s \<Rightarrow> u64 \<Rightarrow> slot_view" and tok :: "u64 \<Rightarrow> bool"
    and acq :: "'s \<Rightarrow> bool \<times> u64 \<times> 's" and cmp :: "u64 \<Rightarrow> bool \<Rightarrow> 's \<Rightarrow> 's"
    and prb :: "u64 \<Rightarrow> 's \<Rightarrow> int \<times> 's" and abt :: "nat \<Rightarrow> u64 \<Rightarrow> 's \<Rightarrow> bool \<times> 's"
  assumes acq_ok: "inv s \<Longrightarrow> acq s = (True, t, s') \<Longrightarrow>
      inv s' \<and> t \<noteq> 0 \<and> tok t \<and> view s t = Gone \<and>
      (\<forall>t'. tok t' \<longrightarrow> view s' t' = (if t' = t then Waiting else view s t'))"
    and acq_fail: "inv s \<Longrightarrow> acq s = (False, t, s') \<Longrightarrow> t = 0 \<and> s' = s"
    and cmp_law: "inv s \<Longrightarrow> tok t \<Longrightarrow>
      inv (cmp t ok s) \<and>
      (\<forall>t'. tok t' \<longrightarrow> view (cmp t ok s) t' =
         (if t' = t \<and> view s t = Waiting then Finished ok else view s t'))"
    and prb_law: "inv s \<Longrightarrow> tok t \<Longrightarrow> prb t s = (r, s') \<Longrightarrow>
      inv s' \<and> r = probe_code (view s t) \<and>
      (\<forall>t'. tok t' \<longrightarrow> view s' t' = (if t' = t \<and> r \<noteq> 0 then Gone else view s t'))"
    and abt_law: "inv s \<Longrightarrow> tok t \<Longrightarrow> abt n t s = (b, s') \<Longrightarrow>
      inv s' \<and> b = (view s t \<noteq> Gone) \<and>
      (\<forall>t'. tok t' \<longrightarrow> view s' t' = (if t' = t then Gone else view s t'))"
begin

lemma step_inv:
  assumes "inv s" and "tok (op_token x)" and "slot_step acq cmp prb abt x s = (out, s')"
  shows "inv s'"
  using assms
proof (cases x)
  case OpAcquire
  obtain ok t s1 where a: "acq s = (ok, t, s1)"
    by (cases "acq s") auto
  then show ?thesis
    using OpAcquire assms acq_ok [of s t s1] acq_fail [of s t s1] by (cases ok) auto
next
  case (OpComplete t ok)
  then show ?thesis
    using assms cmp_law by auto
next
  case (OpProbe t)
  then show ?thesis
    using assms prb_law by (auto split: prod.splits)
next
  case (OpAbort n t)
  then show ?thesis
    using assms abt_law by (auto split: prod.splits)
qed

lemma run_inv:
  assumes "inv s" and "\<forall>x \<in> set ops. tok (op_token x)"
    and "run_steps (slot_step acq cmp prb abt) ops s = (outs, s')"
  shows "inv s'"
  using assms
proof (induction ops arbitrary: s outs)
  case (Cons x ops)
  then show ?case
    using step_inv [of s x] by (auto split: prod.splits)
qed simp

lemma delivered_once:
  assumes "inv s" and "tok t" and "\<forall>x \<in> set ops. tok (op_token x)"
    and "run_steps (slot_step acq cmp prb abt) ops s = (outs, s')" and "OutToken t \<notin> set outs"
  shows "delivery_ok (view s t) (first_completion t ops) (delivered t ops outs)"
  using assms
proof (induction ops arbitrary: s outs)
  case (Cons x ops)
  obtain out s1 where step: "slot_step acq cmp prb abt x s = (out, s1)"
    by (cases "slot_step acq cmp prb abt x s")
  obtain os s2 where run: "run_steps (slot_step acq cmp prb abt) ops s1 = (os, s2)"
    by (cases "run_steps (slot_step acq cmp prb abt) ops s1")
  have outs: "outs = out # os" and last: "s2 = s'" and fresh: "OutToken t \<notin> set os" "out \<noteq> OutToken t"
    using Cons.prems step run by auto
  have toks: "tok (op_token x)" "\<forall>x \<in> set ops. tok (op_token x)"
    using Cons.prems(3) by auto
  note inv0 = Cons.prems(1) and tt = Cons.prems(2)
  have inv1: "inv s1"
    using step_inv [OF inv0 toks(1) step] .
  have IH: "delivery_ok (view s1 t) (first_completion t ops) (delivered t ops os)"
    using Cons.IH [OF inv1 tt toks(2) run [unfolded last] fresh(1)] .
  show ?case
  proof (cases x)
    case OpAcquire
    obtain ok t' where a: "acq s = (ok, t', s1)" "out = OutToken t'"
      using step OpAcquire by (auto split: prod.splits)
    then have "view s1 t = view s t"
      using acq_ok [of s t' s1] acq_fail [of s t' s1] inv0 tt fresh by (cases ok) auto
    then show ?thesis
      using IH OpAcquire by (simp add: outs)
  next
    case (OpComplete t' ok)
    then have "view s1 t = (if t = t' \<and> view s t' = Waiting then Finished ok else view s t)" "out = OutNone"
      using step cmp_law [of s t' ok] inv0 tt toks by auto
    then show ?thesis
      using IH OpComplete by (cases "t' = t"; cases "view s t") (simp_all add: outs)
  next
    case (OpProbe t')
    then obtain r where r: "prb t' s = (r, s1)" "out = OutProbe r"
      using step by (auto split: prod.splits)
    then have "r = probe_code (view s t')" "view s1 t = (if t = t' \<and> r \<noteq> 0 then Gone else view s t)"
      using prb_law [of s t' r s1] inv0 tt toks OpProbe by auto
    then show ?thesis
      using IH OpProbe r
      by (cases "t' = t"; cases "view s t") (simp_all add: outs probe_code_def split: if_splits)
  next
    case (OpAbort n t')
    then obtain b where b: "abt n t' s = (b, s1)" "out = OutAbort b"
      using step by (auto split: prod.splits)
    then have "view s1 t = (if t = t' then Gone else view s t)"
      using abt_law [of s t' n b s1] inv0 tt toks OpAbort by auto
    then show ?thesis
      using IH OpAbort b by (cases "t' = t") (simp_all add: outs)
  qed
qed simp

text \<open>While nobody probes or aborts a token, its first completion is kept.\<close>

lemma completion_kept:
  assumes "inv s" and "tok t" and "\<forall>x \<in> set ops. tok (op_token x) \<and> \<not> consumes t x"
    and "run_steps (slot_step acq cmp prb abt) ops s = (outs, s')" and "OutToken t \<notin> set outs"
    and "view s t = Waiting" and "first_completion t ops = Some ok"
  shows "view s' t = Finished ok"
proof -
  have kept: "view s' t = status_after (view s t) (first_completion t ops)"
    using assms(1-5)
  proof (induction ops arbitrary: s outs)
    case Nil
    then show ?case by (cases "view s t") simp_all
  next
    case (Cons x ops)
    obtain out s1 where step: "slot_step acq cmp prb abt x s = (out, s1)"
      by (cases "slot_step acq cmp prb abt x s")
    obtain os s2 where run: "run_steps (slot_step acq cmp prb abt) ops s1 = (os, s2)"
      by (cases "run_steps (slot_step acq cmp prb abt) ops s1")
    have last: "s2 = s'" and fresh: "OutToken t \<notin> set os" "out \<noteq> OutToken t"
      using Cons.prems step run by auto
    have toks: "tok (op_token x)" "\<not> consumes t x" "\<forall>x \<in> set ops. tok (op_token x) \<and> \<not> consumes t x"
      using Cons.prems(3) by auto
    note inv0 = Cons.prems(1) and tt = Cons.prems(2)
    have inv1: "inv s1"
      using step_inv [OF inv0 toks(1) step] .
    have IH: "view s' t = status_after (view s1 t) (first_completion t ops)"
      using Cons.IH [OF inv1 tt toks(3) run [unfolded last] fresh(1)] .
    show ?case
    proof (cases x)
      case OpAcquire
      obtain ok t' where "acq s = (ok, t', s1)" "out = OutToken t'"
        using step OpAcquire by (auto split: prod.splits)
      then have "view s1 t = view s t"
        using acq_ok [of s t' s1] acq_fail [of s t' s1] inv0 tt fresh by (cases ok) auto
      then show ?thesis
        using IH OpAcquire by simp
    next
      case (OpComplete t' ok)
      then have "view s1 t = (if t = t' \<and> view s t' = Waiting then Finished ok else view s t)"
        using step cmp_law [of s t' ok] inv0 tt toks by auto
      then show ?thesis
        using IH OpComplete by (cases "t' = t"; cases "view s t") simp_all
    next
      case (OpProbe t')
      then have "view s1 t = view s t"
        using step prb_law [of s t'] inv0 tt toks by (auto split: prod.splits)
      then show ?thesis
        using IH OpProbe by simp
    next
      case (OpAbort n t')
      then have "view s1 t = view s t"
        using step abt_law [of s t'] inv0 tt toks by (auto split: prod.splits)
      then show ?thesis
        using IH OpAbort by simp
    qed
  qed
  then show ?thesis
    using assms(6,7) by simp
qed

text \<open>A completion that arrives for a token that is gone changes nothing anybody can see.\<close>

lemma late_completion:
  assumes "inv s" and "tok t" "tok t'" and "view s t = Gone"
  shows "view (cmp t ok s) t' = view s t'"
  using cmp_law [OF assms(1,2), of ok] assms by simp

end

interpretation slots: completion_slots pool_inv slot_view valid_token Acquire Complete Probe Abort
proof
  fix s s' t assume "pool_inv s" and "Acquire s = (True, t, s')"
  then show "pool_inv s' \<and> t \<noteq> 0 \<and> valid_token t \<and> slot_view s t = Gone \<and>
      (\<forall>t'. valid_token t' \<longrightarrow> slot_view s' t' = (if t' = t then Waiting else slot_view s t'))"
    using Acquire_inv Acquire_token by blast
next
  fix s s' t assume "pool_inv s" and "Acquire s = (False, t, s')"
  then show "t = 0 \<and> s' = s"
    using Acquire_flag(2) [of s] by simp
next
  fix s t ok assume "pool_inv s" and "valid_token t"
  then show "pool_inv (Complete t ok s) \<and>
      (\<forall>t'. valid_token t' \<longrightarrow> slot_view (Complete t ok s) t' =
         (if t' = t \<and> slot_view s t = Waiting then Finished ok else slot_view s t'))"
    using Complete_inv Complete_view by blast
next
  fix s s' t r assume "pool_inv s" "valid_token t" "Probe t s = (r, s')"
  then show "pool_inv s' \<and> r = probe_code (slot_view s t) \<and>
      (\<forall>t'. valid_token t' \<longrightarrow> slot_view s' t' = (if t' = t \<and> r \<noteq> 0 then Gone else slot_view s t'))"
    using free_slot_inv [of s t] free_slot_view [of s t]
    by (cases "slot_view s t") (auto simp: Probe_cases probe_code_def split: if_splits)
next
  fix s s' t n b assume "pool_inv s" "valid_token t" "Abort n t s = (b, s')"
  then show "pool_inv s' \<and> b = (slot_view s t \<noteq> Gone) \<and>
      (\<forall>t'. valid_token t' \<longrightarrow> slot_view s' t' = (if t' = t then Gone else slot_view s t'))"
    using free_slot_inv [of s t] free_slot_view [of s t]
    by (cases "slot_view s t") (auto simp: Abort_cases)
qed

abbreviation pool_step :: "pool_op \<Rightarrow> event_pool \<Rightarrow> pool_out \<times> event_pool" where
  "pool_step \<equiv> slot_step Acquire Complete Probe Abort"

section \<open>Generations\<close>

text \<open>The generation counter runs through the non-zero words, so it comes back after \<open>2 ^ 32 - 1\<close> steps
  and not before.\<close>

definition acquires :: "pool_op list \<Rightarrow> nat" where
  "acquires ops = length (filter (\<lambda>x. x = OpAcquire) ops)"

lemma next_generation_unat:
  assumes "g \<noteq> 0"
  shows "unat (next_generation g) = unat g mod (2 ^ 32 - 1) + 1"
proof (cases "unat g = 2 ^ 32 - 1")
  case True
  then have "unat (g + 1) = 0"
    by (simp add: unat_plus_if')
  then have "g + 1 = 0"
    by (simp only: unat_eq_zero)
  then show ?thesis
    using True by (simp add: next_generation_def)
next
  case False
  then have "unat g < 2 ^ 32 - 1"
    using unat_u32_less [of g] by simp
  moreover from this have "unat (g + 1) = unat g + 1"
    by (simp add: unat_plus_if')
  moreover from this have "g + 1 \<noteq> 0"
    by (metis add_is_0 unat_0 zero_neq_one)
  ultimately show ?thesis
    by (simp add: next_generation_def Let_def)
qed

lemma next_generation_iter_unat:
  assumes "g \<noteq> 0"
  shows "(next_generation ^^ k) g \<noteq> 0 \<and> unat ((next_generation ^^ k) g) = (unat g - 1 + k) mod (2 ^ 32 - 1) + 1"
proof (induction k)
  case 0
  have "0 < unat g" "unat g < 2 ^ 32"
    using assms unat_u32_less [of g] by (simp_all add: unat_gt_0)
  then show ?case
    using assms by simp
next
  case (Suc k)
  let ?h = "(next_generation ^^ k) g"
  have "unat (next_generation ?h) = unat ?h mod (2 ^ 32 - 1) + 1"
    using Suc by (intro next_generation_unat) simp
  also have "unat ?h mod (2 ^ 32 - 1) = (unat g - 1 + Suc k) mod (2 ^ 32 - 1)"
    using Suc by (simp add: mod_Suc_eq)
  finally show ?case
    by simp
qed

lemma next_generation_cycle:
  assumes "g \<noteq> 0" and "0 < k" and "k < 2 ^ 32 - 1"
  shows "(next_generation ^^ k) g \<noteq> g"
proof
  assume eq: "(next_generation ^^ k) g = g"
  obtain a where a: "unat g = Suc a"
    using assms(1) by (metis not0_implies_Suc unat_eq_zero)
  have "a < 2 ^ 32 - 1"
    using unat_u32_less [of g] a by simp
  then have "(a + k) mod (2 ^ 32 - 1) = a mod (2 ^ 32 - 1)"
    using next_generation_iter_unat [OF assms(1), of k] unfolding eq a by simp
  then have "(2 ^ 32 - 1) dvd a + k - a"
    by (rule mod_eq_dvd_iff_nat [THEN iffD1, rotated]) simp
  then show False
    using assms(2,3) by (auto dest: dvd_imp_le)
qed

lemma generations_kept [simp]:
  "generations (Complete t ok p) = generations p" "generations (snd (Probe t p)) = generations p"
  "generations (snd (Abort n t p)) = generations p" "generations (free_slot i p) = generations p"
  by (simp_all add: Complete_def Probe_def Abort_def Abort_loop_eq free_slot_def Release_def Let_def)

lemma step_without_token:
  assumes step: "pool_step x p = (out, q)" and "x \<noteq> OpAcquire \<or> freeCount p = 0"
  shows "generations q = generations p \<and> (\<forall>t. out = OutToken t \<longrightarrow> t = 0)"
proof (cases x)
  case OpAcquire
  then show ?thesis
    using assms Acquire_empty [of p] by auto
next
  case (OpProbe t)
  then show ?thesis
    using step generations_kept(2) [of t p] by (cases "Probe t p") auto
next
  case (OpAbort k t)
  then show ?thesis
    using step generations_kept(3) [of k t p] by (cases "Abort k t p") auto
qed (use step in auto)

text \<open>A slot whose generation is \<open>k\<close> steps past \<open>g\<close> does not issue the token of generation \<open>g\<close> again before
  the counter has gone round.\<close>

lemma token_not_reissued:
  assumes "pool_inv p" and "\<forall>x \<in> set ops. valid_token (op_token x)"
    and "run_steps pool_step ops p = (outs, q)" and "i < 256" and g: "g \<noteq> 0"
    and "generations p ! i = (next_generation ^^ k) g" and "k + acquires ops < 2 ^ 32 - 1"
  shows "OutToken (make_token g i) \<notin> set outs"
  using assms(1-4,6,7)
proof (induction ops arbitrary: p k outs)
  case (Cons x ops)
  obtain out p1 where step: "pool_step x p = (out, p1)"
    by (cases "pool_step x p")
  obtain os p2 where run: "run_steps pool_step ops p1 = (os, p2)"
    by (cases "run_steps pool_step ops p1")
  have outs: "outs = out # os" and run': "run_steps pool_step ops p1 = (os, q)"
    using Cons.prems(3) step run by auto
  have toks: "valid_token (op_token x)" "\<forall>x \<in> set ops. valid_token (op_token x)"
    using Cons.prems(2) by auto
  have inv1: "pool_inv p1"
    using slots.step_inv [OF Cons.prems(1) toks(1) step] .
  note IH = Cons.IH [OF inv1 toks(2) run' Cons.prems(4)]
  show ?case
  proof (cases "x = OpAcquire \<and> 0 < freeCount p")
    case False
    then have S: "generations p1 = generations p \<and> (\<forall>t. out = OutToken t \<longrightarrow> t = 0)"
      by (intro step_without_token [OF step]) auto
    moreover have "k + acquires ops < 2 ^ 32 - 1"
      using Cons.prems(6) by (auto simp: acquires_def split: if_splits)
    ultimately have "OutToken (make_token g i) \<notin> set os"
      using IH Cons.prems(5) by simp
    moreover have "out \<noteq> OutToken (make_token g i)"
      using S Cons.prems(4) g by auto
    ultimately show ?thesis
      by (simp add: outs)
  next
    case True
    define j where "j = freeSlots p ! (freeCount p - 1)"
    define h where "h = next_generation (generations p ! j)"
    note A = Acquire_success [OF Cons.prems(1) conjunct2 [OF True], folded j_def, folded h_def]
    have out: "out = OutToken (make_token h j)" and gens: "generations p1 = (generations p)[j := h]"
      using True step A(3) by auto
    have n: "Suc k + acquires ops < 2 ^ 32 - 1"
      using Cons.prems(6) True by (simp add: acquires_def)
    have len: "length (generations p) = 256"
      by (rule pool_invD(2) [OF Cons.prems(1)])
    show ?thesis
    proof (cases "j = i")
      case eq: True
      then have h: "h = (next_generation ^^ Suc k) g"
        using Cons.prems(5) by (simp add: h_def)
      then have "h \<noteq> g"
        using next_generation_cycle [OF g, of "Suc k"] n by simp
      moreover have "OutToken (make_token g i) \<notin> set os"
        using IH [OF _ n] gens h eq len Cons.prems(4) by simp
      ultimately show ?thesis
        using A(1) eq make_token_inj by (simp add: outs out)
    next
      case ne: False
      then have "OutToken (make_token g i) \<notin> set os"
        using IH [of k] gens n Cons.prems(5) by simp
      then show ?thesis
        using A(1) ne Cons.prems(4) make_token_inj by (simp add: outs out)
    qed
  qed
qed simp

section \<open>Capacity\<close>

definition live_tokens :: "event_pool \<Rightarrow> u64 set" where
  "live_tokens p = {t. valid_token t \<and> slot_view p t \<noteq> Gone}"

lemma live_tokens_slots:
  assumes inv: "pool_inv p"
  shows "live_tokens p = slot_token p ` {i. i < 256 \<and> states p ! i \<noteq> 0}"
proof -
  have "slot_token p i \<in> live_tokens p" if "i < 256" "states p ! i \<noteq> 0" for i
    using that slot_view_live [OF inv, of "slot_token p i"] by (simp add: live_tokens_def)
  moreover have "t \<in> slot_token p ` {i. i < 256 \<and> states p ! i \<noteq> 0}" if "t \<in> live_tokens p" for t
    using that slot_view_live [OF inv, of t] by (auto simp: live_tokens_def)
  ultimately show ?thesis
    by blast
qed

lemma live_tokens_card:
  assumes inv: "pool_inv p"
  shows "card (live_tokens p) + freeCount p = 256"
proof -
  note I = pool_invD [OF inv]
  let ?busy = "{i. i < 256 \<and> states p ! i \<noteq> 0}" and ?free = "{i. i < 256 \<and> states p ! i = 0}"
  have "inj_on (slot_token p) ?busy"
    by (rule inj_on_inverseI [of _ Index]) simp
  then have "card (live_tokens p) = card ?busy"
    by (simp add: live_tokens_slots [OF inv] card_image)
  moreover have "card ?free = freeCount p"
    using distinct_card [OF I(5)] I(3,4) by (simp add: I(6))
  moreover have "card (?busy \<union> ?free) = card ?busy + card ?free"
    by (rule card_Un_disjoint) auto
  moreover have "?busy \<union> ?free = {..<256}"
    by auto
  ultimately show ?thesis
    by simp
qed

section \<open>Properties\<close>

lemma run_init_inv:
  assumes "\<forall>x \<in> set ops. valid_token (op_token x)" and "run_steps pool_step ops EventSlotPool_init = (outs, p)"
  shows "pool_inv p"
  using slots.run_inv [OF pool_inv_init assms] .

lemma run_steps_append:
  "run_steps step (xs @ ys) s =
     (case run_steps step xs s of (o1, s1) \<Rightarrow> (case run_steps step ys s1 of (o2, s2) \<Rightarrow> (o1 @ o2, s2)))"
  by (induction xs arbitrary: s) (auto split: prod.splits)

lemma run_steps_length: "length (fst (run_steps step xs s)) = length xs"
  by (induction xs arbitrary: s) (auto split: prod.splits, metis fst_conv)

text \<open>The abstract pool: which tokens are outstanding, and with what status.\<close>

definition abs_pool :: "event_pool \<Rightarrow> u64 \<Rightarrow> slot_view" where
  "abs_pool p t = (if valid_token t then slot_view p t else Gone)"

fun spec_step :: "pool_op \<Rightarrow> (u64 \<Rightarrow> slot_view) \<Rightarrow> pool_out \<Rightarrow> (u64 \<Rightarrow> slot_view) \<Rightarrow> bool" where
  "spec_step OpAcquire m out m' =
     (if card {t. m t \<noteq> Gone} < 256
      then \<exists>t. t \<noteq> 0 \<and> m t = Gone \<and> out = OutToken t \<and> m' = m(t := Waiting)
      else out = OutToken 0 \<and> m' = m)"
| "spec_step (OpComplete t ok) m out m' =
     (out = OutNone \<and> m' = (if m t = Waiting then m(t := Finished ok) else m))"
| "spec_step (OpProbe t) m out m' =
     (out = OutProbe (probe_code (m t)) \<and> m' = (if probe_code (m t) \<noteq> 0 then m(t := Gone) else m))"
| "spec_step (OpAbort n t) m out m' = (out = OutAbort (m t \<noteq> Gone) \<and> m' = m(t := Gone))"

lemma abs_pool_live: "{t. abs_pool p t \<noteq> Gone} = live_tokens p"
  by (auto simp: abs_pool_def live_tokens_def)

text \<open>C2: The pool implements the abstract pool. Every operation, on every branch, keeps the
  invariant, returns what the abstract operation returns and changes the status of exactly
  the token the abstract operation changes: acquiring hands out an unused token while fewer
  than 256 are outstanding and fails with token 0 otherwise, a completion only affects its own
  pending token, a probe consumes a finished token, an abort drops its token.\<close>

theorem pool_refines_spec:
  assumes inv: "pool_inv p" and tok: "valid_token (op_token x)" and step: "pool_step x p = (out, q)"
  shows "pool_inv q \<and> spec_step x (abs_pool p) out (abs_pool q)"
proof (cases x)
  case OpAcquire
  obtain ok t where a: "Acquire p = (ok, t, q)" "out = OutToken t"
    using step OpAcquire by (auto split: prod.splits)
  have free: "card {t. abs_pool p t \<noteq> Gone} < 256 \<longleftrightarrow> ok"
    using live_tokens_card [OF inv] Acquire_flag(1) [OF inv] a by (auto simp: abs_pool_live)
  show ?thesis
  proof (cases ok)
    case True
    then have "Acquire p = (True, t, q)"
      using a(1) by simp
    note T = slots.acq_ok [OF inv this]
    have "abs_pool q = (abs_pool p)(t := Waiting)"
      using T by (auto simp: abs_pool_def fun_eq_iff)
    then show ?thesis
      using T a OpAcquire free True by (auto simp: abs_pool_def)
  next
    case False
    then show ?thesis
      using slots.acq_fail [OF inv] inv a OpAcquire free by auto
  qed
next
  case (OpComplete t ok)
  then show ?thesis
    using slots.cmp_law [OF inv, of t ok] tok step by (auto simp: abs_pool_def fun_eq_iff)
next
  case (OpProbe t)
  then obtain r where r: "Probe t p = (r, q)" "out = OutProbe r"
    using step by (auto split: prod.splits)
  have "valid_token t"
    using tok OpProbe by simp
  note T = slots.prb_law [OF inv this r(1)]
  show ?thesis
    using T r OpProbe tok by (auto simp: abs_pool_def fun_eq_iff)
next
  case (OpAbort n t)
  then obtain b where b: "Abort n t p = (b, q)" "out = OutAbort b"
    using step by (auto split: prod.splits)
  have "valid_token t"
    using tok OpAbort by simp
  note T = slots.abt_law [OF inv this b(1)]
  show ?thesis
    using T b OpAbort tok by (auto simp: abs_pool_def fun_eq_iff)
qed

lemma later_tokens_differ:
  assumes "pool_inv p1" and toks: "\<forall>x \<in> set post. valid_token (op_token x)" and n: "acquires post < 2 ^ 32 - 1"
    and acq: "Acquire p1 = (True, t, p2)" and post: "run_steps pool_step post p2 = (o2, p3)"
  shows "OutToken t \<notin> set o2"
proof -
  have fc: "0 < freeCount p1"
    using acq Acquire_empty [of p1] by (cases "freeCount p1") auto
  define i where "i = freeSlots p1 ! (freeCount p1 - 1)"
  define g where "g = next_generation (generations p1 ! i)"
  note A = Acquire_success [OF assms(1) fc, folded i_def, folded g_def]
  have t: "t = make_token g i" and gen: "generations p2 ! i = (next_generation ^^ 0) g"
    using A acq pool_invD(2) [OF assms(1)] by auto
  have "pool_inv p2"
    using Acquire_inv [OF assms(1) acq] by simp
  then show ?thesis
    using token_not_reissued [OF _ toks post A(1) _ gen] n by (simp add: t g_def)
qed

text \<open>C15: A token is not issued again while it could still be in use. In any history of a fresh pool, an
  acquisition that succeeds (its token is not 0) hands out a token that none of the next
  \<open>2 ^ 32 - 2\<close> acquisitions hands out, whatever completions, probes and aborts happen before and
  after: the 32-bit generation of a slot runs through all its non-zero values first.\<close>

theorem tokens_never_reissued:
  assumes "\<forall>x \<in> set (pre @ post). valid_token (op_token x)" and "acquires post < 2 ^ 32 - 1"
    and run: "run_steps pool_step (pre @ OpAcquire # post) EventSlotPool_init = (o1 @ OutToken t # o2, p)"
    and len: "length o1 = length pre" and "t \<noteq> 0"
  shows "OutToken t \<notin> set o2"
proof -
  obtain o1' p1 where r1: "run_steps pool_step pre EventSlotPool_init = (o1', p1)"
    by (cases "run_steps pool_step pre EventSlotPool_init")
  obtain ok t' p2 where acq: "Acquire p1 = (ok, t', p2)"
    by (cases "Acquire p1") auto
  obtain o2' p3 where r2: "run_steps pool_step post p2 = (o2', p3)"
    by (cases "run_steps pool_step post p2")
  have "length o1' = length pre"
    using run_steps_length [of pool_step pre EventSlotPool_init] r1 by simp
  then have eqs: "t' = t" "o2' = o2"
    using run len r1 acq r2 by (auto simp: run_steps_append)
  have inv: "pool_inv p1"
    using run_init_inv [OF _ r1] assms(1) by simp
  then have ok
    using slots.acq_fail [OF inv] acq eqs(1) \<open>t \<noteq> 0\<close> by (cases ok) auto
  then show ?thesis
    using later_tokens_differ [OF inv _ assms(2)] assms(1) acq r2 eqs by simp
qed

lemma event_delivery:
  assumes inv1: "pool_inv p1" and toks: "\<forall>x \<in> set post. valid_token (op_token x)"
    and n: "acquires post < 2 ^ 32 - 1"
    and acq: "Acquire p1 = (True, t, p2)" and post: "run_steps pool_step post p2 = (o2, p3)"
  shows "delivered t post o2 = [] \<or>
         (\<exists>ok. first_completion t post = Some ok \<and> delivered t post o2 = [if ok then 1 else - 1])"
proof -
  note T = slots.acq_ok [OF inv1 acq]
  have "delivery_ok (slot_view p2 t) (first_completion t post) (delivered t post o2)"
    using slots.delivered_once [OF _ _ _ post later_tokens_differ [OF assms]] T toks by simp
  moreover have "slot_view p2 t = Waiting"
    using T by simp
  ultimately show ?thesis
    by (cases "first_completion t post") (auto simp: probe_code_def)
qed

text \<open>C14: No completion is lost. If, after a token was acquired, some completion for it has
  happened and nobody has probed or aborted it yet, then the next probe returns the status
  of the first such completion, however many other operations (reusing other slots,
  duplicate completions) came in between, up to \<open>2 ^ 32 - 2\<close> further acquisitions.\<close>

theorem completion_not_lost:
  assumes toks: "\<forall>x \<in> set (pre @ post). valid_token (op_token x)"
    and n: "acquires post < 2 ^ 32 - 1"
    and pre: "run_steps pool_step pre EventSlotPool_init = (o1, p1)"
    and acq: "Acquire p1 = (True, t, p2)" and post: "run_steps pool_step post p2 = (o2, p3)"
    and quiet: "\<forall>x \<in> set post. \<not> consumes t x" and ok: "first_completion t post = Some ok"
  shows "fst (Probe t p3) = (if ok then 1 else - 1)"
proof -
  have inv1: "pool_inv p1"
    using run_init_inv [OF _ pre] toks by simp
  note T = slots.acq_ok [OF inv1 acq]
  have "slot_view p3 t = Finished ok"
    using slots.completion_kept [OF _ _ _ post later_tokens_differ [OF inv1 _ n acq post] _ ok] T toks quiet
    by simp
  then show ?thesis
    using T by (simp add: Probe_cases)
qed

section \<open>Witnesses\<close>

text \<open>The first token of a fresh pool is generation 1 of slot 0.\<close>

lemma first_acquire:
  obtains q where "Acquire EventSlotPool_init = (True, 256, q)"
proof -
  have "freeSlots EventSlotPool_init ! (freeCount EventSlotPool_init - 1) = 0"
    "generations EventSlotPool_init ! 0 = 0"
    by (simp_all add: EventSlotPool_init_def)
  moreover have "make_token (next_generation 0) 0 = 256"
    by (simp add: make_token_def next_generation_def Let_def)
  moreover have "0 < freeCount EventSlotPool_init"
    by (simp add: EventSlotPool_init_def)
  ultimately show ?thesis
    using that Acquire_success(3) [OF pool_inv_init] by simp
qed

theorem pool_refines_spec_witness:
  "\<exists>q. Acquire EventSlotPool_init = (True, 256, q) \<and> pool_inv q \<and>
     spec_step OpAcquire (abs_pool EventSlotPool_init) (OutToken 256) (abs_pool q)"
proof -
  obtain q where q: "Acquire EventSlotPool_init = (True, 256, q)"
    by (rule first_acquire)
  then show ?thesis
    using pool_refines_spec [OF pool_inv_init, of OpAcquire "OutToken 256" q]
    by (simp add: valid_token_def del: spec_step.simps)
qed

theorem tokens_never_reissued_witness:
  "\<exists>q o2 p. Acquire EventSlotPool_init = (True, 256, q) \<and>
     run_steps pool_step [OpAbort 0 256, OpAcquire] q = (o2, p) \<and> OutToken 256 \<notin> set o2"
proof -
  obtain q where q: "Acquire EventSlotPool_init = (True, 256, q)"
    by (rule first_acquire)
  obtain o2 p where run: "run_steps pool_step [OpAbort 0 256, OpAcquire] q = (o2, p)"
    by (cases "run_steps pool_step [OpAbort 0 256, OpAcquire] q")
  have "OutToken 256 \<notin> set o2"
    using tokens_never_reissued [of "[]" "[OpAbort 0 256, OpAcquire]" "[]" 256 o2 p] q run
    by (simp add: acquires_def valid_token_def)
  then show ?thesis
    using q run by blast
qed

theorem completion_not_lost_witness:
  "\<exists>q. Acquire EventSlotPool_init = (True, 256, q) \<and> fst (Probe 256 (Complete 256 False q)) = - 1"
proof -
  obtain q where q: "Acquire EventSlotPool_init = (True, 256, q)"
    by (rule first_acquire)
  have "fst (Probe 256 (Complete 256 False q)) = (if False then 1 else - 1)"
    by (rule completion_not_lost [of "[]" "[OpComplete 256 False]" "[]" EventSlotPool_init 256 q "[OutNone]"])
      (use q in \<open>simp_all add: acquires_def valid_token_def\<close>)
  then show ?thesis
    using q by simp
qed

end
