(* ===== verification/EventSlotConc.thy ===== *)
theory EventSlotConc
  imports EventSlotPool
begin

text \<open>
  The completion slots under concurrency (\<^verbatim>\<open>src/urma/event_slot_pool.h\<close>): one worker thread
  runs \<^verbatim>\<open>Acquire\<close>, \<^verbatim>\<open>Probe\<close> and \<^verbatim>\<open>Abort\<close>, the polling thread runs \<^verbatim>\<open>Complete\<close>. The only
  shared memory is the array of atomic state words, so a step is one atomic load or
  compare-and-exchange, with the private work of the thread around it; a completion may
  happen between any two steps of the worker.

  The step relation logs every operation at the point where it takes effect. The theorems
  show that the log is a sequential history of the pool: the interleaved pool is
  linearisable, so the results of \<open>EventSlotPool\<close> hold for it.
\<close>

section \<open>Steps\<close>

text \<open>Where the worker is: between operations, after the load of \<^verbatim>\<open>Probe\<close> that matched (with
  the loaded value), in the loop of \<^verbatim>\<open>Abort\<close>, or before giving a slot back.\<close>

datatype worker_pc = Idle | ProbeCas u64 u64 | AbortCas u64 u64 | Releasing nat

type_synonym oplog = "(pool_op \<times> pool_out) list"

definition clear_word :: "nat \<Rightarrow> event_pool \<Rightarrow> event_pool" where
  "clear_word i p = p\<lparr>states := (states p)[i := 0]\<rparr>"

inductive conc_step :: "event_pool \<times> worker_pc \<Rightarrow> oplog \<Rightarrow> event_pool \<times> worker_pc \<Rightarrow> bool" where
  acquire: "Acquire p = (ok, t, q) \<Longrightarrow> conc_step (p, Idle) [(OpAcquire, OutToken t)] (q, Idle)"
| complete: "valid_token t \<Longrightarrow> conc_step (p, pc) [(OpComplete t ok, OutNone)] (Complete t ok p, pc)"
| probe_zero: "conc_step (p, Idle) [(OpProbe 0, OutProbe 0)] (p, Idle)"
| probe_miss: "t \<noteq> 0 \<Longrightarrow> valid_token t \<Longrightarrow>
    states p ! Index t \<noteq> Done t True \<Longrightarrow> states p ! Index t \<noteq> Done t False \<Longrightarrow>
    conc_step (p, Idle) [(OpProbe t, OutProbe 0)] (p, Idle)"
| probe_hit: "t \<noteq> 0 \<Longrightarrow> valid_token t \<Longrightarrow> v = states p ! Index t \<Longrightarrow>
    v = Done t True \<or> v = Done t False \<Longrightarrow> conc_step (p, Idle) [] (p, ProbeCas t v)"
| probe_cas: "states p ! Index t = v \<Longrightarrow>
    conc_step (p, ProbeCas t v) [(OpProbe t, OutProbe (if v = Done t True then 1 else - 1))]
      (clear_word (Index t) p, Releasing (Index t))"
| probe_cas_fail: "states p ! Index t \<noteq> v \<Longrightarrow>
    conc_step (p, ProbeCas t v) [(OpProbe t, OutProbe 0)] (p, Idle)"
| abort_zero: "conc_step (p, Idle) [(OpAbort 0 0, OutAbort False)] (p, Idle)"
| abort_miss: "t \<noteq> 0 \<Longrightarrow> valid_token t \<Longrightarrow> drop_bit 2 (states p ! Index t) \<noteq> t \<Longrightarrow>
    conc_step (p, Idle) [(OpAbort 0 t, OutAbort False)] (p, Idle)"
| abort_hit: "t \<noteq> 0 \<Longrightarrow> valid_token t \<Longrightarrow> v = states p ! Index t \<Longrightarrow> drop_bit 2 v = t \<Longrightarrow>
    conc_step (p, Idle) [] (p, AbortCas t v)"
| abort_cas: "states p ! Index t = v \<Longrightarrow>
    conc_step (p, AbortCas t v) [(OpAbort 0 t, OutAbort True)] (clear_word (Index t) p, Releasing (Index t))"
| abort_retry: "drop_bit 2 (states p ! Index t) = t \<Longrightarrow>
    conc_step (p, AbortCas t v) [] (p, AbortCas t (states p ! Index t))"
| abort_lost: "drop_bit 2 (states p ! Index t) \<noteq> t \<Longrightarrow>
    conc_step (p, AbortCas t v) [(OpAbort 0 t, OutAbort False)] (p, Idle)"
| release: "conc_step (p, Releasing i) [] (Release i p, Idle)"

inductive conc_run :: "event_pool \<times> worker_pc \<Rightarrow> oplog \<Rightarrow> event_pool \<times> worker_pc \<Rightarrow> bool" where
  start: "conc_run c [] c"
| more: "conc_run c tr c1 \<Longrightarrow> conc_step c1 ev c2 \<Longrightarrow> conc_run c (tr @ ev) c2"

inductive_cases probe_casE: "conc_step (p, ProbeCas t v) ev c"

section \<open>The sequential pool behind an interleaved state\<close>

fun settled :: "event_pool \<times> worker_pc \<Rightarrow> event_pool" where
  "settled (p, Releasing i) = Release i p"
| "settled (p, pc) = p"

text \<open>What the worker knows between its steps: the value it loaded still belongs to its token.\<close>

fun pc_inv :: "event_pool \<Rightarrow> worker_pc \<Rightarrow> bool" where
  "pc_inv p (ProbeCas t v) =
     (t \<noteq> 0 \<and> valid_token t \<and> states p ! Index t = v \<and> (v = Done t True \<or> v = Done t False))"
| "pc_inv p (AbortCas t v) = (t \<noteq> 0 \<and> valid_token t \<and> slot_view p t \<noteq> Gone)"
| "pc_inv p pc = True"

definition conc_inv :: "event_pool \<times> worker_pc \<Rightarrow> bool" where
  "conc_inv c \<longleftrightarrow> pool_inv (settled c) \<and> pc_inv (fst c) (snd c)"

lemma Complete_settled: "settled (Complete t ok p, pc) = Complete t ok (settled (p, pc))"
  by (cases pc) (auto simp: Complete_def Release_def Let_def)

lemma Complete_pc_inv:
  assumes "pool_inv (settled (p, pc))" and "pc_inv p pc" and t: "valid_token t"
  shows "pc_inv (Complete t ok p) pc"
proof (cases pc)
  case (ProbeCas u v)
  then have u: "u \<noteq> 0" "valid_token u" "states p ! Index u = v" "v = Done u True \<or> v = Done u False"
    using assms(2) by auto
  have "states p ! Index u \<noteq> Pending t"
    using u t by auto
  then have "states (Complete t ok p) ! Index u = states p ! Index u"
    by (cases "Index u = Index t") (auto simp: Complete_def Let_def)
  then show ?thesis
    using ProbeCas u by simp
next
  case (AbortCas u v)
  then show ?thesis
    using assms Complete_view [of p t u ok] by auto
qed simp_all

lemma Probe_hit:
  assumes "t \<noteq> 0" and "states p ! Index t = v" and "v = Done t True \<or> v = Done t False"
  shows "Probe t p = (if v = Done t True then 1 else - 1, free_slot (Index t) p)"
  using assms by (auto simp: Probe_def Let_def free_slot_def)

lemma settled_clear: "settled (clear_word i p, Releasing i) = free_slot i p"
  by (simp add: clear_word_def free_slot_def)

lemma pool_inv_settled: "conc_inv (p, pc) \<Longrightarrow> (\<And>i. pc \<noteq> Releasing i) \<Longrightarrow> pool_inv p"
  by (cases pc) (auto simp: conc_inv_def)

text \<open>Each step does to the sequential pool what its log entry says.\<close>

lemma conc_step_simulation:
  assumes "conc_step c ev c'" and "conc_inv c"
  shows "conc_inv c' \<and> run_steps pool_step (map fst ev) (settled c) = (map snd ev, settled c')"
  using assms
proof (induction rule: conc_step.induct)
  case (acquire p ok t q)
  then show ?case
    using slots.step_inv [of p OpAcquire] by (auto simp: conc_inv_def valid_token_def)
next
  case (complete t p pc ok)
  have "pc_inv (Complete t ok p) pc"
    using complete Complete_pc_inv by (simp add: conc_inv_def)
  then show ?case
    using complete Complete_inv by (simp add: conc_inv_def Complete_settled)
next
  case (probe_zero p)
  then show ?case
    by (simp add: Probe_def)
next
  case (probe_miss t p)
  then show ?case
    by (simp add: Probe_def Let_def)
next
  case (probe_hit t v p)
  then show ?case
    by (auto simp: conc_inv_def)
next
  case (probe_cas p t v)
  then have p: "pool_inv p" "t \<noteq> 0" "valid_token t" "v = Done t True \<or> v = Done t False"
    by (auto simp: conc_inv_def)
  have "slot_view p t \<noteq> Gone"
    using p probe_cas.hyps slot_view_Finished [of t p True] slot_view_Finished [of t p False] by auto
  then show ?case
    using Probe_hit [OF p(2) probe_cas.hyps p(4)] free_slot_inv p
    by (simp add: conc_inv_def settled_clear del: settled.simps(1))
next
  case (probe_cas_fail p t v)
  then show ?case
    by (simp add: conc_inv_def)
next
  case (abort_zero p)
  then show ?case
    by (simp add: Abort_def)
next
  case (abort_miss t p)
  then show ?case
    by (simp add: Abort_def)
next
  case (abort_hit t v p)
  then have "slot_view p t \<noteq> Gone"
    using Abort_cases [of p t 0] by (auto simp: conc_inv_def Abort_def split: if_splits)
  then show ?case
    using abort_hit by (simp add: conc_inv_def)
next
  case (abort_cas p t v)
  then have p: "pool_inv p" "valid_token t" "slot_view p t \<noteq> Gone"
    by (auto simp: conc_inv_def)
  then show ?case
    using Abort_cases [OF p(1,2), of 0] free_slot_inv
    by (simp add: conc_inv_def settled_clear del: settled.simps(1))
next
  case (abort_retry p t v)
  then show ?case
    by (simp add: conc_inv_def)
next
  case (abort_lost p t v)
  then show ?case
    by (simp add: conc_inv_def Abort_def)
next
  case (release p i)
  then show ?case
    by (simp add: conc_inv_def)
qed

lemma conc_run_simulation:
  assumes "conc_run c tr c'" and "conc_inv c"
  shows "conc_inv c' \<and> run_steps pool_step (map fst tr) (settled c) = (map snd tr, settled c')"
  using assms
proof (induction rule: conc_run.induct)
  case (more c tr c1 ev c2)
  then show ?case
    using conc_step_simulation [OF more.hyps(2)] by (simp add: run_steps_append)
qed simp

lemma conc_inv_init: "conc_inv (EventSlotPool_init, Idle)"
  by (simp add: conc_inv_def pool_inv_init)

section \<open>Properties\<close>

text \<open>C5: The pool is linearisable. For every interleaving of the worker's atomic steps with
  completions from the polling thread, starting from a fresh pool, the operations logged
  where they take effect form a sequential history with the same results and the same
  final pool.\<close>

theorem pool_linearisable:
  assumes "conc_run (EventSlotPool_init, Idle) tr c"
  shows "run_steps pool_step (map fst tr) EventSlotPool_init = (map snd tr, settled c)"
  using conc_run_simulation [OF assms conc_inv_init] by simp

lemma log_tokens_valid:
  assumes "conc_run c tr c'" and "conc_inv c"
  shows "\<forall>x \<in> set (map fst tr). valid_token (op_token x)"
  using assms
proof (induction rule: conc_run.induct)
  case (more c tr c1 ev c2)
  have inv: "conc_inv c1"
    using conc_run_simulation more by blast
  have "\<forall>x \<in> set (map fst ev). valid_token (op_token x)"
    using more.hyps(2) inv by (cases rule: conc_step.cases) (auto simp: conc_inv_def valid_token_def)
  then show ?case
    using more by auto
qed simp

text \<open>C3: At most once delivery under concurrency: in every interleaving, between the acquisition of
  a token and the end of the run, or the \<open>2 ^ 32 - 1\<close>st acquisition after it, when the 32-bit
  generation of its slot may come round, the worker gets a result for the token at most once,
  and it is the status of the first completion that carries this token.\<close>

theorem concurrent_delivery_once:
  assumes run: "conc_run (EventSlotPool_init, Idle) (pre @ (OpAcquire, OutToken t) # post) c"
    and t: "t \<noteq> 0" and n: "acquires (map fst post) < 2 ^ 32 - 1"
  shows "delivered t (map fst post) (map snd post) = [] \<or>
         (\<exists>ok. first_completion t (map fst post) = Some ok \<and>
               delivered t (map fst post) (map snd post) = [if ok then 1 else - 1])"
proof -
  let ?pre = "map fst pre" and ?post = "map fst post"
  obtain o1 p1 where r1: "run_steps pool_step ?pre EventSlotPool_init = (o1, p1)"
    by (cases "run_steps pool_step ?pre EventSlotPool_init")
  obtain ok t' p2 where acq: "Acquire p1 = (ok, t', p2)"
    by (cases "Acquire p1") auto
  obtain o2 p3 where r2: "run_steps pool_step ?post p2 = (o2, p3)"
    by (cases "run_steps pool_step ?post p2")
  have "run_steps pool_step (?pre @ OpAcquire # ?post) EventSlotPool_init = (map snd pre @ OutToken t # map snd post, settled c)"
    using conc_run_simulation [OF run conc_inv_init] by simp
  then have "o1 @ OutToken t' # o2 = map snd pre @ OutToken t # map snd post"
    using r1 acq r2 by (simp add: run_steps_append)
  moreover have "length o1 = length (map snd pre)"
    using run_steps_length [of pool_step ?pre EventSlotPool_init] r1 by simp
  ultimately have eqs: "t' = t" "o2 = map snd post"
    by auto
  have toks: "\<forall>x \<in> set (?pre @ ?post). valid_token (op_token x)"
    using log_tokens_valid [OF run conc_inv_init] by auto
  have "ok"
    using slots.acq_fail [OF run_init_inv [OF _ r1]] toks acq t eqs by auto
  then have acq': "Acquire p1 = (True, t, p2)"
    using acq eqs by simp
  have "pool_inv p1"
    using run_init_inv [OF _ r1] toks by simp
  from event_delivery [OF this _ n acq' r2] show ?thesis
    using toks by (simp add: eqs)
qed

section \<open>Witnesses\<close>

text \<open>A run in which the completion falls between the acquisition and the probe.\<close>

lemma sample_run:
  obtains p c where "conc_run (EventSlotPool_init, Idle)
      [(OpAcquire, OutToken 256), (OpComplete 256 True, OutNone)] (p, ProbeCas 256 (Done 256 True))"
    and "states p ! Index 256 = Done 256 True"
proof -
  obtain q where q: "Acquire EventSlotPool_init = (True, 256, q)"
    by (rule first_acquire)
  have v: "valid_token 256"
    by (simp add: valid_token_def)
  let ?p = "Complete 256 True q"
  have "slot_view ?p 256 = Finished True"
    using slots.acq_ok [OF pool_inv_init q] slots.cmp_law [of q 256 True] v by simp
  then have w: "states ?p ! Index 256 = Done 256 True"
    using slot_view_Finished [OF v] by blast
  have "conc_run (EventSlotPool_init, Idle) ([] @ [(OpAcquire, OutToken 256)]) (q, Idle)"
    by (rule more [OF start]) (rule acquire [OF q])
  then have "conc_run (EventSlotPool_init, Idle)
      (([] @ [(OpAcquire, OutToken 256)]) @ [(OpComplete 256 True, OutNone)]) (?p, Idle)"
    by (rule more) (rule complete [OF v])
  then have "conc_run (EventSlotPool_init, Idle)
      ((([] @ [(OpAcquire, OutToken 256)]) @ [(OpComplete 256 True, OutNone)]) @ []) (?p, ProbeCas 256 (Done 256 True))"
    by (rule more) (rule probe_hit, use v w in simp_all)
  then show ?thesis
    using that w by simp
qed

theorem pool_linearisable_witness:
  "\<exists>c. run_steps pool_step [OpAcquire, OpComplete 256 True] EventSlotPool_init =
       ([OutToken 256, OutNone], settled c)"
proof -
  obtain p where "conc_run (EventSlotPool_init, Idle)
      [(OpAcquire, OutToken 256), (OpComplete 256 True, OutNone)] (p, ProbeCas 256 (Done 256 True))"
    by (rule sample_run)
  from pool_linearisable [OF this] show ?thesis
    unfolding list.map fst_conv snd_conv by blast
qed

theorem concurrent_delivery_once_witness:
  "\<exists>p. conc_run (EventSlotPool_init, Idle)
         [(OpAcquire, OutToken 256), (OpComplete 256 True, OutNone)] (p, ProbeCas 256 (Done 256 True)) \<and>
       delivered 256 [OpComplete 256 True] [OutNone] = []"
proof -
  obtain p where run: "conc_run (EventSlotPool_init, Idle)
      [(OpAcquire, OutToken 256), (OpComplete 256 True, OutNone)] (p, ProbeCas 256 (Done 256 True))"
    by (rule sample_run)
  have "delivered 256 [OpComplete 256 True] [OutNone] = [] \<or> delivered 256 [OpComplete 256 True] [OutNone] = [1]"
    using concurrent_delivery_once [of "[]" 256 "[(OpComplete 256 True, OutNone)]"] run by (auto simp: acquires_def)
  then show ?thesis
    using run by auto
qed

end
