(* ===== verification/SendJettyPool.thy ===== *)
theory SendJettyPool
  imports KV_Prelude
begin

text \<open>
  The pool of send jettys of \<^verbatim>\<open>src/urma/urma_send_lane.h\<close>. Every operation holds the mutex of
  the object for its whole body, so concurrent use is a sequence of these operations.

  A jetty is named by its address; \<^verbatim>\<open>nullptr\<close> is \<^term>\<open>None\<close>. The pool keeps a vector of jettys,
  a deque of the indices of idle ones, a flag per jetty and a map from address to index; the
  abstraction is a FIFO queue of idle jettys and the set of those in use.
\<close>

section \<open>The code\<close>

type_synonym jetty = nat

record send_pool =
  jettys :: "jetty list"
  idleIndices :: "nat list"
  isIdle :: "bool list"
  jettyIndices :: "jetty \<rightharpoonup> nat"

record pool_stats =
  poolSize :: nat
  idleCount :: nat
  inUseCount :: nat

definition SendJettyPool_init :: send_pool where
  "SendJettyPool_init = \<lparr>jettys = [], idleIndices = [], isIdle = [], jettyIndices = Map.empty\<rparr>"

definition Clear :: "send_pool \<Rightarrow> send_pool" where
  "Clear p = p\<lparr>jettys := [], idleIndices := [], isIdle := [], jettyIndices := Map.empty\<rparr>"

definition Add :: "jetty \<Rightarrow> send_pool \<Rightarrow> send_pool" where
  "Add j p =
     (let index = length (jettys p)
      in p\<lparr>jettyIndices := (jettyIndices p)(j \<mapsto> index), idleIndices := idleIndices p @ [index],
           isIdle := isIdle p @ [True], jettys := jettys p @ [j]\<rparr>)"

text \<open>The loop of \<^verbatim>\<open>PopIdle\<close>, over what is left in the deque.\<close>

fun PopIdle_loop :: "nat list \<Rightarrow> send_pool \<Rightarrow> jetty option \<times> send_pool" where
  "PopIdle_loop [] p = (None, p\<lparr>idleIndices := []\<rparr>)"
| "PopIdle_loop (idx # rest) p =
     (if idx \<ge> length (jettys p) \<or> \<not> isIdle p ! idx then PopIdle_loop rest p
      else (Some (jettys p ! idx), p\<lparr>idleIndices := rest, isIdle := (isIdle p)[idx := False]\<rparr>))"

definition PopIdle :: "send_pool \<Rightarrow> jetty option \<times> send_pool" where
  "PopIdle p = PopIdle_loop (idleIndices p) p"

definition ReleaseJetty :: "jetty option \<Rightarrow> send_pool \<Rightarrow> send_pool" where
  "ReleaseJetty jo p =
     (case jo of
        None \<Rightarrow> p
      | Some j \<Rightarrow>
        (case jettyIndices p j of
           None \<Rightarrow> p
         | Some i \<Rightarrow> if isIdle p ! i then p
                     else p\<lparr>isIdle := (isIdle p)[i := True], idleIndices := idleIndices p @ [i]\<rparr>))"

definition Remove :: "jetty option \<Rightarrow> send_pool \<Rightarrow> bool \<times> send_pool" where
  "Remove jo p =
     (case Option.bind jo (jettyIndices p) of
        None \<Rightarrow> (False, p)
      | Some index \<Rightarrow>
        (let lastIndex = length (jettys p) - 1;
             idle1 = filter (\<lambda>i. i \<noteq> index) (idleIndices p);
             map1 = (jettyIndices p)(the jo := None);
             p1 = p\<lparr>idleIndices := idle1, jettyIndices := map1\<rparr>;
             p2 = (if index \<noteq> lastIndex
                   then p1\<lparr>jettys := (jettys p1)[index := jettys p1 ! lastIndex],
                           isIdle := (isIdle p1)[index := isIdle p1 ! lastIndex],
                           jettyIndices := (jettyIndices p1)(jettys p1 ! lastIndex \<mapsto> index),
                           idleIndices := map (\<lambda>i. if i = lastIndex then index else i) (idleIndices p1)\<rparr>
                   else p1)
         in (True, p2\<lparr>jettys := butlast (jettys p2), isIdle := butlast (isIdle p2)\<rparr>)))"

definition GetStats :: "send_pool \<Rightarrow> pool_stats" where
  "GetStats p =
     (let size = length (jettys p); idle = length (idleIndices p)
      in \<lparr>poolSize = size, idleCount = idle, inUseCount = (if size > idle then size - idle else 0)\<rparr>)"

definition At :: "nat \<Rightarrow> send_pool \<Rightarrow> jetty option" where
  "At index p = (if index < length (jettys p) then Some (jettys p ! index) else None)"

section \<open>Invariant and abstraction\<close>

definition lanes_inv :: "send_pool \<Rightarrow> bool" where
  "lanes_inv p \<longleftrightarrow>
     length (isIdle p) = length (jettys p) \<and> distinct (jettys p) \<and>
     (\<forall>j i. jettyIndices p j = Some i \<longleftrightarrow> i < length (jettys p) \<and> jettys p ! i = j) \<and>
     distinct (idleIndices p) \<and> set (idleIndices p) = {i. i < length (jettys p) \<and> isIdle p ! i}"

lemma lanes_invD:
  assumes "lanes_inv p"
  shows "length (isIdle p) = length (jettys p)" and "distinct (jettys p)"
    and "\<And>j i. jettyIndices p j = Some i \<longleftrightarrow> i < length (jettys p) \<and> jettys p ! i = j"
    and "distinct (idleIndices p)"
    and "set (idleIndices p) = {i. i < length (jettys p) \<and> isIdle p ! i}"
  using assms by (auto simp: lanes_inv_def)

text \<open>The idle jettys, oldest first, and the jettys in use.\<close>

definition idle_queue :: "send_pool \<Rightarrow> jetty list" where
  "idle_queue p = map (\<lambda>i. jettys p ! i) (idleIndices p)"

definition busy_set :: "send_pool \<Rightarrow> jetty set" where
  "busy_set p = {jettys p ! i | i. i < length (jettys p) \<and> \<not> isIdle p ! i}"

lemma lanes_inv_init: "lanes_inv SendJettyPool_init"
  by (simp add: lanes_inv_def SendJettyPool_init_def)

lemma idle_queue_distinct:
  assumes "lanes_inv p"
  shows "distinct (idle_queue p)"
proof -
  note I = lanes_invD [OF assms]
  have "inj_on (\<lambda>i. jettys p ! i) (set (idleIndices p))"
    using I(2,5) by (auto simp: inj_on_def nth_eq_iff_index_eq)
  then show ?thesis
    using I(4) by (simp add: idle_queue_def distinct_map)
qed

lemma idle_busy_disjoint:
  assumes "lanes_inv p"
  shows "set (idle_queue p) \<inter> busy_set p = {}" and "set (idle_queue p) \<union> busy_set p = set (jettys p)"
proof -
  note I = lanes_invD [OF assms]
  have q: "set (idle_queue p) = {jettys p ! i | i. i < length (jettys p) \<and> isIdle p ! i}"
    using I(5) by (auto simp: idle_queue_def)
  show "set (idle_queue p) \<inter> busy_set p = {}"
    unfolding q busy_set_def using I(2) by (auto simp: nth_eq_iff_index_eq)
  show "set (idle_queue p) \<union> busy_set p = set (jettys p)"
    unfolding q busy_set_def unfolding set_conv_nth by blast
qed

lemma busy_set_iff:
  assumes "lanes_inv p"
  shows "j \<in> busy_set p \<longleftrightarrow> (\<exists>i. jettyIndices p j = Some i \<and> \<not> isIdle p ! i)"
  using lanes_invD(3) [OF assms] by (auto simp: busy_set_def)

subsection \<open>Add\<close>

lemma Add_laws:
  assumes inv: "lanes_inv p" and j: "j \<notin> set (jettys p)"
  shows "lanes_inv (Add j p)" and "idle_queue (Add j p) = idle_queue p @ [j]"
    and "busy_set (Add j p) = busy_set p" and "jettys (Add j p) = jettys p @ [j]"
proof -
  note I = lanes_invD [OF inv]
  have idx: "((jettyIndices p)(j \<mapsto> length (jettys p))) k = Some i \<longleftrightarrow>
      i < length (jettys p @ [j]) \<and> (jettys p @ [j]) ! i = k" for k i
    using I(3) [of k i] j by (auto simp: nth_append less_Suc_eq in_set_conv_nth)
  show "lanes_inv (Add j p)"
    using I(1,2,4,5) j idx by (auto simp: lanes_inv_def Add_def Let_def nth_append less_Suc_eq)
  show "idle_queue (Add j p) = idle_queue p @ [j]"
    using I(5) by (auto simp: idle_queue_def Add_def Let_def nth_append)
  show "busy_set (Add j p) = busy_set p"
    using I(1) by (auto simp: busy_set_def Add_def Let_def nth_append less_Suc_eq intro: exI)
  show "jettys (Add j p) = jettys p @ [j]"
    by (simp add: Add_def Let_def)
qed

subsection \<open>PopIdle\<close>

lemma PopIdle_empty:
  assumes "idle_queue p = []"
  shows "PopIdle p = (None, p)"
  using assms by (simp add: PopIdle_def idle_queue_def)

lemma PopIdle_some:
  assumes inv: "lanes_inv p" and q: "idle_queue p = j # js" and pop: "PopIdle p = (r, p')"
  shows "r = Some j" and "lanes_inv p'" and "idle_queue p' = js"
    and "busy_set p' = insert j (busy_set p)" and "jettys p' = jettys p"
proof -
  note I = lanes_invD [OF inv]
  obtain i rest where idle: "idleIndices p = i # rest" and j: "j = jettys p ! i"
    and js: "js = map (\<lambda>i. jettys p ! i) rest"
    using q by (auto simp: idle_queue_def)
  have i: "i < length (jettys p)" "isIdle p ! i"
    using I(5) idle by auto
  then have r: "r = Some (jettys p ! i)" and p': "jettys p' = jettys p" "idleIndices p' = rest"
    "isIdle p' = (isIdle p)[i := False]" "jettyIndices p' = jettyIndices p"
    using pop by (auto simp: PopIdle_def idle)
  show "r = Some j"
    by (simp add: r j)
  show "jettys p' = jettys p"
    by (rule p')
  show "idle_queue p' = js"
    by (simp add: idle_queue_def p' js)
  have idl: "isIdle p' ! k \<longleftrightarrow> isIdle p ! k \<and> k \<noteq> i" if "k < length (jettys p)" for k
    using that i I(1) by (auto simp: p' nth_list_update)
  have "set rest = set (idleIndices p) - {i}"
    using I(4) idle by auto
  also have "\<dots> = {k. k < length (jettys p') \<and> isIdle p' ! k}"
    using idl by (auto simp: p'(1) I(5))
  finally show "lanes_inv p'"
    using I(1-4) idle by (simp add: lanes_inv_def p'(1,2,4)) (simp add: p'(3))
  show "busy_set p' = insert j (busy_set p)"
    using idl i by (auto simp: busy_set_def p'(1) j)
qed

subsection \<open>Release\<close>

lemma ReleaseJetty_busy:
  assumes inv: "lanes_inv p" and j: "j \<in> busy_set p"
  shows "lanes_inv (ReleaseJetty (Some j) p)"
    and "idle_queue (ReleaseJetty (Some j) p) = idle_queue p @ [j]"
    and "busy_set (ReleaseJetty (Some j) p) = busy_set p - {j}"
    and "jettys (ReleaseJetty (Some j) p) = jettys p"
proof -
  note I = lanes_invD [OF inv]
  let ?q = "ReleaseJetty (Some j) p"
  obtain i where ij: "jettyIndices p j = Some i" "\<not> isIdle p ! i"
    using busy_set_iff [OF inv] j by auto
  then have i: "i < length (jettys p)" "jettys p ! i = j"
    using I(3) by auto
  have q: "jettys ?q = jettys p" "idleIndices ?q = idleIndices p @ [i]"
    "isIdle ?q = (isIdle p)[i := True]" "jettyIndices ?q = jettyIndices p"
    using ij by (simp_all add: ReleaseJetty_def)
  have idl: "isIdle ?q ! k \<longleftrightarrow> isIdle p ! k \<or> k = i" if "k < length (jettys p)" for k
    using that i I(1) by (auto simp: q nth_list_update)
  have notin: "i \<notin> set (idleIndices p)"
    using I(5) ij by auto
  have "set (idleIndices ?q) = insert i (set (idleIndices p))"
    by (simp add: q)
  also have "\<dots> = {k. k < length (jettys ?q) \<and> isIdle ?q ! k}"
    using idl i by (auto simp: q(1) I(5))
  finally show "lanes_inv ?q"
    using I(1-4) notin by (simp add: lanes_inv_def q(1,2,4)) (simp add: q(3))
  show "idle_queue ?q = idle_queue p @ [j]"
    by (simp add: idle_queue_def q i)
  show "busy_set ?q = busy_set p - {j}"
    using idl i I(2) by (auto simp: busy_set_def q(1) nth_eq_iff_index_eq)
  show "jettys ?q = jettys p"
    by (rule q)
qed

lemma ReleaseJetty_other:
  assumes "lanes_inv p" and "j \<notin> busy_set p"
  shows "ReleaseJetty (Some j) p = p"
  using assms busy_set_iff [OF assms(1), of j] by (auto simp: ReleaseJetty_def split: option.splits)

subsection \<open>Remove\<close>

text \<open>Deleting the element at \<open>k\<close> by moving the last element into its place.\<close>

definition swap_remove :: "nat \<Rightarrow> 'a list \<Rightarrow> 'a list" where
  "swap_remove k xs = butlast (xs[k := last xs])"

lemma swap_remove_nth:
  assumes "k < length xs" and "i < length xs - 1"
  shows "swap_remove k xs ! i = (if i = k then xs ! (length xs - 1) else xs ! i)"
proof -
  have "xs \<noteq> []"
    using assms(1) by auto
  then show ?thesis
    using assms by (simp add: swap_remove_def nth_butlast last_conv_nth)
qed

lemma length_swap_remove [simp]: "length (swap_remove k xs) = length xs - 1"
  by (simp add: swap_remove_def)

lemma Remove_found:
  assumes inv: "lanes_inv p" and k: "k < length (jettys p)" and j: "j = jettys p ! k"
    and rem: "Remove (Some j) p = (r, q)"
  defines "n \<equiv> length (jettys p) - 1"
  defines "mv \<equiv> \<lambda>i. if i = n then k else i"
  shows "r" and "jettys q = swap_remove k (jettys p)" and "isIdle q = swap_remove k (isIdle p)"
    and "idleIndices q = map mv (filter (\<lambda>i. i \<noteq> k) (idleIndices p))"
    and "jettyIndices q = (if k = n then (jettyIndices p)(j := None)
                           else (jettyIndices p)(j := None, jettys p ! n \<mapsto> k))"
proof -
  note I = lanes_invD [OF inv]
  have idx: "jettyIndices p j = Some k"
    using I(3) k j by auto
  have ne: "jettys p \<noteq> []" "isIdle p \<noteq> []"
    using k I(1) by auto
  have same: "map mv (filter (\<lambda>i. i \<noteq> k) xs) = filter (\<lambda>i. i \<noteq> k) xs" if "k = n" for xs
    using that by (auto simp: mv_def intro: map_idI)
  have last: "xs[k := last xs] = xs" if "k = length xs - 1" "xs \<noteq> []" for xs :: "'b list"
    using that by (simp add: last_conv_nth)
  show "r" "jettys q = swap_remove k (jettys p)" "isIdle q = swap_remove k (isIdle p)"
    "idleIndices q = map mv (filter (\<lambda>i. i \<noteq> k) (idleIndices p))"
    "jettyIndices q = (if k = n then (jettyIndices p)(j := None)
                       else (jettyIndices p)(j := None, jettys p ! n \<mapsto> k))"
    using rem idx ne I(1) same last [of "jettys p"] last [of "isIdle p"]
    by (auto simp: Remove_def Let_def n_def swap_remove_def last_conv_nth mv_def split: if_splits)
qed

lemma Remove_laws:
  assumes inv: "lanes_inv p" and j: "j \<in> set (jettys p)" and rem: "Remove (Some j) p = (r, q)"
  shows "r" and "lanes_inv q" and "idle_queue q = filter (\<lambda>x. x \<noteq> j) (idle_queue p)"
    and "busy_set q = busy_set p - {j}" and "set (jettys q) = set (jettys p) - {j}"
proof -
  note I = lanes_invD [OF inv]
  obtain k where k: "k < length (jettys p)" "j = jettys p ! k"
    using j by (auto simp: in_set_conv_nth)
  define n where "n = length (jettys p) - 1"
  define mv where "mv = (\<lambda>i. if i = n then k else i)"
  define src where "src = (\<lambda>i. if i = k then n else i)"
  note R = Remove_found [OF inv k rem, folded n_def, folded mv_def]
  show "r"
    by (rule R)
  have n: "length (jettys p) = Suc n" "k \<le> n"
    using k by (auto simp: n_def)
  have len: "length (jettys q) = n" "length (isIdle q) = n"
    using I(1) by (simp_all add: R n)
  have nth: "jettys q ! i = jettys p ! src i" "isIdle q ! i = isIdle p ! src i" if "i < n" for i
    using that k n I(1) by (simp_all add: R swap_remove_nth src_def)
  have src: "src i \<le> n" "src i \<noteq> k" "mv (src i) = i" if "i < n" for i
    using that n by (auto simp: src_def mv_def)
  have mv: "mv i < n" "src (mv i) = i" if "i \<le> n" "i \<noteq> k" for i
    using that n by (auto simp: src_def mv_def)
  have eqj: "jettys p ! i = jettys p ! i' \<longleftrightarrow> i = i'" if "i \<le> n" "i' \<le> n" for i i'
    using that I(2) n by (simp add: nth_eq_iff_index_eq)
  have jn: "jettys p ! i = j \<longleftrightarrow> i = k" if "i \<le> n" for i
    using that eqj k n by simp
  have idx: "jettyIndices q x = Some i \<longleftrightarrow> i < n \<and> jettys q ! i = x" for x i
  proof -
    have "jettyIndices q x = (if x = j then None else map_option mv (jettyIndices p x))"
    proof (cases "x = j")
      case True
      then show ?thesis
        using jn [of n] n by (auto simp: R)
    next
      case False
      have at: "jettyIndices p (jettys p ! i) = Some i" if "i \<le> n" for i
        using I(3) that n by simp
      show ?thesis
      proof (cases "jettyIndices p x")
        case None
        then have "x \<noteq> jettys p ! n"
          using at [of n] by auto
        then show ?thesis
          using None False by (simp add: R)
      next
        case (Some a)
        then have a: "a \<le> n" "x = jettys p ! a" "a \<noteq> k"
          using I(3) n k False by auto
        then show ?thesis
          using at [of a] False eqj [of a n] by (auto simp: R mv_def)
      qed
    qed
    then show ?thesis
      using I(3) [of x] src mv nth jn n by (auto simp: less_Suc_eq_le) (metis jn less_Suc_eq_le)+
  qed
  have idleset: "set (idleIndices p) = {i. i \<le> n \<and> isIdle p ! i}"
    unfolding I(5) n(1) less_Suc_eq_le ..
  have sub: "i \<le> n \<and> i \<noteq> k" if "i \<in> set (filter (\<lambda>i. i \<noteq> k) (idleIndices p))" for i
    using that idleset by auto
  have "inj_on mv (set (filter (\<lambda>i. i \<noteq> k) (idleIndices p)))"
    using sub mv(2) by (intro inj_on_inverseI [of _ src]) auto
  then have dist: "distinct (idleIndices q)"
    using I(4) by (simp add: R distinct_map)
  have idles: "set (idleIndices q) = {i. i < n \<and> isIdle q ! i}"
    using idleset mv src nth by (auto simp: R image_iff) metis+
  have "distinct (jettys q)"
    using eqj src nth len by (auto simp: distinct_conv_nth) metis
  then show "lanes_inv q"
    using len idx dist idles by (simp add: lanes_inv_def)
  show "idle_queue q = filter (\<lambda>x. x \<noteq> j) (idle_queue p)"
  proof -
    have "idle_queue q = map (\<lambda>i. jettys q ! mv i) (filter (\<lambda>i. i \<noteq> k) (idleIndices p))"
      by (simp add: idle_queue_def R(4))
    also have "\<dots> = map (\<lambda>i. jettys p ! i) (filter (\<lambda>i. i \<noteq> k) (idleIndices p))"
      using sub mv nth(1) by (intro map_cong) auto
    also have "filter (\<lambda>i. i \<noteq> k) (idleIndices p) = filter (\<lambda>i. jettys p ! i \<noteq> j) (idleIndices p)"
      using jn idleset by (intro filter_cong) auto
    finally show ?thesis
      by (simp add: idle_queue_def filter_map o_def)
  qed
  show "busy_set q = busy_set p - {j}"
    using len nth src mv jn n unfolding busy_set_def by (auto simp: less_Suc_eq_le) metis+
  show "set (jettys q) = set (jettys p) - {j}"
    using len nth src mv jn n by (auto simp: in_set_conv_nth less_Suc_eq_le) metis+
qed

lemma Remove_missing:
  assumes "lanes_inv p" and "j \<notin> set (jettys p)"
  shows "Remove (Some j) p = (False, p)"
proof -
  have "jettyIndices p j = None"
  proof (rule ccontr)
    assume "jettyIndices p j \<noteq> None"
    then obtain i where "jettyIndices p j = Some i"
      by blast
    then have "i < length (jettys p)" "jettys p ! i = j"
      using lanes_invD(3) [OF assms(1)] by blast+
    then show False
      using assms(2) nth_mem by blast
  qed
  then show ?thesis
    by (simp add: Remove_def)
qed

section \<open>The contract of the lanes\<close>

datatype lane_op = PopLane | PutLane "jetty option"

fun lane_step ::
  "('s \<Rightarrow> jetty option \<times> 's) \<Rightarrow> (jetty option \<Rightarrow> 's \<Rightarrow> 's) \<Rightarrow> lane_op \<Rightarrow> 's \<Rightarrow> jetty option \<times> 's" where
  "lane_step pop put PopLane s = pop s"
| "lane_step pop put (PutLane jo) s = (None, put jo s)"

text \<open>A history of a pool, and the lanes that are out: handed out and not yet put back.\<close>

fun lane_run ::
  "('s \<Rightarrow> jetty option \<times> 's) \<Rightarrow> (jetty option \<Rightarrow> 's \<Rightarrow> 's) \<Rightarrow> lane_op list \<Rightarrow> 's \<Rightarrow> jetty option list \<times> 's" where
  "lane_run pop put [] s = ([], s)"
| "lane_run pop put (x # xs) s =
     (case lane_step pop put x s of (out, s1) \<Rightarrow>
        (case lane_run pop put xs s1 of (outs, s2) \<Rightarrow> (out # outs, s2)))"

fun lanes_out :: "lane_op list \<Rightarrow> jetty option list \<Rightarrow> jetty set \<Rightarrow> jetty set" where
  "lanes_out (PopLane # ops) (Some j # outs) held = lanes_out ops outs (insert j held)"
| "lanes_out (PutLane (Some j) # ops) (out # outs) held = lanes_out ops outs (held - {j})"
| "lanes_out (x # ops) (out # outs) held = lanes_out ops outs held"
| "lanes_out _ _ held = held"

locale fifo_lanes =
  fixes inv :: "'s \<Rightarrow> bool" and idle :: "'s \<Rightarrow> jetty list" and busy :: "'s \<Rightarrow> jetty set"
    and pop :: "'s \<Rightarrow> jetty option \<times> 's" and put :: "jetty option \<Rightarrow> 's \<Rightarrow> 's"
  assumes inv_lanes: "inv s \<Longrightarrow> distinct (idle s) \<and> set (idle s) \<inter> busy s = {}"
    and pop_empty: "inv s \<Longrightarrow> idle s = [] \<Longrightarrow> pop s = (None, s)"
    and pop_some: "inv s \<Longrightarrow> idle s = j # js \<Longrightarrow> pop s = (r, s') \<Longrightarrow>
      r = Some j \<and> inv s' \<and> idle s' = js \<and> busy s' = insert j (busy s)"
    and put_busy: "inv s \<Longrightarrow> j \<in> busy s \<Longrightarrow>
      inv (put (Some j) s) \<and> idle (put (Some j) s) = idle s @ [j] \<and> busy (put (Some j) s) = busy s - {j}"
    and put_other: "inv s \<Longrightarrow> j \<notin> busy s \<Longrightarrow> put (Some j) s = s"
    and put_null: "put None s = s"
begin

lemma step_keeps:
  assumes "inv s" and "lane_step pop put x s = (out, s')"
  shows "inv s' \<and> set (idle s') \<union> busy s' = set (idle s) \<union> busy s \<and>
         lanes_out (x # ops) (out # outs) (busy s) = lanes_out ops outs (busy s')"
proof (cases x)
  case PopLane
  show ?thesis
  proof (cases "idle s")
    case Nil
    then show ?thesis
      using assms PopLane pop_empty by auto
  next
    case (Cons j js)
    then show ?thesis
      using assms PopLane pop_some [OF assms(1) Cons, of out s'] by auto
  qed
next
  case (PutLane jo)
  show ?thesis
  proof (cases jo)
    case None
    then show ?thesis
      using assms PutLane put_null by simp
  next
    case (Some j)
    then show ?thesis
      using assms PutLane put_busy [of s j] put_other [of s j] by (cases "j \<in> busy s") auto
  qed
qed

lemma run_keeps:
  assumes "inv s" and "lane_run pop put ops s = (outs, s')"
  shows "inv s' \<and> set (idle s') \<union> busy s' = set (idle s) \<union> busy s \<and> lanes_out ops outs (busy s) = busy s'"
  using assms
proof (induction ops arbitrary: s outs)
  case (Cons x ops)
  obtain out s1 where step: "lane_step pop put x s = (out, s1)"
    by (cases "lane_step pop put x s")
  obtain os s2 where run: "lane_run pop put ops s1 = (os, s2)"
    by (cases "lane_run pop put ops s1")
  have eqs: "outs = out # os" "s2 = s'"
    using Cons.prems step run by auto
  note K = step_keeps [OF Cons.prems(1) step, of ops os]
  show ?case
    using Cons.IH [of s1 os] K run by (simp add: eqs)
qed simp

text \<open>A lane is never handed to a second holder.\<close>

lemma exclusive:
  assumes "inv s" and "lane_run pop put ops s = (outs, s1)" and "pop s1 = (Some j, s2)"
  shows "j \<notin> lanes_out ops outs (busy s)"
proof -
  have s1: "inv s1" "lanes_out ops outs (busy s) = busy s1"
    using run_keeps [OF assms(1,2)] by auto
  show ?thesis
  proof (cases "idle s1")
    case Nil
    then show ?thesis
      using pop_empty [OF s1(1)] assms(3) by simp
  next
    case (Cons k js)
    then show ?thesis
      using pop_some [OF s1(1) Cons assms(3)] inv_lanes [OF s1(1)] s1(2) by auto
  qed
qed

text \<open>Lanes are served in the order they became idle.\<close>

lemma pops_in_order:
  assumes "inv s" and "n \<le> length (idle s)" and "lane_run pop put (replicate n PopLane) s = (outs, s')"
  shows "outs = map Some (take n (idle s)) \<and> inv s' \<and> idle s' = drop n (idle s) \<and>
         busy s' = busy s \<union> set (take n (idle s))"
  using assms
proof (induction n arbitrary: s outs)
  case (Suc n)
  obtain j js where q: "idle s = j # js"
    using Suc.prems(2) by (cases "idle s") auto
  obtain r s1 where pop: "pop s = (r, s1)"
    by (cases "pop s")
  note P = pop_some [OF Suc.prems(1) q pop]
  obtain os where run: "lane_run pop put (replicate n PopLane) s1 = (os, s')" and outs: "outs = r # os"
    using Suc.prems(3) pop by (auto split: prod.splits)
  show ?case
    using Suc.IH [OF _ _ run] P Suc.prems(2) by (auto simp: outs q)
qed simp

lemma puts_in_order:
  assumes "inv s" and "distinct js" and "set js \<subseteq> busy s"
    and "lane_run pop put (map (\<lambda>j. PutLane (Some j)) js) s = (outs, s')"
  shows "inv s' \<and> idle s' = idle s @ js \<and> busy s' = busy s - set js"
  using assms
proof (induction js arbitrary: s outs)
  case (Cons j js)
  let ?s1 = "put (Some j) s"
  note P = put_busy [OF Cons.prems(1), of j]
  obtain os where run: "lane_run pop put (map (\<lambda>j. PutLane (Some j)) js) ?s1 = (os, s')"
    using Cons.prems(4) by (auto split: prod.splits)
  show ?case
    using Cons.IH [OF _ _ _ run] P Cons.prems by auto
qed simp

end

interpretation lanes: fifo_lanes lanes_inv idle_queue busy_set PopIdle ReleaseJetty
proof
  fix s assume "lanes_inv s"
  then show "distinct (idle_queue s) \<and> set (idle_queue s) \<inter> busy_set s = {}"
    using idle_queue_distinct idle_busy_disjoint(1) by simp
next
  fix s assume "lanes_inv s" "idle_queue s = []"
  then show "PopIdle s = (None, s)"
    by (intro PopIdle_empty)
next
  fix s j js r s' assume a: "lanes_inv s" "idle_queue s = j # js" "PopIdle s = (r, s')"
  show "r = Some j \<and> lanes_inv s' \<and> idle_queue s' = js \<and> busy_set s' = insert j (busy_set s)"
    using PopIdle_some [OF a] by simp
next
  fix s j assume a: "lanes_inv s" "j \<in> busy_set s"
  show "lanes_inv (ReleaseJetty (Some j) s) \<and> idle_queue (ReleaseJetty (Some j) s) = idle_queue s @ [j] \<and>
      busy_set (ReleaseJetty (Some j) s) = busy_set s - {j}"
    using ReleaseJetty_busy [OF a] by simp
next
  fix s j assume a: "lanes_inv s" "j \<notin> busy_set s"
  show "ReleaseJetty (Some j) s = s"
    by (rule ReleaseJetty_other [OF a])
next
  fix s show "ReleaseJetty None s = s"
    by (simp add: ReleaseJetty_def)
qed

section \<open>Properties\<close>

text \<open>C9: A send lane is never handed out twice. In every interleaving of the workers'
  acquisitions and releases (each under the mutex), the lane that an acquisition returns
  is not one of those that are out, where releasing a null pointer, an idle lane or a lane
  of another pool changes nothing.\<close>

theorem lane_exclusive:
  assumes inv: "lanes_inv p" and run: "lane_run PopIdle ReleaseJetty ops p = (outs, p1)"
    and pop: "PopIdle p1 = (Some j, p2)"
  shows "j \<notin> lanes_out ops outs (busy_set p) \<and> j \<in> set (jettys p1) \<and>
         busy_set p1 = lanes_out ops outs (busy_set p)"
proof -
  note K = lanes.run_keeps [OF inv run]
  obtain k js where q: "idle_queue p1 = k # js"
    using pop PopIdle_empty [of p1] by (cases "idle_queue p1") auto
  have "j = k"
    using PopIdle_some(1) [of p1 k js "Some j" p2] K q pop by simp
  then have "j \<in> set (jettys p1)"
    using idle_busy_disjoint(2) [of p1] K q by auto
  then show ?thesis
    using lanes.exclusive [OF inv run pop] K by simp
qed

text \<open>Lanes rotate: taking \<open>n\<close> lanes gives the \<open>n\<close> that have been idle longest, in
  that order, and giving them back in the same order puts them behind all the others.\<close>

theorem lanes_rotate:
  assumes inv: "lanes_inv p" and n: "n \<le> length (idle_queue p)"
    and pops: "lane_run PopIdle ReleaseJetty (replicate n PopLane) p = (outs, p1)"
    and puts: "lane_run PopIdle ReleaseJetty (map PutLane outs) p1 = (outs', p2)"
  shows "outs = map Some (take n (idle_queue p)) \<and>
         idle_queue p2 = drop n (idle_queue p) @ take n (idle_queue p) \<and> busy_set p2 = busy_set p"
proof -
  note P = lanes.pops_in_order [OF inv n pops]
  let ?js = "take n (idle_queue p)"
  have "map PutLane outs = map (\<lambda>j. PutLane (Some j)) ?js"
    using P by simp
  then have puts': "lane_run PopIdle ReleaseJetty (map (\<lambda>j. PutLane (Some j)) ?js) p1 = (outs', p2)"
    using puts by (simp only:)
  have "lanes_inv p1" "distinct ?js" "set ?js \<subseteq> busy_set p1"
    using lanes.inv_lanes [OF inv] P by auto
  note Q = lanes.puts_in_order [OF this puts']
  have "set ?js \<inter> busy_set p = {}"
    using lanes.inv_lanes [OF inv] set_take_subset [of n "idle_queue p"] by auto
  then show ?thesis
    using P Q by auto
qed

text \<open>C20: The pool implements a FIFO queue of idle lanes and a set of busy ones. Adding a
  new jetty enqueues it, removing one (by moving the last into its place) deletes exactly it
  and keeps the queue order, removing a jetty that is not there returns false and changes
  nothing, and every operation keeps the invariant.\<close>

theorem add_remove_refine:
  assumes inv: "lanes_inv p"
  shows "(j \<notin> set (jettys p) \<longrightarrow>
            lanes_inv (Add j p) \<and> idle_queue (Add j p) = idle_queue p @ [j] \<and>
            busy_set (Add j p) = busy_set p \<and> Remove (Some j) p = (False, p)) \<and>
         (j \<in> set (jettys p) \<longrightarrow>
            (case Remove (Some j) p of (r, q) \<Rightarrow>
               r \<and> lanes_inv q \<and> idle_queue q = filter (\<lambda>x. x \<noteq> j) (idle_queue p) \<and>
               busy_set q = busy_set p - {j} \<and> set (jettys q) = set (jettys p) - {j}))"
proof (cases "j \<in> set (jettys p)")
  case True
  obtain r q where rem: "Remove (Some j) p = (r, q)"
    by (cases "Remove (Some j) p")
  show ?thesis
    using True Remove_laws [OF inv True rem] by (simp add: rem)
next
  case False
  then show ?thesis
    using Add_laws [OF inv False] Remove_missing [OF inv False] by simp
qed

lemma lane_counts:
  assumes inv: "lanes_inv p"
  shows "length (jettys p) = length (idle_queue p) + card (busy_set p)"
proof -
  have "card (set (jettys p)) = card (set (idle_queue p) \<union> busy_set p)"
    by (simp add: idle_busy_disjoint(2) [OF inv])
  also have "finite (busy_set p)"
    by (rule finite_subset [of _ "set (jettys p)"]) (use idle_busy_disjoint(2) [OF inv] in auto)
  then have "card (set (idle_queue p) \<union> busy_set p) = card (set (idle_queue p)) + card (busy_set p)"
    using idle_busy_disjoint(1) [OF inv] by (intro card_Un_disjoint) auto
  finally show ?thesis
    using distinct_card [OF idle_queue_distinct [OF inv]] distinct_card [OF lanes_invD(2) [OF inv]] by simp
qed

text \<open>The statistics are exact: in any state reachable by acquisitions and releases, the
  reported sizes are the number of idle lanes and the number of lanes that are out, and they
  add up to the size of the pool; an acquisition fails only when no lane is idle.\<close>

theorem stats_exact:
  assumes inv: "lanes_inv p" and run: "lane_run PopIdle ReleaseJetty ops p = (outs, q)"
  shows "idleCount (GetStats q) = length (idle_queue q) \<and>
         inUseCount (GetStats q) = card (lanes_out ops outs (busy_set p)) \<and>
         poolSize (GetStats q) = idleCount (GetStats q) + inUseCount (GetStats q) \<and>
         (fst (PopIdle q) = None \<longleftrightarrow> idleCount (GetStats q) = 0)"
proof -
  note K = lanes.run_keeps [OF inv run]
  have "fst (PopIdle q) = None \<longleftrightarrow> idle_queue q = []"
    using PopIdle_empty [of q] PopIdle_some(1) [of q] K
    by (cases "idle_queue q"; cases "PopIdle q") auto
  moreover have "length (idleIndices q) = length (idle_queue q)"
    by (simp add: idle_queue_def)
  ultimately show ?thesis
    using lane_counts [of q] K by (auto simp: GetStats_def Let_def)
qed

section \<open>Witnesses\<close>

definition two_lanes :: send_pool where
  "two_lanes = Add 20 (Add 10 SendJettyPool_init)"

lemma two_lanes_inv: "lanes_inv two_lanes" "idle_queue two_lanes = [10, 20]" "busy_set two_lanes = {}"
  "jettys two_lanes = [10, 20]"
proof -
  have a: "lanes_inv (Add 10 SendJettyPool_init)" "idle_queue (Add 10 SendJettyPool_init) = [10]"
    "jettys (Add 10 SendJettyPool_init) = [10]" "busy_set (Add 10 SendJettyPool_init) = {}"
    using Add_laws [OF lanes_inv_init, of 10]
    by (simp_all add: SendJettyPool_init_def idle_queue_def busy_set_def)
  then show "lanes_inv two_lanes" "idle_queue two_lanes = [10, 20]" "busy_set two_lanes = {}"
    "jettys two_lanes = [10, 20]"
    using Add_laws [OF a(1), of 20] by (simp_all add: two_lanes_def)
qed

theorem lane_exclusive_witness:
  "\<exists>p1 p2. lane_run PopIdle ReleaseJetty [PopLane] two_lanes = ([Some 10], p1) \<and>
     PopIdle p1 = (Some 20, p2) \<and> 20 \<notin> lanes_out [PopLane] [Some 10] (busy_set two_lanes)"
proof -
  obtain p1 where p1: "PopIdle two_lanes = (Some 10, p1)" "idle_queue p1 = [20]" "lanes_inv p1"
    using lanes.pop_some [OF two_lanes_inv(1,2)] by (cases "PopIdle two_lanes") auto
  obtain p2 where p2: "PopIdle p1 = (Some 20, p2)"
    using lanes.pop_some [OF p1(3,2)] by (cases "PopIdle p1") auto
  have run: "lane_run PopIdle ReleaseJetty [PopLane] two_lanes = ([Some 10], p1)"
    by (simp add: p1)
  from lane_exclusive [OF two_lanes_inv(1) run p2] run p2 show ?thesis
    by blast
qed

theorem lanes_rotate_witness:
  "\<exists>p1 p2 o2. lane_run PopIdle ReleaseJetty (replicate 1 PopLane) two_lanes = ([Some 10], p1) \<and>
     lane_run PopIdle ReleaseJetty (map PutLane [Some 10]) p1 = (o2, p2) \<and> idle_queue p2 = [20, 10]"
proof -
  obtain o1 p1 where r1: "lane_run PopIdle ReleaseJetty (replicate 1 PopLane) two_lanes = (o1, p1)"
    by (cases "lane_run PopIdle ReleaseJetty (replicate 1 PopLane) two_lanes")
  obtain o2 p2 where r2: "lane_run PopIdle ReleaseJetty (map PutLane o1) p1 = (o2, p2)"
    by (cases "lane_run PopIdle ReleaseJetty (map PutLane o1) p1")
  have "o1 = [Some 10]" "idle_queue p2 = [20, 10]"
    using lanes_rotate [OF two_lanes_inv(1) _ r1 r2] by (simp_all add: two_lanes_inv(2))
  then show ?thesis
    using r1 r2 by blast
qed

theorem add_remove_refine_witness:
  "case Remove (Some 10) two_lanes of (r, q) \<Rightarrow> r \<and> idle_queue q = [20] \<and> set (jettys q) = {20}"
  using add_remove_refine [OF two_lanes_inv(1), of 10] by (auto simp: two_lanes_inv)

theorem stats_exact_witness:
  "\<exists>q. lane_run PopIdle ReleaseJetty [PopLane] two_lanes = ([Some 10], q) \<and>
       idleCount (GetStats q) = length (idle_queue q)"
proof -
  obtain p1 where p1: "PopIdle two_lanes = (Some 10, p1)"
    using lanes.pop_some [OF two_lanes_inv(1,2)] by (cases "PopIdle two_lanes") auto
  then have run: "lane_run PopIdle ReleaseJetty [PopLane] two_lanes = ([Some 10], p1)"
    by simp
  from stats_exact [OF two_lanes_inv(1) run] run show ?thesis
    by blast
qed

end
