(* ===== verification/Clock.thy ===== *)
theory Clock
  imports KV_Prelude Fp_Double
begin

text \<open>
  The cycle-counter clock of \<^verbatim>\<open>src/clock.cpp\<close>: choosing a multiplier and a shift for a counter
  frequency, the fallback calibration, and reading the time. The counter, its frequency
  register and \<^verbatim>\<open>clock_gettime\<close> are hardware and operating system: their readings are
  arguments. The globals \<^verbatim>\<open>g_mult\<close>, \<^verbatim>\<open>g_shift\<close>, \<^verbatim>\<open>g_freq_hz\<close> are a record.
\<close>

section \<open>The code\<close>

record clock_state =
  g_mult :: u64
  g_shift :: nat
  g_freq_hz :: u64

definition clock_start :: clock_state where
  "clock_start = \<lparr>g_mult = 0, g_shift = 0, g_freq_hz = 0\<rparr>"

abbreviation kNsPerSec :: u64 where "kNsPerSec \<equiv> 1000000000"

abbreviation kMaxSec :: u64 where "kMaxSec \<equiv> 600"

text \<open>The first loop of \<^verbatim>\<open>CalcMultShift\<close>: one bit of the multiplier less per bit of the bound.\<close>

function mult_bits :: "u64 \<Rightarrow> nat \<Rightarrow> nat" where
  "mult_bits tmp sftacc = (if tmp > 0 then mult_bits (drop_bit 1 tmp) (sftacc - 1) else sftacc)"
  by auto

termination mult_bits
proof (relation "measure (\<lambda>(tmp, sftacc). unat tmp)")
  fix tmp :: u64 and sftacc :: nat
  assume "tmp > 0"
  then have "0 < unat tmp"
    by (simp add: word_less_nat_alt)
  then have "unat tmp div 2 ^ 1 < unat tmp"
    by simp
  then show "((drop_bit 1 tmp, sftacc - 1), tmp, sftacc) \<in> measure (\<lambda>(tmp, sftacc). unat tmp)"
    unfolding in_measure split_conv unat_drop_bit_u64 .
qed simp

declare mult_bits.simps [simp del]

definition mult_for :: "u64 \<Rightarrow> nat \<Rightarrow> u64" where
  "mult_for freq sft = (push_bit sft kNsPerSec + freq div 2) div freq"

text \<open>The second loop, counting the shift down; the last multiplier tried is what remains if
  no shift fits.\<close>

primrec find_shift :: "u64 \<Rightarrow> nat \<Rightarrow> nat \<Rightarrow> u64 \<Rightarrow> u64 \<times> nat" where
  "find_shift freq sftacc 0 tmp = (tmp, 0)"
| "find_shift freq sftacc (Suc n) tmp =
     (let tmp1 = mult_for freq (Suc n)
      in if drop_bit sftacc tmp1 = 0 then (tmp1, Suc n) else find_shift freq sftacc n tmp1)"

definition CalcMultShift :: "u64 \<Rightarrow> clock_state \<Rightarrow> clock_state" where
  "CalcMultShift freq st =
     (if freq = 0 then st\<lparr>g_mult := 0, g_shift := 0\<rparr>
      else
        let tmp = drop_bit 32 (kMaxSec * freq);
            sftacc = mult_bits tmp 32;
            (m, s) = find_shift freq sftacc 32 0
        in st\<lparr>g_mult := m, g_shift := s\<rparr>)"

text \<open>The regression of \<^verbatim>\<open>CalibrateFreq\<close> on the measured (nanoseconds, cycles) pairs. The
  rounding of \<^verbatim>\<open>long double\<close> depends on the platform and is an argument.\<close>

fun regression_sums :: "(rat \<Rightarrow> rat) \<Rightarrow> (u64 \<times> u64) list \<Rightarrow> rat \<times> rat \<times> rat \<times> rat \<Rightarrow> rat \<times> rat \<times> rat \<times> rat" where
  "regression_sums ld [] acc = acc"
| "regression_sums ld ((x, y) # ps) (sx, sy, sxx, sxy) =
     (let tx = ld (of_nat (unat x)); ty = ld (of_nat (unat y))
      in regression_sums ld ps
           (ld (sx + tx), ld (sy + ty), ld (sxx + ld (tx * tx)), ld (sxy + ld (tx * ty))))"

definition CalibrateFreq :: "(rat \<Rightarrow> rat) \<Rightarrow> (u64 \<times> u64) list \<Rightarrow> u64" where
  "CalibrateFreq ld samples =
     (let (sx, sy, sxx, sxy) = regression_sums ld samples (0, 0, 0, 0)
      in if ld (200 * sxx) \<le> ld (sx * sx) then 0
         else
           let b = ld (ld (ld (200 * sxy) - ld (sx * sy)) / ld (ld (200 * sxx) - ld (sx * sx)))
           in if b \<le> 0 then 0 else word_of_int \<lfloor>ld (b * 1000000000)\<rfloor>)"

text \<open>\<open>cntfrq\<close> is what \<^verbatim>\<open>ReadCntfrq\<close> reads (0 where the register does not exist).\<close>

definition kv_clock_init :: "(rat \<Rightarrow> rat) \<Rightarrow> u64 \<Rightarrow> (u64 \<times> u64) list \<Rightarrow> clock_state \<Rightarrow> clock_state" where
  "kv_clock_init ld cntfrq samples st =
     (if g_mult st \<noteq> 0 then st
      else
        let st1 = st\<lparr>g_freq_hz := cntfrq\<rparr>;
            st2 = (if g_freq_hz st1 \<noteq> 0 then CalcMultShift (g_freq_hz st1) st1 else st1)
        in if g_mult st2 = 0
           then let st3 = st2\<lparr>g_freq_hz := CalibrateFreq ld samples\<rparr>
                in if g_freq_hz st3 \<noteq> 0 then CalcMultShift (g_freq_hz st3) st3 else st3
           else st2)"

definition kv_now_ns :: "clock_state \<Rightarrow> u64 \<Rightarrow> u64 \<Rightarrow> u64 \<Rightarrow> u64" where
  "kv_now_ns st cycles tv_sec tv_nsec =
     (if g_mult st = 0 then tv_sec * kNsPerSec + tv_nsec
      else drop_bit (g_shift st) (cycles * g_mult st))"

section \<open>The multiplier\<close>

lemma mult_bits_floorlog: "mult_bits tmp sftacc = sftacc - floorlog 2 (unat tmp)"
proof (induction tmp sftacc rule: mult_bits.induct)
  case (1 tmp sftacc)
  show ?case
  proof (cases "tmp > 0")
    case True
    then have pos: "0 < unat tmp"
      by (simp add: word_less_nat_alt)
    have "floorlog 2 (unat tmp) = Suc (floorlog 2 (unat tmp div 2))"
      using pos compute_floorlog [of 2 "unat tmp"] by simp
    then show ?thesis
      using 1 [OF True] True by (subst mult_bits.simps) (simp add: unat_drop_bit_u64)
  next
    case False
    then have "unat tmp = 0"
      by (simp add: word_less_nat_alt unat_eq_0)
    then show ?thesis
      using False by (subst mult_bits.simps) (simp add: floorlog_def)
  qed
qed

text \<open>The bound on the multiplier keeps \<open>600\<close> seconds of cycles within 64 bits.\<close>

lemma mult_bits_bound:
  assumes "unat freq * 600 < 2 ^ 64"
  defines "k \<equiv> mult_bits (drop_bit 32 (kMaxSec * freq)) 32"
  shows "k \<le> 32" and "unat freq * 600 < 2 ^ (64 - k)" and "k < 32 \<Longrightarrow> 2 ^ (63 - k) \<le> unat freq * 600"
proof -
  let ?t = "unat freq * 600 div 2 ^ 32"
  have "unat (kMaxSec * freq) = unat freq * 600"
    using assms(1) by (simp add: unat_word_ariths mult.commute)
  then have k: "k = 32 - floorlog 2 ?t"
    by (simp add: k_def mult_bits_floorlog unat_drop_bit_u64)
  have "?t < 2 ^ 32"
    using assms(1) by (simp add: less_mult_imp_div_less)
  then have f: "floorlog 2 ?t \<le> 32"
    by (simp only: floorlog_2_le_iff)
  show "k \<le> 32"
    by (simp add: k)
  have "?t < 2 ^ floorlog 2 ?t"
    using floorlog_2_le_iff [of ?t "floorlog 2 ?t"] by simp
  then have "unat freq * 600 < 2 ^ floorlog 2 ?t * 2 ^ 32"
    by (rule div_less_iff_less_mult [THEN iffD1, rotated]) simp
  also have "\<dots> = 2 ^ (floorlog 2 ?t + 32)"
    by (simp only: power_add)
  also have "floorlog 2 ?t + 32 = 64 - k"
    using f k by linarith
  finally show "unat freq * 600 < 2 ^ (64 - k)" .
  show "2 ^ (63 - k) \<le> unat freq * 600" if "k < 32"
  proof -
    have "0 < ?t"
    proof (rule ccontr)
      assume "\<not> 0 < ?t"
      then have "floorlog 2 ?t = 0"
        by (simp only: not_gr_zero floorlog_def) simp
      then show False
        using that k by linarith
    qed
    then have "2 ^ (floorlog 2 ?t - 1) \<le> ?t"
      using floorlog_2_bounds(1) by blast
    then have "2 ^ (floorlog 2 ?t - 1) * 2 ^ 32 \<le> ?t * 2 ^ 32"
      by (rule mult_right_mono) simp
    also have "\<dots> \<le> unat freq * 600"
      by (rule div_times_less_eq_dividend)
    also have "2 ^ (floorlog 2 ?t - 1) * 2 ^ 32 = (2 :: nat) ^ (floorlog 2 ?t - 1 + 32)"
      by (simp only: power_add)
    also have "floorlog 2 ?t - 1 + 32 = 63 - k"
      using that f k by linarith
    finally show ?thesis .
  qed
qed

lemma mult_for_unat:
  assumes "s \<le> 32"
  shows "unat (mult_for freq s) = (1000000000 * 2 ^ s + unat freq div 2) div unat freq"
proof -
  have "(2 :: nat) ^ s \<le> 2 ^ 32"
    using assms by (intro power_increasing) auto
  then have small: "1000000000 * 2 ^ s < (2 :: nat) ^ 63"
    by simp
  have p: "unat (push_bit s kNsPerSec :: u64) = 1000000000 * 2 ^ s"
    using small by (subst unat_push_bit_u64) simp_all
  have "unat (freq div 2) = unat freq div 2"
    by (simp add: unat_div_distrib)
  moreover have "unat freq div 2 < 2 ^ 63"
    using unat_u64_less [of freq] by simp
  ultimately have "unat (push_bit s kNsPerSec + freq div 2) = 1000000000 * 2 ^ s + unat freq div 2"
    using p small by (subst unat_add_u64) simp_all
  then show ?thesis
    by (simp add: mult_for_def unat_div_distrib)
qed

lemma drop_bit_0_iff: "drop_bit k (w :: u64) = 0 \<longleftrightarrow> unat w < 2 ^ k"
proof -
  have "drop_bit k w = 0 \<longleftrightarrow> unat (drop_bit k w) = 0"
    by (simp add: unat_eq_0)
  also have "\<dots> \<longleftrightarrow> unat w < 2 ^ k"
    by (simp add: unat_drop_bit_u64 div_eq_0_iff)
  finally show ?thesis .
qed

text \<open>A shift of 1 always fits, so the second loop always breaks.\<close>

lemma shift_1_fits:
  assumes f: "0 < unat freq" "unat freq * 600 < 2 ^ 64"
  shows "unat (mult_for freq 1) < 2 ^ mult_bits (drop_bit 32 (kMaxSec * freq)) 32"
proof -
  define k where "k = mult_bits (drop_bit 32 (kMaxSec * freq)) 32"
  let ?f = "unat freq"
  note B = mult_bits_bound [OF f(2), folded k_def]
  have "2000000000 + ?f div 2 < 2 ^ k * ?f"
  proof (cases "k < 32")
    case True
    have "2 ^ 63 = (2 :: nat) ^ k * 2 ^ (63 - k)"
      using True by (simp flip: power_add)
    also have "\<dots> \<le> 2 ^ k * (?f * 600)"
      using B(3) [OF True] by (intro mult_left_mono) auto
    finally have "2 ^ 63 \<le> 600 * (2 ^ k * ?f)"
      by (simp add: mult.commute mult.left_commute)
    then have big: "4000000000 < 2 ^ k * ?f"
      by (simp add: mult.commute)
    have "?f \<le> 2 ^ k * ?f"
      by simp
    with big show ?thesis
      by linarith
  next
    case False
    then have "k = 32"
      using B(1) by linarith
    then show ?thesis
      using f(1) by simp
  qed
  then have "(2000000000 + ?f div 2) div ?f < 2 ^ k"
    using f(1) by (simp only: div_less_iff_less_mult)
  moreover have "unat (mult_for freq 1) = (2000000000 + ?f div 2) div ?f"
    by (subst mult_for_unat) simp_all
  ultimately show ?thesis
    by (simp only: k_def)
qed

lemma find_shift_breaks:
  assumes "unat (mult_for freq 1) < 2 ^ k"
  shows "\<exists>s. 1 \<le> s \<and> s \<le> Suc n \<and> find_shift freq k (Suc n) tmp = (mult_for freq s, s) \<and> unat (mult_for freq s) < 2 ^ k"
proof (induction n arbitrary: tmp)
  case 0
  then show ?case
    using assms by (auto simp: drop_bit_0_iff)
next
  case (Suc n)
  show ?case
  proof (cases "unat (mult_for freq (Suc (Suc n))) < 2 ^ k")
    case True
    then show ?thesis
      by (intro exI [of _ "Suc (Suc n)"]) (simp add: drop_bit_0_iff)
  next
    case False
    then have eq: "find_shift freq k (Suc (Suc n)) tmp = find_shift freq k (Suc n) (mult_for freq (Suc (Suc n)))"
      by (simp add: drop_bit_0_iff Let_def)
    show ?thesis
      unfolding eq using Suc [of "mult_for freq (Suc (Suc n))"] le_SucI by blast
  qed
qed

lemma CalcMultShift_fits:
  assumes f: "0 < unat freq" "unat freq * 600 < 2 ^ 64"
  obtains s where "1 \<le> s" "s \<le> 32" "CalcMultShift freq st = st\<lparr>g_mult := mult_for freq s, g_shift := s\<rparr>"
    and "unat freq * 600 * unat (mult_for freq s) < 2 ^ 64" and "unat (mult_for freq s) < 2 ^ 32"
proof -
  define k where "k = mult_bits (drop_bit 32 (kMaxSec * freq)) 32"
  note B = mult_bits_bound [OF f(2), folded k_def]
  have "unat (mult_for freq 1) < 2 ^ k"
    using shift_1_fits [OF f] by (simp add: k_def)
  then obtain s where s: "1 \<le> s" "s \<le> Suc 31" "find_shift freq k (Suc 31) 0 = (mult_for freq s, s)"
    "unat (mult_for freq s) < 2 ^ k"
    using find_shift_breaks by blast
  have "unat freq * 600 * unat (mult_for freq s) < 2 ^ (64 - k) * 2 ^ k"
    using B(2) s(4) by (intro mult_strict_mono) auto
  also have "\<dots> = 2 ^ 64"
    using B(1) by (simp flip: power_add)
  finally have no: "unat freq * 600 * unat (mult_for freq s) < 2 ^ 64" .
  have "(2 :: nat) ^ k \<le> 2 ^ 32"
    using B(1) by (intro power_increasing) simp_all
  then have small: "unat (mult_for freq s) < 2 ^ 32"
    using s(4) by linarith
  have "freq \<noteq> 0"
    using f(1) by auto
  moreover have "find_shift freq k 32 0 = (mult_for freq s, s)"
    using s(3) by (simp del: find_shift.simps)
  ultimately have "CalcMultShift freq st = st\<lparr>g_mult := mult_for freq s, g_shift := s\<rparr>"
    by (simp add: CalcMultShift_def Let_def k_def [symmetric] del: find_shift.simps)
  then show ?thesis
    using that s(1,2) no small by simp
qed

lemma now_ns_unat:
  assumes "g_mult st \<noteq> 0" and "unat c * unat (g_mult st) < 2 ^ 64"
  shows "unat (kv_now_ns st c sec nsec) = unat c * unat (g_mult st) div 2 ^ g_shift st"
  using assms by (simp add: kv_now_ns_def unat_drop_bit_u64 unat_word_ariths)

text \<open>Rounded division and fixed-point scaling, in rational numbers.\<close>

lemma rounded_ratio_near:
  fixes f n :: nat
  assumes f: "0 < f"
  shows "\<bar>of_nat ((n + f div 2) div f) - of_nat n / of_nat f\<bar> \<le> (1 :: rat)"
proof -
  let ?m = "(n + f div 2) div f"
  have "?m * f \<le> n + f div 2"
    by simp
  then have "?m * f \<le> n + f"
    by linarith
  moreover have "n + f div 2 < (?m + 1) * f"
    using f by (simp add: dividend_less_div_times distrib_right)
  then have "n \<le> ?m * f + f"
    by (simp add: distrib_right)
  ultimately have "(of_nat (?m * f) :: rat) \<le> of_nat (n + f)" "(of_nat n :: rat) \<le> of_nat (?m * f + f)"
    by (simp_all only: of_nat_le_iff)
  then show ?thesis
    using f by (simp add: abs_le_iff field_simps)
qed

lemma fixed_point_near:
  fixes c m s :: nat and r :: rat
  assumes "\<bar>of_nat m - r * 2 ^ s\<bar> \<le> 1"
  shows "\<bar>of_nat (c * m div 2 ^ s) - of_nat c * r\<bar> \<le> 1 + of_nat c / 2 ^ s"
proof -
  let ?q = "c * m div 2 ^ s" and ?c = "of_nat c :: rat" and ?P = "2 ^ s :: rat"
  have "?q * 2 ^ s \<le> c * m" "c * m < (?q + 1) * 2 ^ s"
    by (simp_all add: dividend_less_div_times distrib_right)
  then have "of_nat (?q * 2 ^ s) \<le> (of_nat (c * m) :: rat)" "of_nat (c * m) < (of_nat ((?q + 1) * 2 ^ s) :: rat)"
    by (simp_all only: of_nat_le_iff of_nat_less_iff)
  then have q: "\<bar>of_nat ?q - ?c * of_nat m / ?P\<bar> \<le> 1"
    by (simp add: abs_le_iff field_simps)
  have "?c / ?P * \<bar>of_nat m - r * ?P\<bar> \<le> ?c / ?P * 1"
    using assms by (intro mult_left_mono) auto
  moreover have "?c * of_nat m / ?P - ?c * r = ?c / ?P * (of_nat m - r * ?P)"
    by (simp add: field_simps)
  ultimately have "\<bar>?c * of_nat m / ?P - ?c * r\<bar> \<le> ?c / ?P"
    by (simp add: abs_mult)
  then show ?thesis
    using q by linarith
qed

section \<open>Properties\<close>

text \<open>C11: The clock is accurate while it does not wrap. For any counter frequency whose 600 seconds
  fit in 64 bits and that gets a multiplier, the search finds a shift, the product of 600
  seconds of cycles with the multiplier fits in 64 bits, and for every counter value whose
  product with the multiplier fits in 64 bits the time reported is within one nanosecond plus
  one part in \<open>2 ^ shift\<close> of a nanosecond per cycle of the exact conversion.\<close>

theorem now_ns_accurate:
  assumes f: "0 < unat freq" "unat freq * 600 < 2 ^ 64"
  defines "st \<equiv> CalcMultShift freq clock_start"
  assumes m: "g_mult st \<noteq> 0"
  shows "1 \<le> g_shift st \<and> g_shift st \<le> 32 \<and> unat freq * 600 * unat (g_mult st) < 2 ^ 64 \<and>
         (\<forall>c. unat c * unat (g_mult st) < 2 ^ 64 \<longrightarrow>
            \<bar>of_nat (unat (kv_now_ns st c sec nsec)) - of_nat (unat c) * 1000000000 / of_nat (unat freq)\<bar>
              \<le> (1 + of_nat (unat c) / 2 ^ g_shift st :: rat))"
proof -
  obtain s where s: "1 \<le> s" "s \<le> 32" and st: "st = clock_start\<lparr>g_mult := mult_for freq s, g_shift := s\<rparr>"
    and no: "unat freq * 600 * unat (mult_for freq s) < 2 ^ 64"
    using CalcMultShift_fits [OF f, of clock_start] unfolding st_def by metis
  let ?m = "unat (mult_for freq s)" and ?r = "1000000000 / of_nat (unat freq) :: rat"
  have "of_nat (1000000000 * 2 ^ s) / of_nat (unat freq) = ?r * 2 ^ s"
    by (simp only: of_nat_mult of_nat_power of_nat_numeral times_divide_eq_left)
  then have near: "\<bar>of_nat ?m - ?r * 2 ^ s\<bar> \<le> 1"
    using rounded_ratio_near [OF f(1), of "1000000000 * 2 ^ s"] mult_for_unat [OF s(2), of freq] by (simp only:)
  have "\<bar>of_nat (unat (kv_now_ns st c sec nsec)) - of_nat (unat c) * 1000000000 / of_nat (unat freq)\<bar>
      \<le> (1 + of_nat (unat c) / 2 ^ s :: rat)" if fits: "unat c * ?m < 2 ^ 64" for c
  proof -
    have "unat (kv_now_ns st c sec nsec) = unat c * ?m div 2 ^ s"
      using now_ns_unat [OF m] fits by (simp add: st)
    then show ?thesis
      using fixed_point_near [OF near, of "unat c"] by (simp only: times_divide_eq_right)
  qed
  then show ?thesis
    using s no by (simp add: st)
qed

text \<open>C36: The clock runs backwards: the conversion multiplies the absolute counter, not a difference,
  so for every frequency that gets a multiplier there is a counter value, of at least 600
  seconds and whose product with the multiplier still fits in 64 bits, after which the next
  reading is earlier.\<close>

theorem now_ns_wraps:
  assumes f: "0 < unat freq" "unat freq * 600 < 2 ^ 64"
  defines "st \<equiv> CalcMultShift freq clock_start"
  assumes m: "g_mult st \<noteq> 0"
  shows "\<exists>c. unat freq * 600 \<le> unat c \<and> unat c * unat (g_mult st) < 2 ^ 64 \<and>
    kv_now_ns st (c + 1) sec nsec < kv_now_ns st c sec nsec"
proof -
  obtain s where s: "1 \<le> s" "s \<le> 32" and st: "st = clock_start\<lparr>g_mult := mult_for freq s, g_shift := s\<rparr>"
    and no: "unat freq * 600 * unat (mult_for freq s) < 2 ^ 64" and small: "unat (mult_for freq s) < 2 ^ 32"
    using CalcMultShift_fits [OF f, of clock_start] unfolding st_def by metis
  define k where "k = unat (mult_for freq s)"
  have k0: "0 < k"
    using m by (simp add: st k_def unat_gt_0)
  define n where "n = (2 ^ 64 - 1) div k"
  have nk: "n * k \<le> 2 ^ 64 - 1" "2 ^ 64 - 1 < n * k + k"
    using k0 div_times_less_eq_dividend [of "2 ^ 64 - 1" k] dividend_less_div_times [of k "2 ^ 64 - 1"]
    by (simp_all add: n_def)
  have "n \<le> 2 ^ 64 - 1"
    using nk(1) k0 by (cases k) auto
  then have un: "unat (of_nat n :: u64) = n"
    by (intro unat_of_nat_u64) simp
  have "unat freq * 600 \<le> n"
    unfolding n_def using no k0 by (subst less_eq_div_iff_mult_less_eq) (simp_all add: k_def)
  moreover have fits: "unat (of_nat n :: u64) * unat (g_mult st) < 2 ^ 64"
    using nk(1) un by (simp add: st k_def)
  moreover have "unat (kv_now_ns st (of_nat n + 1) sec nsec) < unat (kv_now_ns st (of_nat n) sec nsec)"
  proof -
    have now: "unat (kv_now_ns st (of_nat n) sec nsec) = n * k div 2 ^ s"
      using now_ns_unat [OF m fits] un by (simp add: st k_def)
    have "2 ^ 63 \<le> n * k"
      using nk(2) small by (simp add: k_def)
    then have "2 ^ 63 div 2 ^ s \<le> n * k div 2 ^ s"
      by (rule div_le_mono)
    moreover have "(2 :: nat) ^ 63 div 2 ^ s = 2 ^ (63 - s)"
      using s(2) by (simp add: power_diff)
    moreover have "(2 :: nat) ^ 31 \<le> 2 ^ (63 - s)"
      using s(2) by (intro power_increasing) simp_all
    ultimately have late: "2 ^ 31 \<le> n * k div 2 ^ s"
      by linarith
    have "unat ((of_nat n + 1) * mult_for freq s) = (n * k + k) mod 2 ^ 64"
      using un by (simp add: unat_word_ariths mod_mult_left_eq mod_add_left_eq k_def distrib_right)
    also have "\<dots> = n * k + k - 2 ^ 64"
      using nk k0 small by (subst le_mod_geq) (simp_all add: k_def)
    also have "\<dots> < 2 ^ 32"
      using nk(1) small by (simp add: k_def)
    finally have "unat ((of_nat n + 1) * mult_for freq s) div 2 ^ 1 < 2 ^ 31"
      by simp
    moreover have "unat ((of_nat n + 1) * mult_for freq s) div 2 ^ s \<le> unat ((of_nat n + 1) * mult_for freq s) div 2 ^ 1"
      using s(1) by (intro div_le_mono2 power_increasing) simp_all
    ultimately have "unat (kv_now_ns st (of_nat n + 1) sec nsec) < 2 ^ 31"
      using m by (simp add: st kv_now_ns_def unat_drop_bit_u64)
    then show ?thesis
      using late now by linarith
  qed
  ultimately show ?thesis
    using un unfolding word_less_nat_alt by metis
qed

lemma find_shift_numeral:
  "find_shift freq k (numeral n) tmp =
     (if unat (mult_for freq (numeral n)) < 2 ^ k then (mult_for freq (numeral n), numeral n)
      else find_shift freq k (pred_numeral n) (mult_for freq (numeral n)))"
  by (simp add: numeral_eq_Suc drop_bit_0_iff Let_def)

lemma mult_shift_100MHz:
  "CalcMultShift 100000000 clock_start = clock_start\<lparr>g_mult := 167772160, g_shift := 24\<rparr>"
proof -
  have bits: "mult_bits 13 32 = 28"
    by (simp add: mult_bits_floorlog compute_floorlog)
  have "find_shift 100000000 28 32 0 = (mult_for 100000000 24, 24)"
    by (simp add: find_shift_numeral mult_for_unat)
  moreover have "mult_for 100000000 24 = 167772160"
    by (rule unat_eqI) (simp add: mult_for_unat)
  ultimately show ?thesis
    using bits by (simp add: CalcMultShift_def)
qed

section \<open>Witnesses\<close>

theorem now_ns_accurate_witness:
  "\<bar>of_nat (unat (kv_now_ns (CalcMultShift 100000000 clock_start) 50000000 0 0)) - 500000000\<bar>
     \<le> (1 + 50000000 / 2 ^ 24 :: rat)"
  using now_ns_accurate [of 100000000 0 0] by (auto simp: mult_shift_100MHz dest!: spec [of _ 50000000])

theorem now_ns_wraps_witness:
  "\<exists>c. 60000000000 \<le> unat c \<and> kv_now_ns (CalcMultShift 100000000 clock_start) (c + 1) 0 0
     < kv_now_ns (CalcMultShift 100000000 clock_start) c 0 0"
  using now_ns_wraps [of 100000000 0 0] by (auto simp: mult_shift_100MHz)

end
