(* ===== verification/Cstdlib.thy ===== *)
theory Cstdlib
  imports KV_Prelude
begin

text \<open>
  The parts of the C library that the command line and the CPU lists are parsed with:
  \<^verbatim>\<open>strtoull\<close>, \<^verbatim>\<open>strtoul\<close>, \<^verbatim>\<open>strtol\<close>, \<^verbatim>\<open>atoi\<close>, \<^verbatim>\<open>strtok\<close> on commas, \<^verbatim>\<open>strchr\<close> and the
  \<^verbatim>\<open>sscanf\<close> format \<^verbatim>\<open>%u:%u\<close>, on strings without the terminating zero. A conversion returns
  the value and the rest of the string; the rest is the whole string when nothing could be
  converted (\<^verbatim>\<open>end == text\<close>).
\<close>

section \<open>Numbers\<close>

definition char_code :: "char \<Rightarrow> nat" where
  "char_code c = of_char c"

definition is_space :: "char \<Rightarrow> bool" where
  "is_space c \<longleftrightarrow> char_code c = 32 \<or> 9 \<le> char_code c \<and> char_code c \<le> 13"

definition digit_val :: "char \<Rightarrow> nat option" where
  "digit_val c =
     (let k = char_code c
      in if 48 \<le> k \<and> k \<le> 57 then Some (k - 48)
         else if 97 \<le> k \<and> k \<le> 122 then Some (k - 87)
         else if 65 \<le> k \<and> k \<le> 90 then Some (k - 55) else None)"

definition is_digit :: "nat \<Rightarrow> char \<Rightarrow> bool" where
  "is_digit base c = (case digit_val c of None \<Rightarrow> False | Some d \<Rightarrow> d < base)"

fun scan_digits :: "nat \<Rightarrow> string \<Rightarrow> nat list \<times> string" where
  "scan_digits base [] = ([], [])"
| "scan_digits base (c # cs) =
     (if is_digit base c
      then case scan_digits base cs of (ds, rest) \<Rightarrow> (the (digit_val c) # ds, rest)
      else ([], c # cs))"

definition num_of :: "nat \<Rightarrow> nat list \<Rightarrow> nat" where
  "num_of base ds = foldl (\<lambda>a d. a * base + d) 0 ds"

fun scan_sign :: "string \<Rightarrow> bool \<times> string" where
  "scan_sign (c # cs) = (if c = CHR ''-'' then (True, cs) else if c = CHR ''+'' then (False, cs) else (False, c # cs))"
| "scan_sign [] = (False, [])"

text \<open>Base 0 reads the base off the prefix.\<close>

definition scan_base :: "nat \<Rightarrow> string \<Rightarrow> nat \<times> string" where
  "scan_base base s =
     (if base \<noteq> 0 then (base, s)
      else if s = [] \<or> hd s \<noteq> CHR ''0'' then (10, s)
      else case tl s of
             x # d # cs \<Rightarrow>
               if (x = CHR ''x'' \<or> x = CHR ''X'') \<and> is_digit 16 d then (16, d # cs) else (8, s)
           | _ \<Rightarrow> (8, s))"

text \<open>Sign, magnitude and rest; \<^term>\<open>None\<close> when there is no digit.\<close>

definition scan_number :: "nat \<Rightarrow> string \<Rightarrow> (bool \<times> nat \<times> string) option" where
  "scan_number base s =
     (let (neg, s1) = scan_sign (dropWhile is_space s);
          (b, s2) = scan_base base s1;
          (ds, rest) = scan_digits b s2
      in if ds = [] then None else Some (neg, num_of b ds, rest))"

definition strtoull :: "nat \<Rightarrow> string \<Rightarrow> u64 \<times> string" where
  "strtoull base s =
     (case scan_number base s of
        None \<Rightarrow> (0, s)
      | Some (neg, n, rest) \<Rightarrow>
          (if n \<ge> 2 ^ 64 then (- 1, rest) else (if neg then - of_nat n else of_nat n, rest)))"

definition strtol :: "nat \<Rightarrow> string \<Rightarrow> int \<times> string" where
  "strtol base s =
     (case scan_number base s of
        None \<Rightarrow> (0, s)
      | Some (neg, n, rest) \<Rightarrow>
          (if neg then max (- int n) (- (2 ^ 63)) else min (int n) (2 ^ 63 - 1), rest))"

text \<open>The cast of a \<^verbatim>\<open>long\<close> to \<^verbatim>\<open>int\<close>, and of an unsigned 64-bit value to \<^verbatim>\<open>uint32_t\<close>.\<close>

definition i32_of_long :: "int \<Rightarrow> int" where
  "i32_of_long i = signed_take_bit 31 i"

definition u32_of_u64 :: "u64 \<Rightarrow> u32" where
  "u32_of_u64 w = ucast w"

definition atoi :: "string \<Rightarrow> int" where
  "atoi s = i32_of_long (fst (strtol 10 s))"

text \<open>The format \<^verbatim>\<open>%u:%u\<close>: \<^term>\<open>None\<close> unless both numbers were converted.\<close>

definition sscanf_u_u :: "string \<Rightarrow> (u32 \<times> u32) option" where
  "sscanf_u_u s =
     (case strtoull 10 s of (a, rest) \<Rightarrow>
        if rest = s then None
        else case rest of
               c # s1 \<Rightarrow>
                 if c \<noteq> CHR '':'' then None
                 else (case strtoull 10 s1 of (b, rest1) \<Rightarrow>
                         if rest1 = s1 then None else Some (u32_of_u64 a, u32_of_u64 b))
             | [] \<Rightarrow> None)"

lemmas scan_simps = strtoull_def strtol_def scan_number_def scan_base_def is_digit_def digit_val_def
  char_code_def is_space_def num_of_def

section \<open>Tokens\<close>

fun split_on :: "char \<Rightarrow> string \<Rightarrow> string list" where
  "split_on d [] = [[]]"
| "split_on d (c # cs) =
     (if c = d then [] # split_on d cs
      else case split_on d cs of [] \<Rightarrow> [[c]] | t # ts \<Rightarrow> (c # t) # ts)"

text \<open>The tokens that repeated calls of \<^verbatim>\<open>strtok\<close> return: empty ones are skipped.\<close>

definition strtok_all :: "char \<Rightarrow> string \<Rightarrow> string list" where
  "strtok_all d s = filter (\<lambda>t. t \<noteq> []) (split_on d s)"

text \<open>\<^verbatim>\<open>strchr\<close>: the part before the first occurrence and the part after it.\<close>

fun strchr :: "char \<Rightarrow> string \<Rightarrow> (string \<times> string) option" where
  "strchr d [] = None"
| "strchr d (c # cs) =
     (if c = d then Some ([], cs) else map_option (\<lambda>(a, b). (c # a, b)) (strchr d cs))"

section \<open>Printed numbers read back\<close>

definition digit_char :: "nat \<Rightarrow> char" where
  "digit_char d = char_of (48 + d)"

fun dec_digits :: "nat \<Rightarrow> string" where
  "dec_digits n = (if n < 10 then [digit_char n] else dec_digits (n div 10) @ [digit_char (n mod 10)])"

declare dec_digits.simps [simp del]

lemma char_code_digit [simp]: "d < 10 \<Longrightarrow> char_code (digit_char d) = 48 + d"
  by (simp add: char_code_def digit_char_def)

lemma digit_val_digit [simp]: "d < 10 \<Longrightarrow> digit_val (digit_char d) = Some d"
  by (simp add: digit_val_def)

lemma is_digit_digit [simp]: "d < 10 \<Longrightarrow> is_digit 10 (digit_char d)"
  by (simp add: is_digit_def)

lemma is_space_digit [simp]: "d < 10 \<Longrightarrow> \<not> is_space (digit_char d)"
  by (simp add: is_space_def)

fun dec_vals :: "nat \<Rightarrow> nat list" where
  "dec_vals n = (if n < 10 then [n] else dec_vals (n div 10) @ [n mod 10])"

declare dec_vals.simps [simp del]

lemma dec_digits_vals: "dec_digits n = map digit_char (dec_vals n)"
  by (induction n rule: dec_vals.induct) (subst dec_digits.simps, subst dec_vals.simps, auto)

lemma dec_vals_range: "\<forall>d \<in> set (dec_vals n). d < 10"
  by (induction n rule: dec_vals.induct) (subst dec_vals.simps, auto)

lemma num_of_dec_vals: "num_of 10 (dec_vals n) = n"
  by (induction n rule: dec_vals.induct) (subst dec_vals.simps, auto simp: num_of_def)

lemma dec_vals_not_Nil [simp]: "dec_vals n \<noteq> []"
  by (subst dec_vals.simps) simp

lemma dec_vals_hd: "0 < n \<Longrightarrow> 0 < hd (dec_vals n)"
  by (induction n rule: dec_vals.induct) (subst dec_vals.simps, auto)

lemma scan_digits_append:
  assumes "\<forall>d \<in> set ds. d < 10" and "rest = [] \<or> \<not> is_digit 10 (hd rest)"
  shows "scan_digits 10 (map digit_char ds @ rest) = (ds, rest)"
  using assms(1)
proof (induction ds)
  case Nil
  then show ?case
    using assms(2) by (cases rest) auto
qed simp

lemma digit_char_not_sign:
  assumes "d < 10"
  shows "digit_char d \<noteq> CHR ''-''" and "digit_char d \<noteq> CHR ''+''"
proof -
  have "char_code (digit_char d) = 48 + d" "char_code CHR ''-'' = 45" "char_code CHR ''+'' = 43"
    using assms by (simp_all, simp_all add: char_code_def)
  then show "digit_char d \<noteq> CHR ''-''" "digit_char d \<noteq> CHR ''+''"
    by auto
qed

lemma digit_char_zero: "d < 10 \<Longrightarrow> digit_char d = CHR ''0'' \<longleftrightarrow> d = 0"
proof
  assume d: "d < 10" and eq: "digit_char d = CHR ''0''"
  have "char_code (digit_char d) = 48 + d" "char_code CHR ''0'' = 48"
    using d by (simp, simp add: char_code_def)
  then show "d = 0"
    using eq by simp
next
  have "digit_char 0 = CHR ''0''"
    by code_simp
  then show "d = 0 \<Longrightarrow> digit_char d = CHR ''0''"
    by simp
qed

text \<open>A decimal number followed by a character that is no digit; with base 0 a leading zero would
  select octal.\<close>

lemma scan_number_digits:
  assumes base: "base = 10 \<or> base = 0 \<and> 0 < n" and rest: "rest = [] \<or> \<not> is_digit 10 (hd rest)"
  shows "scan_number base (dec_digits n @ rest) = Some (False, n, rest)"
proof -
  obtain d ds where vals: "dec_vals n = d # ds"
    using dec_vals_not_Nil by (cases "dec_vals n") blast+
  have d: "0 < n \<longrightarrow> 0 < d" "d < 10"
    using dec_vals_hd [of n] dec_vals_range [of n] by (simp_all add: vals)
  let ?s = "map digit_char (d # ds) @ rest"
  have s: "dec_digits n @ rest = ?s"
    by (simp add: dec_digits_vals vals)
  have "dropWhile is_space ?s = ?s" "scan_sign ?s = (False, ?s)"
    using d digit_char_not_sign by simp_all
  moreover have "scan_base base ?s = (10, ?s)"
    using base d digit_char_zero [of d] by (auto simp: scan_base_def)
  moreover have "scan_digits 10 ?s = (d # ds, rest)"
    using scan_digits_append [OF _ rest, of "d # ds"] dec_vals_range [of n] by (simp only: vals)
  moreover have "num_of 10 (d # ds) = n"
    using num_of_dec_vals [of n] by (simp only: vals)
  ultimately show ?thesis
    unfolding s scan_number_def by (simp del: list.map append.simps)
qed

lemma scan_number_dec:
  assumes "0 < n" and "rest = [] \<or> \<not> is_digit 10 (hd rest)" and "base = 0 \<or> base = 10"
  shows "scan_number base (dec_digits n @ rest) = Some (False, n, rest)"
  using assms by (intro scan_number_digits) auto

lemma strtol_dec:
  assumes "n < 2 ^ 63" and "rest = [] \<or> \<not> is_digit 10 (hd rest)"
  shows "strtol 10 (dec_digits n @ rest) = (int n, rest)"
proof -
  have "int n \<le> 2 ^ 63 - 1"
    using assms(1) by (simp add: nat_less_iff [symmetric] zle_diff1_eq)
  then show ?thesis
    using scan_number_digits [of 10 n rest] assms(2) by (simp add: strtol_def min_def)
qed

lemma atoi_dec:
  assumes "n < 2 ^ 31" and "rest = [] \<or> \<not> is_digit 10 (hd rest)"
  shows "atoi (dec_digits n @ rest) = int n"
proof -
  have "int n < 2 ^ 31"
    using assms(1) by simp
  then show ?thesis
    using strtol_dec [of n rest] assms
    by (simp add: atoi_def i32_of_long_def signed_take_bit_int_eq_self)
qed

lemma dec_digits_chars: "c \<in> set (dec_digits n) \<Longrightarrow> is_digit 10 c"
  using dec_vals_range by (auto simp: dec_digits_vals)

lemma dec_digits_not_Nil [simp]: "dec_digits n \<noteq> []"
  by (simp add: dec_digits_vals)

lemma strtoull_dec:
  assumes "0 < n" and "n < 2 ^ 64" and "rest = [] \<or> \<not> is_digit 10 (hd rest)" and "base = 0 \<or> base = 10"
  shows "strtoull base (dec_digits n @ rest) = (of_nat n, rest)"
  using scan_number_dec [OF assms(1,3,4)] assms(2) by (simp add: strtoull_def)

section \<open>Tokens of joined text\<close>

lemma split_on_not_Nil [simp]: "split_on d s \<noteq> []"
  by (induction s) (auto split: list.split)

lemma split_on_none: "d \<notin> set s \<Longrightarrow> split_on d s = [s]"
  by (induction s) auto

lemma split_on_append: "d \<notin> set t \<Longrightarrow> split_on d (t @ d # s) = t # split_on d s"
  by (induction t) auto

fun join_with :: "char \<Rightarrow> string list \<Rightarrow> string" where
  "join_with d [] = []"
| "join_with d [t] = t"
| "join_with d (t # u # ts) = t @ d # join_with d (u # ts)"

lemma strtok_all_join:
  assumes "\<forall>t \<in> set ts. t \<noteq> [] \<and> d \<notin> set t"
  shows "strtok_all d (join_with d ts) = ts"
  using assms by (induction d ts rule: join_with.induct) (auto simp: strtok_all_def split_on_none split_on_append)

lemma strchr_none: "strchr d s = None \<longleftrightarrow> d \<notin> set s"
  by (induction s) auto

lemma strchr_append: "d \<notin> set t \<Longrightarrow> strchr d (t @ d # s) = Some (t, s)"
  by (induction t) auto

end
