(* ===== verification/Argument.thy ===== *)
theory Argument
  imports Cstdlib
begin

text \<open>
  The command line of \<^verbatim>\<open>src/kv_bench.cpp\<close>: the argument record, \<^verbatim>\<open>parse_size\<close>, the options and
  their validation. \<^verbatim>\<open>getopt_long\<close> itself is the C library's: its successive results, pairs
  of a code and the option's argument, are the input, together with whether it left
  operands (\<^verbatim>\<open>optind < argc\<close>). Whether \<^verbatim>\<open>strdup\<close> gets memory is a Boolean.
\<close>

section \<open>The code\<close>

record argument =
  dev_name :: "string option"
  dev_name2 :: "string option"
  dual_dev :: bool
  server_ip :: "string option"
  server_port :: u32
  trans_mode :: u32
  event_mode :: bool
  value_size :: u64
  send_size :: u64
  qps :: u64
  duration_sec :: u64
  jetty_count :: u32
  affinity_mode :: int
  source_cpus :: "string option"
  destination_cpus :: "string option"
  cacheable :: bool
  threads :: u32
  concurrency :: int
  single_chip :: int
  chip_weight :: "u32 \<times> u32"
  poll_cpu :: int
  op_code :: int
  mixed_ratio :: u32
  report_interval :: u32
  mbind :: bool
  drv_ext :: bool
  import_rtp :: bool
  seed :: u32
  fixed_offset :: bool
  timeout_ms :: int
  query_chips :: bool

abbreviation (input) OP_WRITE :: int where "OP_WRITE \<equiv> 0"
abbreviation (input) OP_GET :: int where "OP_GET \<equiv> 1"
abbreviation (input) OP_MIXED :: int where "OP_MIXED \<equiv> 2"

abbreviation (input) AFF_AFFINITY :: int where "AFF_AFFINITY \<equiv> 0"
abbreviation (input) AFF_ANTI :: int where "AFF_ANTI \<equiv> 1"
abbreviation (input) AFF_NONE :: int where "AFF_NONE \<equiv> 2"

abbreviation (input) PAGE_SIZE :: u64 where "PAGE_SIZE \<equiv> 4096"
abbreviation (input) UINT32_MAX :: u64 where "UINT32_MAX \<equiv> 4294967295"
abbreviation (input) MAX_JETTY_COUNT :: u32 where "MAX_JETTY_COUNT \<equiv> 200"
abbreviation (input) KV_SENDS_PER_REQ :: nat where "KV_SENDS_PER_REQ \<equiv> 10"
abbreviation (input) KV_WR_PER_SEND :: nat where "KV_WR_PER_SEND \<equiv> 2"
abbreviation (input) KV_WR_PER_REQ :: nat where "KV_WR_PER_REQ \<equiv> 20"
abbreviation (input) KV_MAX_CONCURRENCY :: int where "KV_MAX_CONCURRENCY \<equiv> 10"

definition parse_size :: "string \<Rightarrow> u64" where
  "parse_size text =
     (case strtoull 0 text of (value, rest) \<Rightarrow>
        if rest = text then 0
        else if rest = [] then value
        else if hd rest = CHR ''K'' \<or> hd rest = CHR ''k'' then value * 1024
        else if hd rest = CHR ''M'' \<or> hd rest = CHR ''m'' then value * 1048576
        else if hd rest = CHR ''G'' \<or> hd rest = CHR ''g'' then value * 1073741824
        else 0)"

definition validate_input_params :: "argument \<Rightarrow> int" where
  "validate_input_params a =
     (if dev_name a = None \<or> value_size a = 0 \<or> value_size a > UINT32_MAX \<or> duration_sec a = 0 \<or>
         jetty_count a = 0 \<or> jetty_count a > MAX_JETTY_COUNT then - 1
      else if send_size a < 2 * PAGE_SIZE \<or> send_size a AND 1 \<noteq> 0 \<or>
              (send_size a div 2) mod PAGE_SIZE \<noteq> 0 \<or> send_size a > UINT32_MAX then - 1
      else if op_code a = OP_GET \<and>
              (value_size a < 2 * PAGE_SIZE \<or> value_size a mod (2 * PAGE_SIZE) \<noteq> 0 \<or>
               value_size a div 2 > UINT32_MAX) then - 1
      else if dual_dev a \<and> dev_name2 a = None then - 1
      else if threads a = 0 \<or> threads a > 512 then - 1
      else if concurrency a < 1 \<or> concurrency a > KV_MAX_CONCURRENCY then - 1
      else if single_chip a < 0 \<or> single_chip a > 2 then - 1
      else if fst (chip_weight a) + snd (chip_weight a) = 0 then - 1
      else if single_chip a \<noteq> 0 \<and> (fst (chip_weight a) \<noteq> 1 \<or> snd (chip_weight a) \<noteq> 1) then - 1
      else if op_code a < OP_WRITE \<or> op_code a > OP_MIXED then - 1
      else if mixed_ratio a > 100 then - 1
      else if trans_mode a > 3 then - 1
      else if take 7 (the (dev_name a)) = ''bonding'' \<and> trans_mode a \<noteq> 0 \<and> trans_mode a \<noteq> 1 then - 1
      else 0)"

definition default_arguments :: argument where
  "default_arguments =
     \<lparr>dev_name = None, dev_name2 = None, dual_dev = False, server_ip = None, server_port = 13857,
      trans_mode = 0, event_mode = False, value_size = 4194304, send_size = 8388608, qps = 0,
      duration_sec = 10, jetty_count = 1, affinity_mode = AFF_AFFINITY, source_cpus = None,
      destination_cpus = None, cacheable = False, threads = 1, concurrency = 1, single_chip = 0,
      chip_weight = (1, 1), poll_cpu = - 1, op_code = OP_WRITE, mixed_ratio = 50,
      report_interval = 1, mbind = True, drv_ext = True, import_rtp = False, seed = 42,
      fixed_offset = False, timeout_ms = 5000, query_chips = False\<rparr>"

definition strdup :: "bool \<Rightarrow> string \<Rightarrow> string option" where
  "strdup mem s = (if mem then Some s else None)"

text \<open>\<^verbatim>\<open>(uint32_t)strtoul(optarg, NULL, 0)\<close> and \<^verbatim>\<open>(int)strtol(optarg, NULL, 0)\<close>.\<close>

definition opt_u32 :: "string \<Rightarrow> u32" where
  "opt_u32 s = u32_of_u64 (fst (strtoull 0 s))"

definition opt_int :: "string \<Rightarrow> int" where
  "opt_int s = i32_of_long (fst (strtol 0 s))"

text \<open>One iteration of the switch: the flag is false when the option makes the function return -1.\<close>

definition apply_option :: "bool \<Rightarrow> int \<Rightarrow> string \<Rightarrow> argument \<Rightarrow> bool \<times> argument" where
  "apply_option mem c optarg a =
     (if c = 109 then (True, a\<lparr>trans_mode := opt_u32 optarg\<rparr>)
      else if c = 100 then (True, a\<lparr>dev_name := strdup mem optarg\<rparr>)
      else if c = 105 then (True, a\<lparr>server_ip := strdup mem optarg\<rparr>)
      else if c = 112 then (True, a\<lparr>server_port := opt_u32 optarg\<rparr>)
      else if c = 101 then (True, a\<lparr>event_mode := True\<rparr>)
      else if c = 1000 then (True, a\<lparr>value_size := parse_size optarg\<rparr>)
      else if c = 1035 then (True, a\<lparr>send_size := parse_size optarg\<rparr>)
      else if c = 1036 then
        (case sscanf_u_u optarg of None \<Rightarrow> (False, a) | Some w \<Rightarrow> (True, a\<lparr>chip_weight := w\<rparr>))
      else if c = 1001 then (True, a\<lparr>qps := fst (strtoull 0 optarg)\<rparr>)
      else if c = 1002 then (True, a\<lparr>duration_sec := fst (strtoull 0 optarg)\<rparr>)
      else if c = 1003 then (True, a\<lparr>jetty_count := opt_u32 optarg\<rparr>)
      else if c = 1004 then
        (if optarg = ''affinity'' then (True, a\<lparr>affinity_mode := AFF_AFFINITY\<rparr>)
         else if optarg = ''anti'' \<or> optarg = ''anti-affinity'' then (True, a\<lparr>affinity_mode := AFF_ANTI\<rparr>)
         else if optarg = ''none'' then (True, a\<lparr>affinity_mode := AFF_NONE\<rparr>)
         else (False, a))
      else if c = 1005 then (True, a\<lparr>source_cpus := Some optarg\<rparr>)
      else if c = 1006 then (True, a\<lparr>destination_cpus := Some optarg\<rparr>)
      else if c = 1007 then (True, a\<lparr>cacheable := True\<rparr>)
      else if c = 1008 then (True, a\<lparr>threads := opt_u32 optarg\<rparr>)
      else if c = 1009 then
        (if optarg = ''write'' then (True, a\<lparr>op_code := OP_WRITE\<rparr>)
         else if optarg = ''get'' then (True, a\<lparr>op_code := OP_GET\<rparr>)
         else if optarg = ''mixed'' then (True, a\<lparr>op_code := OP_MIXED\<rparr>)
         else (False, a))
      else if c = 1010 then (True, a\<lparr>mixed_ratio := opt_u32 optarg\<rparr>)
      else if c = 1012 then (True, a\<lparr>report_interval := opt_u32 optarg\<rparr>)
      else if c = 1015 then (True, a\<lparr>mbind := True\<rparr>)
      else if c = 1031 then (True, a\<lparr>mbind := False\<rparr>)
      else if c = 1019 then (True, a\<lparr>drv_ext := True\<rparr>)
      else if c = 1030 then (True, a\<lparr>drv_ext := False\<rparr>)
      else if c = 1023 then (True, a\<lparr>import_rtp := True\<rparr>)
      else if c = 1016 then (True, a\<lparr>seed := opt_u32 optarg\<rparr>)
      else if c = 1017 then (True, a\<lparr>fixed_offset := True\<rparr>)
      else if c = 1018 then (True, a\<lparr>timeout_ms := opt_int optarg\<rparr>)
      else if c = 1024 then (True, a\<lparr>query_chips := True\<rparr>)
      else if c = 1025 then (True, a\<lparr>concurrency := opt_int optarg\<rparr>)
      else if c = 1026 then (True, a\<lparr>single_chip := opt_int optarg\<rparr>)
      else if c = 1032 then (True, a\<lparr>poll_cpu := opt_int optarg\<rparr>)
      else if c = 1033 then (True, a\<lparr>dual_dev := True\<rparr>)
      else if c = 1034 then (True, a\<lparr>dev_name2 := strdup mem optarg\<rparr>)
      else (False, a))"

text \<open>The table of long options: name, whether an argument is required, and the code that
  \<^verbatim>\<open>getopt_long\<close> returns. The short options have the codes of the same letters.\<close>

definition g_long_options :: "(string \<times> bool \<times> int) list" where
  "g_long_options =
    [(''trans-mode'', True, 109), (''dev-name'', True, 100), (''server-ip'', True, 105), (''server-port'', True, 112),
      (''event-mode'', False, 101), (''value-size'', True, 1000), (''send-size'', True, 1035), (''chip-weight'', True, 1036),
      (''qps'', True, 1001), (''duration'', True, 1002), (''jetty-count'', True, 1003), (''affinity-mode'', True, 1004),
      (''source-cpus'', True, 1005), (''destination-cpus'', True, 1006), (''cacheable'', False, 1007), (''threads'', True, 1008),
      (''op'', True, 1009), (''mixed-ratio'', True, 1010), (''report-interval'', True, 1012), (''mbind'', False, 1015),
      (''no-mbind'', False, 1031), (''drv-ext'', False, 1019), (''no-drv-ext'', False, 1030), (''import-rtp'', False, 1023),
      (''seed'', True, 1016), (''fixed-offset'', False, 1017), (''timeout-ms'', True, 1018), (''query-chips'', False, 1024),
      (''concurrency'', True, 1025), (''poll-cpu'', True, 1032), (''dual-dev'', False, 1033), (''dev-name2'', True, 1034),
      (''single-chip'', True, 1026)]"

fun apply_options :: "bool \<Rightarrow> (int \<times> string) list \<Rightarrow> argument \<Rightarrow> bool \<times> argument" where
  "apply_options mem [] a = (True, a)"
| "apply_options mem ((c, optarg) # opts) a =
     (case apply_option mem c optarg a of (ok, a1) \<Rightarrow>
        if ok then apply_options mem opts a1 else (False, a1))"

definition parse_arguments ::
  "bool \<Rightarrow> nat \<Rightarrow> (int \<times> string) list \<Rightarrow> bool \<Rightarrow> argument \<Rightarrow> int \<times> argument" where
  "parse_arguments mem argc opts operands_left args0 =
     (if argc = 1 then (- 1, args0)
      else
        case apply_options mem opts default_arguments of (ok, a) \<Rightarrow>
          if \<not> ok then (- 1, a)
          else if operands_left then (- 1, a)
          else
            let a1 = (if dev_name a = None then a\<lparr>dev_name := strdup mem ''bonding0''\<rparr> else a)
            in if dev_name a1 = None then (- 1, a1) else (validate_input_params a1, a1))"

section \<open>Sizes\<close>

definition size_suffixes :: "(string \<times> nat) list" where
  "size_suffixes = [('''', 1), (''K'', 1024), (''k'', 1024), (''M'', 1048576), (''m'', 1048576),
     (''G'', 1073741824), (''g'', 1073741824)]"

lemma suffix_not_digit:
  "(suf, u) \<in> set size_suffixes \<Longrightarrow> suf = [] \<or> \<not> is_digit 10 (hd suf)"
  by (auto simp: size_suffixes_def is_digit_def digit_val_def char_code_def)

text \<open>C29: A size written as a decimal number with an optional unit reads back as the number
  of bytes, as long as the product fits in 64 bits.\<close>

theorem parse_size_roundtrip:
  assumes suf: "(suf, unit) \<in> set size_suffixes" and n: "0 < n" "n * unit < 2 ^ 64"
  shows "unat (parse_size (dec_digits n @ suf)) = n * unit"
proof -
  have u: "0 < unit"
    using suf by (auto simp: size_suffixes_def)
  then have "n \<le> n * unit"
    by simp
  then have small: "n < 2 ^ 64"
    using n(2) by linarith
  have st: "strtoull 0 (dec_digits n @ suf) = (of_nat n, suf)"
    using strtoull_dec [OF n(1) small suffix_not_digit [OF suf]] by simp
  have "parse_size (dec_digits n @ suf) = of_nat n * of_nat unit"
    unfolding parse_size_def st using suf by (auto simp: size_suffixes_def)
  also have "\<dots> = (of_nat (n * unit) :: u64)"
    by simp
  finally show ?thesis
    using unat_of_nat_u64 [OF n(2)] by (simp only:)
qed

section \<open>Validation\<close>

text \<open>What an accepted configuration satisfies, in numbers.\<close>

definition valid_arguments :: "argument \<Rightarrow> bool" where
  "valid_arguments a \<longleftrightarrow>
     dev_name a \<noteq> None \<and>
     0 < unat (value_size a) \<and> unat (value_size a) < 2 ^ 32 \<and>
     0 < unat (duration_sec a) \<and>
     1 \<le> unat (jetty_count a) \<and> unat (jetty_count a) \<le> 200 \<and>
     8192 \<le> unat (send_size a) \<and> unat (send_size a) < 2 ^ 32 \<and> 8192 dvd unat (send_size a) \<and>
     (op_code a = OP_GET \<longrightarrow> 8192 dvd unat (value_size a)) \<and>
     (dual_dev a \<longrightarrow> dev_name2 a \<noteq> None) \<and>
     1 \<le> unat (threads a) \<and> unat (threads a) \<le> 512 \<and>
     1 \<le> concurrency a \<and> concurrency a \<le> 10 \<and>
     single_chip a \<in> {0, 1, 2} \<and> op_code a \<in> {OP_WRITE, OP_GET, OP_MIXED} \<and>
     (unat (fst (chip_weight a)) + unat (snd (chip_weight a))) mod 2 ^ 32 \<noteq> 0 \<and>
     (single_chip a \<noteq> 0 \<longrightarrow> chip_weight a = (1, 1)) \<and>
     unat (mixed_ratio a) \<le> 100 \<and> unat (trans_mode a) \<le> 3 \<and>
     (take 7 (the (dev_name a)) = ''bonding'' \<longrightarrow> unat (trans_mode a) \<le> 1)"

lemma page_aligned_halves:
  fixes s :: u64
  shows "s AND 1 \<noteq> 0 \<or> (s div 2) mod PAGE_SIZE \<noteq> 0 \<longleftrightarrow> \<not> 8192 dvd unat s"
proof -
  have "s AND 1 = take_bit 1 s"
    by (simp add: and_one_eq mod_2_eq_odd take_bit_eq_mod)
  then have a: "unat (s AND 1) = unat s mod 2"
    using unsigned_take_bit_eq [where ?'a = nat and n = 1 and w = s] by (simp add: take_bit_eq_mod)
  have b: "unat ((s div 2) mod PAGE_SIZE) = unat s div 2 mod 4096"
    by (simp add: unat_div_distrib unat_mod_distrib)
  have "\<not> (s AND 1 \<noteq> 0 \<or> (s div 2) mod PAGE_SIZE \<noteq> 0) \<longleftrightarrow> unat s mod 2 = 0 \<and> unat s div 2 mod 4096 = 0"
    unfolding a [symmetric] b [symmetric] by (simp only: unat_eq_0 de_Morgan_disj not_not)
  also have "\<dots> \<longleftrightarrow> 8192 dvd unat s"
    using mod_mult2_eq [of "unat s" 2 4096] by (auto simp: dvd_eq_mod_eq_0)
  finally have eq: "(\<not> (s AND 1 \<noteq> 0 \<or> (s div 2) mod PAGE_SIZE \<noteq> 0)) = (8192 dvd unat s)" .
  show ?thesis
    unfolding eq [symmetric] not_not ..
qed

lemma u32_sum_zero: "a + b = (0 :: u32) \<longleftrightarrow> (unat a + unat b) mod 2 ^ 32 = 0"
  using unat_word_ariths(1) [of a b] by (simp add: unat_eq_0 flip: unat_eq_0)

lemma value_mod_8192: "(v :: u64) mod (2 * PAGE_SIZE) \<noteq> 0 \<longleftrightarrow> \<not> 8192 dvd unat v"
proof -
  have "unat (v mod (2 * PAGE_SIZE)) = unat v mod 8192"
    by (simp add: unat_mod_distrib)
  then show ?thesis
    by (simp add: dvd_eq_mod_eq_0 flip: unat_eq_0)
qed

lemma validate_result: "validate_input_params a = 0 \<or> validate_input_params a = - 1"
  by (simp add: validate_input_params_def)

lemma if_minus_1: "(if b then - 1 else x) = (0 :: int) \<longleftrightarrow> \<not> b \<and> x = 0"
  by simp

lemma u64_guards:
  fixes v :: u64
  shows "v = 0 \<longleftrightarrow> \<not> 0 < unat v" and "v > UINT32_MAX \<longleftrightarrow> \<not> unat v < 2 ^ 32"
    and "v < 2 * PAGE_SIZE \<longleftrightarrow> \<not> 8192 \<le> unat v"
  by (simp add: unat_eq_0, simp add: word_less_nat_alt, linarith, simp add: word_less_nat_alt, linarith)

lemma u32_guards:
  fixes w :: u32
  shows "w = 0 \<longleftrightarrow> \<not> 1 \<le> unat w" and "w > 200 \<longleftrightarrow> \<not> unat w \<le> 200" and "w > 512 \<longleftrightarrow> \<not> unat w \<le> 512"
    and "w > 100 \<longleftrightarrow> \<not> unat w \<le> 100" and "w > 3 \<longleftrightarrow> \<not> unat w \<le> 3"
  by (simp_all add: word_less_nat_alt unat_eq_0 not_le)

lemma trans_guard:
  fixes w :: u32
  shows "w \<noteq> 0 \<and> w \<noteq> 1 \<longleftrightarrow> \<not> unat w \<le> 1"
proof -
  have "w = 0 \<longleftrightarrow> unat w = 0"
    by (simp add: unat_eq_0)
  moreover have "w = 1 \<longleftrightarrow> unat w = 1"
    using unat_eqI [of w 1] by auto
  ultimately show ?thesis
    by linarith
qed

lemma range_guards:
  fixes i :: int
  shows "i < 0 \<or> i > 2 \<longleftrightarrow> i \<notin> {0, 1, 2}" and "i < 1 \<or> i > 10 \<longleftrightarrow> \<not> (1 \<le> i \<and> i \<le> 10)"
  by auto

lemma half_in_range:
  fixes v :: u64
  assumes "unat v < 2 ^ 32"
  shows "\<not> v div 2 > UINT32_MAX"
  using assms by (simp add: word_less_nat_alt unat_div_distrib)

lemma validate_zero: "validate_input_params a = 0 \<longleftrightarrow> valid_arguments a"
proof -
  have "(value_size a < 2 * PAGE_SIZE \<or> value_size a mod (2 * PAGE_SIZE) \<noteq> 0 \<or> value_size a div 2 > UINT32_MAX)
      \<longleftrightarrow> \<not> 8192 dvd unat (value_size a)" if "0 < unat (value_size a)" "unat (value_size a) < 2 ^ 32"
    using that half_in_range [OF that(2)] dvd_imp_le [of 8192 "unat (value_size a)"]
    unfolding value_mod_8192 u64_guards(3) by argo
  then have get: "0 < unat (value_size a) \<and> unat (value_size a) < 2 ^ 32 \<longrightarrow>
      (value_size a < 2 * PAGE_SIZE \<or> value_size a mod (2 * PAGE_SIZE) \<noteq> 0 \<or> value_size a div 2 > UINT32_MAX)
      = (\<not> 8192 dvd unat (value_size a))"
    by simp
  have send: "(send_size a < 2 * PAGE_SIZE \<or> send_size a AND 1 \<noteq> 0 \<or> (send_size a div 2) mod PAGE_SIZE \<noteq> 0 \<or>
      send_size a > UINT32_MAX) \<longleftrightarrow>
      \<not> (8192 \<le> unat (send_size a) \<and> unat (send_size a) < 2 ^ 32 \<and> 8192 dvd unat (send_size a))"
    using page_aligned_halves [of "send_size a"] u64_guards(2,3) [of "send_size a"] by argo
  have weight: "fst (chip_weight a) \<noteq> 1 \<or> snd (chip_weight a) \<noteq> 1 \<longleftrightarrow> chip_weight a \<noteq> (1, 1)"
    by (cases "chip_weight a") simp
  show ?thesis
    unfolding validate_input_params_def valid_arguments_def if_minus_1 send weight u32_sum_zero trans_guard range_guards
    unfolding u32_guards
    using get u64_guards(1,2) [of "value_size a"] u64_guards(1) [of "duration_sec a"] by argo
qed

text \<open>The ranges that the comments and messages of the validation give and, where they give none, its
  checks: a value of any size, but for get a multiple of 8K up to 8G, and chip weights that are
  not both zero.\<close>

definition intended_arguments :: "argument \<Rightarrow> bool" where
  "intended_arguments a \<longleftrightarrow>
     dev_name a \<noteq> None \<and> 0 < unat (value_size a) \<and> 0 < unat (duration_sec a) \<and>
     1 \<le> unat (jetty_count a) \<and> unat (jetty_count a) \<le> 200 \<and>
     8192 \<le> unat (send_size a) \<and> unat (send_size a) < 2 ^ 32 \<and> 8192 dvd unat (send_size a) \<and>
     (op_code a = OP_GET \<longrightarrow> 8192 dvd unat (value_size a) \<and> unat (value_size a) \<le> 8 * 2 ^ 30) \<and>
     (dual_dev a \<longrightarrow> dev_name2 a \<noteq> None) \<and>
     1 \<le> unat (threads a) \<and> unat (threads a) \<le> 512 \<and>
     1 \<le> concurrency a \<and> concurrency a \<le> 10 \<and>
     single_chip a \<in> {0, 1, 2} \<and> op_code a \<in> {OP_WRITE, OP_GET, OP_MIXED} \<and>
     chip_weight a \<noteq> (0, 0) \<and> (single_chip a \<noteq> 0 \<longrightarrow> chip_weight a = (1, 1)) \<and>
     unat (mixed_ratio a) \<le> 100 \<and> unat (trans_mode a) \<le> 3 \<and>
     (take 7 (the (dev_name a)) = ''bonding'' \<longrightarrow> unat (trans_mode a) \<le> 1)"

lemma weight_sum_mod:
  "(unat (w1 :: u32) + unat (w2 :: u32)) mod 2 ^ 32 \<noteq> 0 \<longleftrightarrow> (w1, w2) \<noteq> (0, 0) \<and> unat w1 + unat w2 \<noteq> 2 ^ 32"
proof -
  have "x mod N \<noteq> 0 \<longleftrightarrow> x \<noteq> 0 \<and> x \<noteq> N" if "x < 2 * N" for x N :: nat
    using that by (cases "x < N") (auto simp: not_less le_mod_geq)
  then show ?thesis
    using unat_u32_less [of w1] unat_u32_less [of w2] by (simp flip: unat_eq_0)
qed

lemma valid_intended:
  "valid_arguments a \<longleftrightarrow> intended_arguments a \<and> unat (value_size a) < 2 ^ 32 \<and>
     unat (fst (chip_weight a)) + unat (snd (chip_weight a)) \<noteq> 2 ^ 32"
proof -
  have "unat (value_size a) < 2 ^ 32 \<Longrightarrow> unat (value_size a) \<le> 8 * 2 ^ 30"
    by simp
  then show ?thesis
    unfolding valid_arguments_def intended_arguments_def
    using weight_sum_mod [of "fst (chip_weight a)" "snd (chip_weight a)"] unfolding prod.collapse by argo
qed

text \<open>C21: Validation accepts exactly the configurations in the intended ranges, but for two deviations:
  a value of 4G or more is refused, although the message for get allows up to 8G, and chip
  weights whose sum is \<open>2 ^ 32\<close> are refused as both zero, because the sum wraps. Every
  configuration that is not accepted gives -1.\<close>

theorem validate_iff:
  "validate_input_params a =
     (if intended_arguments a \<and> unat (value_size a) < 2 ^ 32 \<and>
         unat (fst (chip_weight a)) + unat (snd (chip_weight a)) \<noteq> 2 ^ 32
      then 0 else - 1)"
  using validate_zero [of a] validate_result [of a] valid_intended [of a] by auto

section \<open>Options\<close>

lemma opt_u32_dec:
  assumes "0 < n" and "n < 2 ^ 31"
  shows "opt_u32 (dec_digits n) = of_nat n"
proof -
  have "n < 2 ^ 64"
    using assms(2) by simp
  then have "strtoull 0 (dec_digits n) = (of_nat n, [])"
    using strtoull_dec [OF assms(1), of "[]" 0] by simp
  moreover have "(ucast (of_nat n :: u64) :: u32) = of_nat n"
    using assms(2) by (intro unat_eqI) (simp add: unsigned_ucast_eq unat_of_nat take_bit_eq_mod)
  ultimately show ?thesis
    by (simp add: opt_u32_def u32_of_u64_def)
qed

lemma opt_int_dec:
  assumes "0 < n" and "n < 2 ^ 31"
  shows "opt_int (dec_digits n) = int n"
proof -
  have "scan_number 0 (dec_digits n) = Some (False, n, [])"
    using scan_number_dec [OF assms(1), of "[]" 0] by simp
  then have "opt_int (dec_digits n) = signed_take_bit 31 (int n)"
    using assms(2) by (simp add: opt_int_def strtol_def i32_of_long_def min_def)
  also have "\<dots> = int n"
    using assms(2) by (intro signed_take_bit_int_eq_self) auto
  finally show ?thesis .
qed

text \<open>Numeric options round trip: a positive number below \<open>2 ^ 31\<close> written in decimal is
  stored exactly, in the field of its option and in no other.\<close>

theorem numeric_options_roundtrip:
  assumes "0 < n" and "n < 2 ^ 31"
  shows "apply_option mem 1025 (dec_digits n) a = (True, a\<lparr>concurrency := int n\<rparr>) \<and>
         apply_option mem 1026 (dec_digits n) a = (True, a\<lparr>single_chip := int n\<rparr>) \<and>
         apply_option mem 1018 (dec_digits n) a = (True, a\<lparr>timeout_ms := int n\<rparr>) \<and>
         apply_option mem 1032 (dec_digits n) a = (True, a\<lparr>poll_cpu := int n\<rparr>) \<and>
         apply_option mem 1008 (dec_digits n) a = (True, a\<lparr>threads := of_nat n\<rparr>) \<and>
         apply_option mem 1003 (dec_digits n) a = (True, a\<lparr>jetty_count := of_nat n\<rparr>) \<and>
         apply_option mem 1016 (dec_digits n) a = (True, a\<lparr>seed := of_nat n\<rparr>) \<and>
         apply_option mem 1010 (dec_digits n) a = (True, a\<lparr>mixed_ratio := of_nat n\<rparr>)"
  by (simp add: apply_option_def opt_u32_dec [OF assms] opt_int_dec [OF assms])

text \<open>The configuration after the options \<open>opts\<close>, applied one after the other to the defaults.\<close>

definition options_result :: "bool \<Rightarrow> (int \<times> string) list \<Rightarrow> argument" where
  "options_result mem opts = foldl (\<lambda>a (c, optarg). snd (apply_option mem c optarg a)) default_arguments opts"

definition option_accepted :: "bool \<Rightarrow> (int \<times> string) list \<Rightarrow> nat \<Rightarrow> bool" where
  "option_accepted mem opts k \<longleftrightarrow> fst (apply_option mem (fst (opts ! k)) (snd (opts ! k)) (options_result mem (take k opts)))"

lemma apply_options_snoc:
  "apply_options mem (opts @ [(c, optarg)]) a =
     (case apply_options mem opts a of (ok, b) \<Rightarrow> if ok then apply_option mem c optarg b else (False, b))"
  by (induction opts arbitrary: a) (auto split: prod.splits)

lemma apply_options_result:
  "fst (apply_options mem opts default_arguments) \<longleftrightarrow> (\<forall>k < length opts. option_accepted mem opts k)"
  "fst (apply_options mem opts default_arguments) \<Longrightarrow> snd (apply_options mem opts default_arguments) = options_result mem opts"
proof (induction opts rule: rev_induct)
  case Nil
  {
    case 1
    then show ?case
      by simp
  next
    case 2
    then show ?case
      by (simp add: options_result_def)
  }
next
  case (snoc x opts)
  obtain c optarg where x: "x = (c, optarg)"
    by (cases x)
  obtain ok b where ab: "apply_options mem opts default_arguments = (ok, b)"
    by (cases "apply_options mem opts default_arguments")
  have same: "option_accepted mem (opts @ [x]) k \<longleftrightarrow> option_accepted mem opts k" if "k < length opts" for k
    using that by (simp add: option_accepted_def nth_append)
  have new: "option_accepted mem (opts @ [x]) (length opts) \<longleftrightarrow> fst (apply_option mem c optarg (options_result mem opts))"
    by (simp add: option_accepted_def x)
  {
    case 1
    then show ?case
      using snoc ab same new by (auto simp: x apply_options_snoc less_Suc_eq)
  next
    case 2
    then show ?case
      using snoc ab by (auto simp: x apply_options_snoc options_result_def split: if_splits)
  }
qed

text \<open>C27: Parsing accepts exactly the command lines with an argument, without a left-over operand, whose
  options are each accepted in turn, and whose resulting configuration, with the device
  \<^verbatim>\<open>bonding0\<close> if none was given, is valid; it then returns that configuration: the options
  applied in their order to the defaults. In every other case it returns -1.\<close>

theorem parse_arguments_iff:
  "(parse_arguments mem argc opts left_over a0 = (0, a) \<longleftrightarrow>
     argc \<noteq> 1 \<and> \<not> left_over \<and> (\<forall>k < length opts. option_accepted mem opts k) \<and>
     a = (if dev_name (options_result mem opts) = None
          then (options_result mem opts)\<lparr>dev_name := strdup mem ''bonding0''\<rparr> else options_result mem opts) \<and>
     valid_arguments a) \<and>
   fst (parse_arguments mem argc opts left_over a0) \<in> {0, - 1}"
proof (cases "argc = 1 \<or> left_over \<or> \<not> fst (apply_options mem opts default_arguments)")
  case True
  then have "fst (parse_arguments mem argc opts left_over a0) = - 1"
    by (cases "apply_options mem opts default_arguments") (auto simp: parse_arguments_def)
  moreover have "\<not> (argc \<noteq> 1 \<and> \<not> left_over \<and> (\<forall>k < length opts. option_accepted mem opts k))"
    using True apply_options_result(1) [of mem opts] by blast
  moreover from calculation(1) have "parse_arguments mem argc opts left_over a0 \<noteq> (0, a)"
    by auto
  ultimately show ?thesis
    by blast
next
  case False
  define b where "b = options_result mem opts"
  define a1 where "a1 = (if dev_name b = None then b\<lparr>dev_name := strdup mem ''bonding0''\<rparr> else b)"
  have "apply_options mem opts default_arguments = (True, b)"
    using False apply_options_result(2) [of mem opts] by (simp add: b_def prod_eq_iff)
  then have p: "parse_arguments mem argc opts left_over a0 =
      (if dev_name a1 = None then (- 1, a1) else (validate_input_params a1, a1))"
    using False by (simp add: parse_arguments_def Let_def a1_def)
  have eq: "parse_arguments mem argc opts left_over a0 = (0, a) \<longleftrightarrow> a = a1 \<and> valid_arguments a"
  proof (cases "dev_name a1 = None")
    case True
    then have "\<not> valid_arguments a1"
      by (simp add: valid_arguments_def)
    then show ?thesis
      using p True by auto
  next
    case False
    then show ?thesis
      using p validate_zero [of a1] by auto
  qed
  have range: "fst (parse_arguments mem argc opts left_over a0) \<in> {0, - 1}"
    using p validate_result [of a1] by simp
  have "\<forall>k < length opts. option_accepted mem opts k"
    using False apply_options_result(1) [of mem opts] by blast
  then show ?thesis
    using eq range False by (simp only: b_def a1_def) simp
qed

theorem parse_arguments_iff_witness:
  "parse_arguments True 3 [(1008, dec_digits 4)] False default_arguments =
     (0, default_arguments\<lparr>threads := 4, dev_name := Some ''bonding0''\<rparr>)"
proof -
  have "apply_option True 1008 (dec_digits 4) default_arguments = (True, default_arguments\<lparr>threads := 4\<rparr>)"
    using numeric_options_roundtrip [of 4 True default_arguments] by simp
  moreover have "valid_arguments (default_arguments\<lparr>threads := 4, dev_name := Some ''bonding0''\<rparr>)"
    by (simp add: valid_arguments_def default_arguments_def)
  ultimately show ?thesis
    using parse_arguments_iff [of True 3 "[(1008, dec_digits 4)]" False default_arguments
        "default_arguments\<lparr>threads := 4, dev_name := Some ''bonding0''\<rparr>"]
    by (simp add: option_accepted_def options_result_def strdup_def default_arguments_def)
qed

text \<open>Without options the defaults are accepted, on the device \<^verbatim>\<open>bonding0\<close>.\<close>

theorem parse_defaults:
  assumes "argc \<noteq> 1"
  shows "parse_arguments True argc [] False a0 = (0, default_arguments\<lparr>dev_name := Some ''bonding0''\<rparr>)"
proof -
  have "valid_arguments (default_arguments\<lparr>dev_name := Some ''bonding0''\<rparr>)"
    by (simp add: valid_arguments_def default_arguments_def)
  then have "validate_input_params (default_arguments\<lparr>dev_name := Some ''bonding0''\<rparr>) = 0"
    by (simp add: validate_zero)
  moreover have "dev_name default_arguments = None"
    by (simp add: default_arguments_def)
  ultimately show ?thesis
    using assms by (simp add: parse_arguments_def strdup_def)
qed

section \<open>Witnesses\<close>

theorem parse_size_roundtrip_witness:
  "unat (parse_size (dec_digits 8 @ ''M'')) = 8388608"
  using parse_size_roundtrip [of "''M''" 1048576 8] by (simp add: size_suffixes_def)

theorem numeric_options_roundtrip_witness:
  "apply_option True 1025 (dec_digits 7) default_arguments = (True, default_arguments\<lparr>concurrency := 7\<rparr>)"
  using numeric_options_roundtrip [of 7 True default_arguments] by simp

theorem parse_defaults_witness:
  "fst (parse_arguments True 3 [] False default_arguments) = 0"
  using parse_defaults [of 3 default_arguments] by simp

text \<open>C37: The option table and the switch agree: the 33 options have different names and different
  codes, and a code is accepted by the switch, for some argument, exactly when it is in the table.\<close>

theorem option_table_exact:
  "length g_long_options = 33 \<and> distinct (map fst g_long_options) \<and>
   distinct (map (snd \<circ> snd) g_long_options) \<and>
   ((\<exists>optarg. fst (apply_option mem c optarg a)) \<longleftrightarrow> c \<in> set (map (snd \<circ> snd) g_long_options))"
proof -
  have names: "length g_long_options = 33 \<and> distinct (map fst g_long_options) \<and>
      distinct (map (snd \<circ> snd) g_long_options)"
    by (simp add: g_long_options_def)
  obtain w where w: "sscanf_u_u ''1:1'' = Some w"
    by (simp add: sscanf_u_u_def scan_simps)
  have "\<not> fst (apply_option mem c optarg a)" if "c \<notin> set (map (snd \<circ> snd) g_long_options)" for optarg
    using that by (simp add: g_long_options_def apply_option_def)
  moreover have "fst (apply_option mem c (if c = 1004 then ''none'' else if c = 1009 then ''get'' else ''1:1'') a)"
    if "c \<in> set (map (snd \<circ> snd) g_long_options)"
    using that unfolding g_long_options_def
    by (simp only: list.map list.set comp_def fst_conv snd_conv insert_iff empty_iff)
      (elim disjE FalseE; simp add: apply_option_def w)
  ultimately have "(\<exists>optarg. fst (apply_option mem c optarg a)) \<longleftrightarrow>
      c \<in> set (map (snd \<circ> snd) g_long_options)"
    by blast
  with names show ?thesis
    by blast
qed

end
