(* ===== verification/ChipWeight.thy ===== *)
theory ChipWeight
  imports Argument
begin

text \<open>
  Two small algorithms of \<^verbatim>\<open>src/kv_bench.cpp\<close> that the routing of sends rests on: the
  32-bit xorshift generator \<^verbatim>\<open>rng_next\<close> and the weighted choice of a chip per send,
  \<^verbatim>\<open>pick_weighted_chip\<close>. The weighted choice recomputes its counters from the start for
  every send; the lemmas relate it to one run that carries the counter along.
\<close>

section \<open>The generator\<close>

definition rng_next :: "u32 \<Rightarrow> u32" where
  "rng_next state =
     (let x1 = state XOR push_bit 13 state;
          x2 = x1 XOR drop_bit 17 x1
      in x2 XOR push_bit 5 x2)"

lemma xor_push_inj:
  fixes x y :: "'a :: len word"
  assumes k: "0 < k" and eq: "x XOR push_bit k x = y XOR push_bit k y"
  shows "x = y"
proof (rule bit_word_eqI)
  fix n assume "n < LENGTH('a)"
  then show "bit x n \<longleftrightarrow> bit y n"
  proof (induction n rule: less_induct)
    case (less n)
    have "bit (x XOR push_bit k x) n \<longleftrightarrow> bit (y XOR push_bit k y) n"
      by (simp add: eq)
    moreover have "bit x (n - k) \<longleftrightarrow> bit y (n - k)" if "k \<le> n"
      using less that k by (intro less.IH) auto
    ultimately show ?case
      using less.prems by (auto simp: bit_xor_iff bit_push_bit_iff)
  qed
qed

lemma xor_drop_inj:
  fixes x y :: "'a :: len word"
  assumes k: "0 < k" and eq: "x XOR drop_bit k x = y XOR drop_bit k y"
  shows "x = y"
proof (rule bit_word_eqI)
  fix n assume "n < LENGTH('a)"
  then show "bit x n \<longleftrightarrow> bit y n"
  proof (induction "LENGTH('a) - n" arbitrary: n rule: less_induct)
    case less
    have "bit (x XOR drop_bit k x) n \<longleftrightarrow> bit (y XOR drop_bit k y) n"
      by (simp add: eq)
    moreover have "bit x (k + n) \<longleftrightarrow> bit y (k + n)"
    proof (cases "k + n < LENGTH('a)")
      case True
      then show ?thesis
        using less k by (intro less.hyps) auto
    next
      case False
      then show ?thesis
        using bit_imp_le_length [of x "k + n"] bit_imp_le_length [of y "k + n"] by auto
    qed
    ultimately show ?case
      by (auto simp: bit_xor_iff bit_drop_bit_eq)
  qed
qed

lemma rng_next_inj: "inj rng_next"
proof (rule injI)
  fix x y assume eq: "rng_next x = rng_next y"
  define f :: "u32 \<Rightarrow> u32" where "f z = z XOR push_bit 13 z" for z
  define g :: "u32 \<Rightarrow> u32" where "g z = f z XOR drop_bit 17 (f z)" for z
  have "g x XOR push_bit 5 (g x) = g y XOR push_bit 5 (g y)"
    using eq by (simp add: rng_next_def Let_def f_def g_def)
  then have "g x = g y"
    by (rule xor_push_inj [of 5, rotated]) simp
  then have "f x = f y"
    unfolding g_def by (rule xor_drop_inj [of 17, rotated]) simp
  then show "x = y"
    unfolding f_def by (rule xor_push_inj [of 13, rotated]) simp
qed

text \<open>C30: The generator is a permutation of the 32-bit words whose only fixed output for
  input 0 is 0: different states stay different, every state has a predecessor, and a
  non-zero seed never reaches the stuck state 0.\<close>

theorem rng_permutes:
  "bij rng_next \<and> (\<forall>x. rng_next x = 0 \<longleftrightarrow> x = 0)"
proof -
  have "bij rng_next"
    using rng_next_inj finite_UNIV_inj_surj [of rng_next] by (simp add: bij_def)
  moreover have "rng_next 0 = 0"
    by (simp add: rng_next_def)
  then have "rng_next x = 0 \<longleftrightarrow> x = 0" for x
    using rng_next_inj injD by fastforce
  ultimately show ?thesis
    by blast
qed

section \<open>The weighted choice\<close>

text \<open>The loop of \<^verbatim>\<open>pick_weighted_chip\<close> from step \<open>i\<close>, with the counters of both chips. Products
  and differences are 32-bit and the deficits are read as signed.\<close>

function weighted_loop :: "u32 \<Rightarrow> u32 \<Rightarrow> u32 \<Rightarrow> nat \<Rightarrow> nat \<Rightarrow> u32 \<Rightarrow> u32 \<Rightarrow> int" where
  "weighted_loop w1 w2 tot send_idx i c1 c2 =
     (if i > send_idx then 1
      else
        let want1 = of_nat (i + 1) * w1;
            want2 = of_nat (i + 1) * w2;
            def1 = sint (want1 - c1 * tot);
            def2 = sint (want2 - c2 * tot)
        in if def1 \<ge> def2
           then (if i = send_idx then 1 else weighted_loop w1 w2 tot send_idx (i + 1) (c1 + 1) c2)
           else (if i = send_idx then 2 else weighted_loop w1 w2 tot send_idx (i + 1) c1 (c2 + 1)))"
  by auto

termination weighted_loop
  by (relation "measure (\<lambda>(w1, w2, tot, send_idx, i, c1, c2). Suc send_idx - i)") auto

declare weighted_loop.simps [simp del]

definition pick_weighted_chip :: "argument \<Rightarrow> nat \<Rightarrow> int" where
  "pick_weighted_chip args send_idx =
     (let w1 = fst (chip_weight args); w2 = snd (chip_weight args); tot = w1 + w2
      in if tot = 0 then 1 else if w2 = 0 then 1 else if w1 = 0 then 2
         else weighted_loop w1 w2 tot send_idx 0 0 0)"

text \<open>The same choice with exact integers: the count of chip 1 after \<open>i\<close> sends.\<close>

fun chip1_count :: "int \<Rightarrow> int \<Rightarrow> nat \<Rightarrow> int" where
  "chip1_count w1 w2 0 = 0"
| "chip1_count w1 w2 (Suc i) =
     (let c = chip1_count w1 w2 i
      in if 2 * ((int i + 1) * w1 - c * (w1 + w2)) \<ge> w1 + w2 then c + 1 else c)"

definition ideal_chip :: "int \<Rightarrow> int \<Rightarrow> nat \<Rightarrow> int" where
  "ideal_chip w1 w2 i =
     (if 2 * ((int i + 1) * w1 - chip1_count w1 w2 i * (w1 + w2)) \<ge> w1 + w2 then 1 else 2)"

text \<open>The count never strays more than half a send from its share.\<close>

lemma chip1_count_share:
  assumes "0 \<le> w1" and "0 \<le> w2"
  shows "\<bar>2 * (int i * w1 - chip1_count w1 w2 i * (w1 + w2))\<bar> \<le> w1 + w2"
proof (induction i)
  case (Suc i)
  let ?d = "int i * w1 - chip1_count w1 w2 i * (w1 + w2)"
  have e: "(int i + 1) * w1 - chip1_count w1 w2 i * (w1 + w2) = ?d + w1"
    by (simp add: algebra_simps)
  have s: "int (Suc i) * w1 - chip1_count w1 w2 (Suc i) * (w1 + w2) =
      ?d + w1 - (if 2 * (?d + w1) \<ge> w1 + w2 then w1 + w2 else 0)"
    unfolding chip1_count.simps Let_def e by (simp add: algebra_simps)
  show ?case
    unfolding s using Suc assms by (auto simp: abs_le_iff)
qed (use assms in simp)

lemma chip1_count_count: "chip1_count w1 w2 n = int (length (filter (\<lambda>i. ideal_chip w1 w2 i = 1) [0..<n]))"
  by (induction n) (auto simp: ideal_chip_def Let_def)

lemma sint_of_int_small:
  assumes "- (2 ^ 31) \<le> k" and "k < 2 ^ 31"
  shows "sint (word_of_int k :: u32) = k"
  using assms by (simp add: signed_of_int signed_take_bit_int_eq_self)

text \<open>The 32-bit loop takes the ideal choice at every step: products may wrap, but the
  deficits they leave fit a signed 32-bit integer.\<close>

lemma small_deficit:
  fixes a b d :: int
  assumes "0 \<le> a" and "0 \<le> b" and "a + b < 2 ^ 30" and "\<bar>2 * d\<bar> \<le> a + b"
  shows "- (2 ^ 31) \<le> d + a \<and> d + a < 2 ^ 31"
  using assms by (simp add: abs_le_iff)

lemma deficit_exact:
  fixes w1 w2 :: u32
  assumes small: "uint w1 + uint w2 < 2 ^ 30"
    and d: "d = int i * uint w1 - c * (uint w1 + uint w2)" and "\<bar>2 * d\<bar> \<le> uint w1 + uint w2"
  shows "sint (of_nat (i + 1) * w1 - word_of_int c * (w1 + w2)) = d + uint w1"
proof -
  have w: "w1 = word_of_int (uint w1)" "w2 = word_of_int (uint w2)"
    by simp_all
  have "of_nat (i + 1) * w1 - word_of_int c * (w1 + w2) =
      word_of_int (int (i + 1) * uint w1 - c * (uint w1 + uint w2))"
    by (simp add: algebra_simps)
  also have "int (i + 1) * uint w1 - c * (uint w1 + uint w2) = d + uint w1"
    unfolding d by (simp add: algebra_simps)
  finally have e: "of_nat (i + 1) * w1 - word_of_int c * (w1 + w2) = word_of_int (d + uint w1)" .
  have "- (2 ^ 31) \<le> d + uint w1" and "d + uint w1 < 2 ^ 31"
    using small_deficit [OF uint_nonnegative uint_nonnegative assms(1,3)] by blast+
  then show ?thesis
    unfolding e by (rule sint_of_int_small)
qed

lemma weighted_choice_exact:
  fixes w1 w2 :: u32
  assumes small: "uint w1 + uint w2 < 2 ^ 30" and c: "c = chip1_count (uint w1) (uint w2) i"
  shows "sint (of_nat (i + 1) * w1 - word_of_int c * (w1 + w2))
           \<ge> sint (of_nat (i + 1) * w2 - word_of_int (int i - c) * (w1 + w2)) \<longleftrightarrow>
         2 * ((int i + 1) * uint w1 - c * (uint w1 + uint w2)) \<ge> uint w1 + uint w2"
proof -
  define d where "d = int i * uint w1 - c * (uint w1 + uint w2)"
  have b: "\<bar>2 * d\<bar> \<le> uint w1 + uint w2"
    unfolding d_def c by (rule chip1_count_share) simp_all
  have l: "sint (of_nat (i + 1) * w1 - word_of_int c * (w1 + w2)) = d + uint w1"
    using small d_def b by (rule deficit_exact)
  have r: "sint (of_nat (i + 1) * w2 - word_of_int (int i - c) * (w1 + w2)) = - d + uint w2"
    unfolding add.commute [of w1 w2]
    by (rule deficit_exact) (use small b in \<open>simp_all add: d_def algebra_simps\<close>)
  have m: "(int i + 1) * uint w1 - c * (uint w1 + uint w2) = d + uint w1"
    unfolding d_def by (simp add: algebra_simps)
  show ?thesis
    unfolding l r m by arith
qed

lemma weighted_loop_ideal:
  fixes w1 w2 :: u32
  assumes small: "uint w1 + uint w2 < 2 ^ 30" and "i \<le> idx"
    and "c1 = word_of_int (chip1_count (uint w1) (uint w2) i)"
    and "c2 = word_of_int (int i - chip1_count (uint w1) (uint w2) i)"
  shows "weighted_loop w1 w2 (w1 + w2) idx i c1 c2 = ideal_chip (uint w1) (uint w2) idx"
  using assms(2-)
proof (induction "idx - i" arbitrary: i c1 c2)
  case (0 i)
  then have "i = idx"
    by simp
  then show ?case
    unfolding weighted_loop.simps [of _ _ _ idx i] Let_def 0(3,4)
      weighted_choice_exact [OF small refl] ideal_chip_def by simp
next
  case (Suc k)
  let ?c = "chip1_count (uint w1) (uint w2) i"
  let ?b = "2 * ((int i + 1) * uint w1 - ?c * (uint w1 + uint w2)) \<ge> uint w1 + uint w2"
  have lt: "\<not> idx < i" "i \<noteq> idx"
    using Suc by simp_all
  have "weighted_loop w1 w2 (w1 + w2) idx i c1 c2 =
      (if ?b then weighted_loop w1 w2 (w1 + w2) idx (i + 1) (c1 + 1) c2
       else weighted_loop w1 w2 (w1 + w2) idx (i + 1) c1 (c2 + 1))"
    unfolding weighted_loop.simps [of _ _ _ idx i] Let_def Suc.prems(2,3)
      weighted_choice_exact [OF small refl] using lt by simp
  also have "\<dots> = ideal_chip (uint w1) (uint w2) idx"
    using Suc.hyps(2) Suc.prems
    by (auto simp: Let_def algebra_simps intro!: Suc.hyps(1))
  finally show ?case .
qed

lemma pick_weighted_chip_ideal:
  assumes "chip_weight args = (w1, w2)" and "uint w1 + uint w2 < 2 ^ 30"
    and "0 < w1" and "0 < w2"
  shows "pick_weighted_chip args i = ideal_chip (uint w1) (uint w2) i"
proof -
  have "uint (w1 + w2) = uint w1 + uint w2"
    using assms(2) by (simp add: uint_word_ariths)
  moreover have "uint w1 > 0"
    using assms(3) by (simp add: word_less_def)
  ultimately have "0 < uint (w1 + w2)"
    using uint_nonnegative [of w2] by linarith
  then have "w1 + w2 \<noteq> 0"
    by auto
  moreover have "w1 \<noteq> 0" and "w2 \<noteq> 0"
    using assms(3,4) by simp_all
  ultimately show ?thesis
    using weighted_loop_ideal [OF assms(2), of 0 i 0 0]
    unfolding pick_weighted_chip_def Let_def assms(1) by simp
qed

definition chip1_sends :: "argument \<Rightarrow> nat \<Rightarrow> int" where
  "chip1_sends args n = int (length (filter (\<lambda>i. pick_weighted_chip args i = 1) [0..<n]))"

lemma chip1_sends_near:
  assumes w: "chip_weight args = (w1, w2)" and pos: "0 < uint w1 + uint w2"
    and small: "uint w1 + uint w2 < 2 ^ 30"
  shows "\<bar>2 * (int n * uint w1 - chip1_sends args n * (uint w1 + uint w2))\<bar> \<le> uint w1 + uint w2"
proof -
  have sum: "uint (w1 + w2) = uint w1 + uint w2"
    using small by (simp add: uint_word_ariths)
  then have tot: "w1 + w2 \<noteq> 0"
    using pos by auto
  consider "w1 = 0" | "w2 = 0" | "0 < w1" "0 < w2"
    by (auto simp: word_gt_0)
  then show ?thesis
  proof cases
    case 1
    then have "chip1_sends args n = 0"
      using w tot by (simp add: chip1_sends_def pick_weighted_chip_def Let_def)
    then show ?thesis
      using 1 by simp
  next
    case 2
    then have "chip1_sends args n = int n"
      using w tot by (simp add: chip1_sends_def pick_weighted_chip_def Let_def)
    then show ?thesis
      using 2 by simp
  next
    case 3
    then have "chip1_sends args n = chip1_count (uint w1) (uint w2) n"
      using pick_weighted_chip_ideal [OF w small]
      by (simp add: chip1_sends_def chip1_count_count)
    then show ?thesis
      using chip1_count_share [of "uint w1" "uint w2" n] by simp
  qed
qed

lemma near_multiple_exact:
  fixes a t :: int
  assumes "\<bar>2 * (a * t)\<bar> \<le> t" and "0 < t"
  shows "a = 0"
proof (rule ccontr)
  assume "a \<noteq> 0"
  then have "t \<le> \<bar>a * t\<bar>"
    using assms(2) by (simp add: abs_mult mult_le_cancel_right1)
  then show False
    using assms by simp
qed

text \<open>C12: With weights \<open>W1:W2\<close> whose sum is below 2^30, the number of the first \<open>n\<close> sends that
  go to chip 1 differs from its share \<open>n * W1 / (W1 + W2)\<close> by at most one half, for every
  \<open>n\<close>; after every full round of \<open>W1 + W2\<close> sends the counts are exact. The 32-bit products
  may wrap on the way.\<close>

theorem weighted_share:
  assumes "chip_weight args = (w1, w2)" and "0 < uint w1 + uint w2"
    and "uint w1 + uint w2 < 2 ^ 30"
  shows "\<bar>2 * (chip1_sends args n * (uint w1 + uint w2) - int n * uint w1)\<bar> \<le> uint w1 + uint w2 \<and>
    chip1_sends args (k * nat (uint w1 + uint w2)) = int k * uint w1"
proof -
  let ?t = "uint w1 + uint w2"
  have "\<bar>2 * ((int k * uint w1 - chip1_sends args (k * nat ?t)) * ?t)\<bar> \<le> ?t"
    using chip1_sends_near [OF assms, of "k * nat ?t"] by (simp add: algebra_simps)
  then have "chip1_sends args (k * nat ?t) = int k * uint w1"
    using near_multiple_exact [OF _ assms(2)] by fastforce
  moreover have "\<bar>2 * (chip1_sends args n * ?t - int n * uint w1)\<bar> \<le> ?t"
    using chip1_sends_near [OF assms, of n] by (simp add: abs_le_iff)
  ultimately show ?thesis
    by blast
qed

theorem weighted_share_witness:
  "chip1_sends (default_arguments\<lparr>chip_weight := (7, 3)\<rparr>) 10 = 7"
  using weighted_share [of "default_arguments\<lparr>chip_weight := (7, 3)\<rparr>" 7 3 0 1] by simp

lemma ideal_chip_even: "chip1_count 1 1 n = (int n + 1) div 2"
  by (induction n) (auto simp: Let_def; presburger)+

text \<open>The sequences the comment documents: weights 7:3 give the ten sends
  1,2,1,1,1,2,1,1,2,1, and weights 1:1 alternate for ever, chip 1 first.\<close>

theorem weighted_documented:
  "map (pick_weighted_chip (args\<lparr>chip_weight := (7, 3)\<rparr>)) [0..<10] = [1, 2, 1, 1, 1, 2, 1, 1, 2, 1] \<and>
   (\<forall>i. pick_weighted_chip (args\<lparr>chip_weight := (1, 1)\<rparr>) i = (if even i then 1 else 2))"
proof
  have "pick_weighted_chip (args\<lparr>chip_weight := (7, 3)\<rparr>) = ideal_chip 7 3"
    by (rule ext) (simp add: pick_weighted_chip_ideal)
  then show "map (pick_weighted_chip (args\<lparr>chip_weight := (7, 3)\<rparr>)) [0..<10] = [1, 2, 1, 1, 1, 2, 1, 1, 2, 1]"
    by (simp add: upt_rec numeral_nat ideal_chip_def Let_def)
  have "pick_weighted_chip (args\<lparr>chip_weight := (1, 1)\<rparr>) i = ideal_chip 1 1 i" for i
    using pick_weighted_chip_ideal [of "args\<lparr>chip_weight := (1, 1)\<rparr>" 1 1 i] by simp
  then show "\<forall>i. pick_weighted_chip (args\<lparr>chip_weight := (1, 1)\<rparr>) i = (if even i then 1 else 2)"
    by (auto simp: ideal_chip_def ideal_chip_even; presburger)
qed

end
