(* ===== verification/Topology.thy ===== *)
theory Topology
  imports ChipWeight
begin

text \<open>
  The machine as \<^verbatim>\<open>src/kv_bench.cpp\<close> sees it: which NUMA node a CPU is on, which of the two
  chips a node belongs to, the CPU lists of the command line and their automatic choice.

  What the operating system answers is a record: the number of configured CPUs
  (\<^verbatim>\<open>sysconf\<close>), the entries of a CPU's sysfs directory in the order of \<^verbatim>\<open>readdir\<close>
  (\<^term>\<open>None\<close> when \<^verbatim>\<open>opendir\<close> fails) and whether \<^verbatim>\<open>strdup\<close> gets memory. An output array with
  a length is a list.
\<close>

record machine =
  ncpu_conf :: int
  cpu_dir :: "int \<Rightarrow> string list option"
  can_alloc :: bool

abbreviation (input) MAX_CPUS :: nat where "MAX_CPUS \<equiv> 1024"
abbreviation (input) CPU_SETSIZE :: int where "CPU_SETSIZE \<equiv> 1024"
abbreviation (input) INVALID_CHIP :: int where "INVALID_CHIP \<equiv> 255"

section \<open>Nodes and chips\<close>

fun find_node :: "string list \<Rightarrow> int" where
  "find_node [] = -1"
| "find_node (e # es) =
     (if take 4 e = ''node'' \<and> length e > 4 \<and> 48 \<le> char_code (e ! 4) \<and> char_code (e ! 4) \<le> 57
      then atoi (drop 4 e) else find_node es)"

text \<open>The node of a CPU, and the function with its cache \<^verbatim>\<open>g_cpu_numa\<close> of the nodes found so far.\<close>

definition cpu_node :: "machine \<Rightarrow> int \<Rightarrow> int" where
  "cpu_node m cpu = (case cpu_dir m cpu of None \<Rightarrow> -1 | Some es \<Rightarrow> find_node es)"

record numa_cache =
  g_cpu_numa :: "int \<Rightarrow> int"
  g_cpu_numa_known :: "int \<Rightarrow> bool"

definition read_cpu_numa :: "machine \<Rightarrow> int \<Rightarrow> numa_cache \<Rightarrow> int \<times> numa_cache" where
  "read_cpu_numa m cpu g =
     (if 0 \<le> cpu \<and> cpu < int MAX_CPUS \<and> g_cpu_numa_known g cpu then (g_cpu_numa g cpu, g)
      else case cpu_dir m cpu of
             None \<Rightarrow> (-1, g)
           | Some es \<Rightarrow>
               (let node = find_node es
                in (node,
                    if 0 \<le> cpu \<and> cpu < int MAX_CPUS
                    then g\<lparr>g_cpu_numa_known := (g_cpu_numa_known g)(cpu := (node \<ge> 0)),
                           g_cpu_numa := (g_cpu_numa g)(cpu := node)\<rparr>
                    else g)))"

fun read_cpus :: "machine \<Rightarrow> int list \<Rightarrow> numa_cache \<Rightarrow> int list \<times> numa_cache" where
  "read_cpus m [] g = ([], g)"
| "read_cpus m (c # cs) g =
     (let (n, g1) = read_cpu_numa m c g; (ns, g2) = read_cpus m cs g1 in (n # ns, g2))"

definition no_cache :: numa_cache where
  "no_cache = \<lparr>g_cpu_numa = (\<lambda>_. 0), g_cpu_numa_known = (\<lambda>_. False)\<rparr>"

definition enumerate_all_cpus :: "machine \<Rightarrow> nat \<Rightarrow> int list" where
  "enumerate_all_cpus m max_out = map int [0..<nat (min (ncpu_conf m) (int max_out))]"

fun count_nodes :: "int list \<Rightarrow> bool list \<Rightarrow> nat \<Rightarrow> nat" where
  "count_nodes [] seen n = n"
| "count_nodes (node # nodes) seen n =
     (if 0 \<le> node \<and> node < 64 \<and> \<not> seen ! nat node
      then count_nodes nodes (seen[nat node := True]) (n + 1)
      else count_nodes nodes seen n)"

definition get_num_numa_nodes :: "machine \<Rightarrow> int" where
  "get_num_numa_nodes m =
     (let n = count_nodes (fst (read_cpus m (enumerate_all_cpus m MAX_CPUS) no_cache)) (replicate 64 False) 0
      in if n > 0 then int n else 1)"

definition numa_to_chip :: "machine \<Rightarrow> int \<Rightarrow> int" where
  "numa_to_chip m numa =
     (let numa_count = get_num_numa_nodes m
      in if numa < 0 \<or> numa_count \<le> 0 then -1
         else if numa < (numa_count + 1) div 2 then 1 else 2)"

definition chip_to_first_numa :: "machine \<Rightarrow> int \<Rightarrow> int" where
  "chip_to_first_numa m chip =
     (case find (\<lambda>n. numa_to_chip m n = chip) (map int [0..<nat (get_num_numa_nodes m)]) of
        Some n \<Rightarrow> n | None \<Rightarrow> -1)"

definition cpu_to_chip :: "machine \<Rightarrow> int \<Rightarrow> int" where
  "cpu_to_chip m cpu = numa_to_chip m (cpu_node m cpu)"

section \<open>CPU lists\<close>

fun cpu_range :: "int \<Rightarrow> int \<Rightarrow> nat \<Rightarrow> int list" where
  "cpu_range c hi 0 = []"
| "cpu_range c hi (Suc room) = (if c \<le> hi then c # cpu_range (c + 1) hi room else [])"

definition cpu_part :: "string \<Rightarrow> int \<times> int" where
  "cpu_part part =
     (case strchr (CHR ''-'') part of
        Some (a, b) \<Rightarrow> (atoi a, atoi b)
      | None \<Rightarrow> (atoi part, atoi part))"

fun cpu_parts :: "string list \<Rightarrow> int list \<Rightarrow> nat \<Rightarrow> int list" where
  "cpu_parts [] out max_out = out"
| "cpu_parts (part # parts) out max_out =
     (if \<not> length out < max_out then out
      else let (lo, hi) = cpu_part part
           in if lo < 0 \<or> hi < lo then cpu_parts parts out max_out
              else cpu_parts parts (out @ cpu_range lo hi (max_out - length out)) max_out)"

definition parse_cpu_list :: "machine \<Rightarrow> string option \<Rightarrow> nat \<Rightarrow> int list" where
  "parse_cpu_list m lst max_out =
     (case lst of None \<Rightarrow> []
      | Some s \<Rightarrow> if s = [] \<or> \<not> can_alloc m then []
                  else cpu_parts (strtok_all (CHR '','') s) [] max_out)"

fun cpu_mask :: "string list \<Rightarrow> int set \<Rightarrow> int set option" where
  "cpu_mask [] msk = Some msk"
| "cpu_mask (part # parts) msk =
     (let (cpu, rest) = strtol 10 part
      in if rest = part \<or> rest \<noteq> [] \<or> cpu < 0 \<or> cpu \<ge> CPU_SETSIZE then None
         else cpu_mask parts (insert cpu msk))"

text \<open>\<^verbatim>\<open>sched_setaffinity\<close> is a parameter; it gets the mask and returns 0 or -1.\<close>

definition apply_cpu_list :: "machine \<Rightarrow> (int set \<Rightarrow> int) \<Rightarrow> string option \<Rightarrow> int" where
  "apply_cpu_list m sched_setaffinity lst =
     (case lst of None \<Rightarrow> 0
      | Some s \<Rightarrow>
          if s = [] then 0
          else if \<not> can_alloc m then -1
          else case cpu_mask (strtok_all (CHR '','') s) {} of
                 None \<Rightarrow> -1
               | Some msk \<Rightarrow> sched_setaffinity msk)"

section \<open>Automatic choice\<close>

text \<open>The partial Fisher-Yates loops; they thread one generator state.\<close>

function shuffle_front :: "nat \<Rightarrow> nat \<Rightarrow> u32 \<Rightarrow> int list \<Rightarrow> u32 \<times> int list" where
  "shuffle_front per i rng c =
     (if i < length c \<and> i < per
      then let r = rng_next rng; j = i + unat r mod (length c - i)
           in shuffle_front per (i + 1) r (c[i := c ! j, j := c ! i])
      else (rng, c))"
  by auto

termination shuffle_front
  by (relation "measure (\<lambda>(per, i, rng, c). length c - i)") auto

declare shuffle_front.simps [simp del]

definition cpus_per_chip :: "argument \<Rightarrow> bool \<Rightarrow> nat" where
  "cpus_per_chip args is_client =
     (let t0 = (if threads args > 0 then threads args else 1);
          target = (if \<not> is_client \<and> t0 > 8 then 8 else t0);
          per = (target + 1) div 2
      in unat (if per < 1 then 1 else per))"

definition auto_select_cpus :: "machine \<Rightarrow> argument \<Rightarrow> bool \<Rightarrow> nat \<Rightarrow> int list" where
  "auto_select_cpus m args is_client max_out =
     (if affinity_mode args \<noteq> AFF_AFFINITY then enumerate_all_cpus m max_out
      else
        let all = enumerate_all_cpus m MAX_CPUS;
            c1 = filter (\<lambda>c. cpu_to_chip m c = 1) all;
            c2 = filter (\<lambda>c. cpu_to_chip m c = 2) all;
            per = cpus_per_chip args is_client;
            (r1, s1) = shuffle_front per 0 (seed args XOR 0x9e3779b9) c1;
            (r2, s2) = shuffle_front per 0 r1 c2;
            out = take max_out (take per s1 @ take per s2)
        in if out = [] then enumerate_all_cpus m max_out else out)"

definition my_cpu_list :: "machine \<Rightarrow> argument \<Rightarrow> bool \<Rightarrow> nat \<Rightarrow> int list" where
  "my_cpu_list m args is_client max_out =
     (let cpus = parse_cpu_list m (if is_client then source_cpus args else destination_cpus args) max_out
      in if cpus \<noteq> [] then cpus else auto_select_cpus m args is_client max_out)"

definition first_dst_chip :: "machine \<Rightarrow> argument \<Rightarrow> int" where
  "first_dst_chip m args =
     (case find (\<lambda>c. c > 0) (map (cpu_to_chip m) (my_cpu_list m args False MAX_CPUS)) of
        Some chip \<Rightarrow> chip | None \<Rightarrow> -1)"

definition auto_poll_cpu :: "machine \<Rightarrow> argument \<Rightarrow> bool \<Rightarrow> int" where
  "auto_poll_cpu m args is_client =
     (let used = my_cpu_list m args is_client MAX_CPUS;
          free_cpus = filter (\<lambda>c. \<not> c \<in> set used) (enumerate_all_cpus m MAX_CPUS)
      in if free_cpus = [] then -1
         else free_cpus ! (unat (rng_next (seed args XOR 0x51ed270b)) mod length free_cpus))"

section \<open>Lemmas: nodes\<close>

definition cache_ok :: "machine \<Rightarrow> numa_cache \<Rightarrow> bool" where
  "cache_ok m g \<longleftrightarrow> (\<forall>c. g_cpu_numa_known g c \<longrightarrow> g_cpu_numa g c = cpu_node m c)"

lemma read_cpu_numa_ok:
  assumes "cache_ok m g" and "read_cpu_numa m cpu g = (n, g')"
  shows "n = cpu_node m cpu \<and> cache_ok m g'"
  using assms by (auto simp: read_cpu_numa_def cache_ok_def cpu_node_def Let_def
      split: if_splits option.splits)

lemma read_cpus_ok:
  assumes "cache_ok m g"
  shows "fst (read_cpus m cs g) = map (cpu_node m) cs \<and> cache_ok m (snd (read_cpus m cs g))"
  using assms
proof (induction cs arbitrary: g)
  case (Cons c cs)
  obtain n g1 where r: "read_cpu_numa m c g = (n, g1)"
    by fastforce
  with Cons.prems have "n = cpu_node m c" "cache_ok m g1"
    using read_cpu_numa_ok by blast+
  with Cons.IH [of g1] show ?case
    by (cases "read_cpus m cs g1") (simp add: r)
qed simp

lemma no_cache_ok [simp]: "cache_ok m no_cache"
  by (simp add: cache_ok_def no_cache_def)

text \<open>The node cache is invisible: whatever CPUs are asked for, in any order and with
  repetitions, the cached function answers what an uncached directory scan would.\<close>

theorem numa_cache_transparent:
  "fst (read_cpus m cs no_cache) = map (cpu_node m) cs"
  by (simp add: read_cpus_ok)

lemma read_cpus_no_cache: "fst (read_cpus m cs no_cache) = map (cpu_node m) cs"
  by (simp add: read_cpus_ok)

lemma set_enumerate_all_cpus:
  "set (enumerate_all_cpus m k) = {0..<min (ncpu_conf m) (int k)}"
proof -
  have "set (enumerate_all_cpus m k) = int ` {0..<nat (min (ncpu_conf m) (int k))}"
    by (simp add: enumerate_all_cpus_def)
  also have "\<dots> = {0..<int (nat (min (ncpu_conf m) (int k)))}"
    by (subst image_int_atLeastLessThan) simp
  also have "\<dots> = {0..<min (ncpu_conf m) (int k)}"
    by auto
  finally show ?thesis .
qed

lemma distinct_enumerate_all_cpus [simp]: "distinct (enumerate_all_cpus m k)"
  by (simp add: enumerate_all_cpus_def distinct_map inj_on_def)

lemma length_enumerate_all_cpus: "length (enumerate_all_cpus m k) \<le> k"
  by (simp add: enumerate_all_cpus_def)

text \<open>The flags seen so far as a set.\<close>

definition seen_set :: "bool list \<Rightarrow> int set" where
  "seen_set seen = {n. 0 \<le> n \<and> n < int (length seen) \<and> seen ! nat n}"

lemma seen_set_update:
  "0 \<le> n \<Longrightarrow> n < int (length seen) \<Longrightarrow> seen_set (seen[nat n := True]) = insert n (seen_set seen)"
  by (auto simp: seen_set_def nth_list_update)

lemma finite_seen_set [simp]: "finite (seen_set seen)"
  by (rule finite_subset [of _ "{0..<int (length seen)}"]) (auto simp: seen_set_def)

lemma count_nodes_card:
  assumes "int (length seen) = 64"
  shows "count_nodes nodes seen (card (seen_set seen)) = card (seen_set seen \<union> (set nodes \<inter> {0..<64}))"
  using assms
proof (induction nodes arbitrary: seen)
  case (Cons n nodes)
  let ?S = "seen_set seen" and ?N = "{0..<64 :: int}"
  show ?case
  proof (cases "0 \<le> n \<and> n < 64 \<and> \<not> seen ! nat n")
    case True
    then have upd: "seen_set (seen[nat n := True]) = insert n ?S" and new: "n \<notin> ?S"
      using Cons.prems by (simp_all add: seen_set_update, simp add: seen_set_def)
    have "count_nodes (n # nodes) seen (card ?S) = count_nodes nodes (seen[nat n := True]) (card (insert n ?S))"
      using True new by simp
    also have "\<dots> = card (insert n ?S \<union> (set nodes \<inter> ?N))"
      using Cons.IH [of "seen[nat n := True]"] Cons.prems upd by simp
    also have "insert n ?S \<union> (set nodes \<inter> ?N) = ?S \<union> (set (n # nodes) \<inter> ?N)"
      using True by auto
    finally show ?thesis .
  next
    case False
    then have "n \<notin> ?N \<or> n \<in> ?S"
      using Cons.prems by (auto simp: seen_set_def)
    then have "?S \<union> (set (n # nodes) \<inter> ?N) = ?S \<union> (set nodes \<inter> ?N)"
      by auto
    moreover have "count_nodes (n # nodes) seen (card ?S) = count_nodes nodes seen (card ?S)"
      using False by (simp only: count_nodes.simps if_False)
    ultimately show ?thesis
      using Cons.IH [OF Cons.prems] by (simp only:)
  qed
qed simp

definition machine_nodes :: "machine \<Rightarrow> int set" where
  "machine_nodes m = cpu_node m ` {0..<min (ncpu_conf m) 1024} \<inter> {0..<64}"

lemma count_nodes_machine:
  "count_nodes (map (cpu_node m) (enumerate_all_cpus m 1024)) (replicate 64 False) 0 = card (machine_nodes m)"
proof -
  define seen where "seen = replicate 64 False"
  have "seen_set seen = {}" and "int (length seen) = 64"
    by (auto simp: seen_def seen_set_def)
  then show ?thesis
    using count_nodes_card [of seen "map (cpu_node m) (enumerate_all_cpus m 1024)"]
    unfolding machine_nodes_def seen_def [symmetric] by (simp add: set_enumerate_all_cpus)
qed

lemma num_nodes_card: "get_num_numa_nodes m = max 1 (int (card (machine_nodes m)))"
  unfolding get_num_numa_nodes_def read_cpus_no_cache count_nodes_machine by (simp add: Let_def)

lemma num_nodes_pos: "1 \<le> get_num_numa_nodes m"
  by (simp add: num_nodes_card)

lemma numa_to_chip_cases:
  "numa_to_chip m n = (if n < 0 then -1 else if 2 * n < get_num_numa_nodes m then 1 else 2)"
  using num_nodes_pos [of m] by (auto simp: numa_to_chip_def Let_def)

lemma numa_to_chip_range: "numa_to_chip m n \<in> {-1, 1, 2}"
  by (simp add: numa_to_chip_cases)

lemma find_upt_Some:
  "find P (map int [0..<k]) = Some n \<longleftrightarrow> 0 \<le> n \<and> n < int k \<and> P n \<and> (\<forall>i. 0 \<le> i \<and> i < n \<longrightarrow> \<not> P i)"
proof
  assume "find P (map int [0..<k]) = Some n"
  then obtain j where j: "j < k" "P n" "n = int j" "\<forall>i<j. \<not> P (int i)"
    by (auto simp: find_Some_iff)
  have "\<not> P i" if "0 \<le> i" "i < n" for i
    using j that by (metis nonneg_int_cases of_nat_less_iff)
  with j show "0 \<le> n \<and> n < int k \<and> P n \<and> (\<forall>i. 0 \<le> i \<and> i < n \<longrightarrow> \<not> P i)"
    by auto
next
  assume r: "0 \<le> n \<and> n < int k \<and> P n \<and> (\<forall>i. 0 \<le> i \<and> i < n \<longrightarrow> \<not> P i)"
  then obtain j where "n = int j"
    using nonneg_int_cases by blast
  with r show "find P (map int [0..<k]) = Some n"
    by (auto simp: find_Some_iff intro!: exI [of _ j])
qed

lemma find_upt_None: "find P (map int [0..<k]) = None \<longleftrightarrow> (\<forall>i. 0 \<le> i \<and> i < int k \<longrightarrow> \<not> P i)"
  by (auto simp: find_None_iff) (metis nonneg_int_cases of_nat_less_iff atLeastLessThan_iff le0)

text \<open>C31: The two-chip model. The number of nodes is the number of distinct nodes below 64 that a
  configured CPU (below 1024) reports, and at least 1; the lower half of the nodes, rounded
  up, is chip 1 and every other node chip 2. The reverse lookup of a chip finds node 0 for chip
  1, the first node of the upper half for chip 2, and no node for chip 2 on a machine with
  one node.\<close>

theorem chip_model:
  "get_num_numa_nodes m = max 1 (int (card (machine_nodes m))) \<and>
   numa_to_chip m n = (if n < 0 then -1 else if 2 * n < get_num_numa_nodes m then 1 else 2) \<and>
   chip_to_first_numa m 1 = 0 \<and>
   chip_to_first_numa m 2 =
     (if get_num_numa_nodes m = 1 then -1 else (get_num_numa_nodes m + 1) div 2)"
proof -
  define k where "k = get_num_numa_nodes m"
  have k: "1 \<le> k" and kk: "int (nat k) = k"
    using num_nodes_pos [of m] by (simp_all add: k_def)
  have chip: "numa_to_chip m i = 1 \<longleftrightarrow> 0 \<le> i \<and> 2 * i < k"
    "numa_to_chip m i = 2 \<longleftrightarrow> 0 \<le> i \<and> k \<le> 2 * i" for i
    by (auto simp: numa_to_chip_cases k_def)
  have "find (\<lambda>n. numa_to_chip m n = 1) (map int [0..<nat k]) = Some 0"
    unfolding find_upt_Some chip using k by auto
  moreover have "find (\<lambda>n. numa_to_chip m n = 2) (map int [0..<nat k]) =
      (if k = 1 then None else Some ((k + 1) div 2))"
    unfolding if_distrib [of "(=) _"] find_upt_Some find_upt_None chip kk using k by auto
  ultimately have "chip_to_first_numa m 1 = 0"
    "chip_to_first_numa m 2 = (if k = 1 then -1 else (k + 1) div 2)"
    unfolding chip_to_first_numa_def k_def [symmetric] by simp_all
  then show ?thesis
    using num_nodes_card numa_to_chip_cases unfolding k_def by blast
qed

section \<open>Lemmas: CPU lists\<close>

text \<open>A written list: single CPUs and ranges, separated by commas.\<close>

datatype cpu_item = Single nat | Range nat nat

fun item_text :: "cpu_item \<Rightarrow> string" where
  "item_text (Single n) = dec_digits n"
| "item_text (Range lo hi) = dec_digits lo @ CHR ''-'' # dec_digits hi"

fun item_cpus :: "cpu_item \<Rightarrow> int list" where
  "item_cpus (Single n) = [int n]"
| "item_cpus (Range lo hi) = [int lo..int hi]"

fun item_ok :: "cpu_item \<Rightarrow> bool" where
  "item_ok (Single n) \<longleftrightarrow> n < 2 ^ 31"
| "item_ok (Range lo hi) \<longleftrightarrow> lo \<le> hi \<and> hi < 2 ^ 31"

definition cpu_list_text :: "cpu_item list \<Rightarrow> string" where
  "cpu_list_text items = join_with (CHR '','') (map item_text items)"

lemma not_digit [simp]: "\<not> is_digit 10 (CHR '','')" "\<not> is_digit 10 (CHR ''-'')"
  by (simp_all add: is_digit_def digit_val_def char_code_def)

lemma sep_not_in_digits [simp]:
  "CHR '','' \<notin> set (dec_digits n)" "CHR ''-'' \<notin> set (dec_digits n)"
  using dec_digits_chars not_digit by blast+

lemma item_text_token: "item_text it \<noteq> [] \<and> CHR '','' \<notin> set (item_text it)"
  by (cases it) simp_all

lemma strtok_cpu_list: "strtok_all (CHR '','') (cpu_list_text items) = map item_text items"
  unfolding cpu_list_text_def by (rule strtok_all_join) (use item_text_token in auto)

lemma cpu_list_text_not_Nil: "items \<noteq> [] \<Longrightarrow> cpu_list_text items \<noteq> []"
  using strtok_cpu_list [of items] by (auto simp: strtok_all_def)

lemma cpu_range_take: "cpu_range lo hi room = take room [lo..hi]"
  by (induction room arbitrary: lo) (simp, subst upto.simps, simp)

lemma hd_last_upto: "i \<le> j \<Longrightarrow> hd [i..j] = i" "i \<le> j \<Longrightarrow> last [i..j] = j"
  by (simp add: upto.simps) (subst upto_rec2, simp_all)

lemma cpu_part_item:
  assumes "item_ok it"
  shows "cpu_part (item_text it) = (hd (item_cpus it), last (item_cpus it)) \<and>
    [hd (item_cpus it)..last (item_cpus it)] = item_cpus it \<and>
    0 \<le> hd (item_cpus it) \<and> hd (item_cpus it) \<le> last (item_cpus it)"
proof (cases it)
  case (Single n)
  then have "atoi (dec_digits n) = int n"
    using assms atoi_dec [of n "[]"] by simp
  moreover have "strchr (CHR ''-'') (dec_digits n) = None"
    by (simp add: strchr_none)
  ultimately show ?thesis
    using Single by (simp add: cpu_part_def)
next
  case (Range lo hi)
  then have "atoi (dec_digits lo) = int lo" "atoi (dec_digits hi) = int hi" "int lo \<le> int hi"
    using assms atoi_dec [of lo "[]"] atoi_dec [of hi "[]"] by simp_all
  moreover have "strchr (CHR ''-'') (item_text it) = Some (dec_digits lo, dec_digits hi)"
    using Range by (simp add: strchr_append)
  ultimately show ?thesis
    using Range by (simp add: cpu_part_def hd_last_upto)
qed

lemma cpu_parts_items:
  assumes "\<forall>it \<in> set items. item_ok it" and "length out \<le> k"
  shows "cpu_parts (map item_text items) out k = take k (out @ concat (map item_cpus items))"
  using assms
proof (induction items arbitrary: out)
  case (Cons it items)
  define lo hi where "lo = hd (item_cpus it)" and "hi = last (item_cpus it)"
  have p: "cpu_part (item_text it) = (lo, hi)" "[lo..hi] = item_cpus it" "0 \<le> lo" "lo \<le> hi"
    using cpu_part_item [of it] Cons.prems by (simp_all only: lo_def hi_def list.set_intros)
  show ?case
  proof (cases "length out < k")
    case True
    let ?o = "out @ take (k - length out) (item_cpus it)"
    have "cpu_parts (map item_text (it # items)) out k = cpu_parts (map item_text items) ?o k"
      using True p by (simp add: cpu_range_take)
    also have "\<dots> = take k (?o @ concat (map item_cpus items))"
      using Cons True by simp
    also have "\<dots> = take k (out @ concat (map item_cpus (it # items)))"
      using True by (cases "length (item_cpus it) \<le> k - length out") simp_all
    finally show ?thesis .
  next
    case False
    then show ?thesis
      using Cons.prems by simp
  qed
qed simp

text \<open>A written CPU list reads back: any comma-separated sequence of CPU numbers and ranges
  \<open>lo-hi\<close> (below 2^31) is parsed to its CPUs in order, cut at the size of the array.\<close>

theorem cpu_list_roundtrip:
  assumes "\<forall>it \<in> set items. item_ok it" and "can_alloc m"
  shows "parse_cpu_list m (Some (cpu_list_text items)) max_out =
         take max_out (concat (map item_cpus items))"
proof (cases "items = []")
  case True
  then show ?thesis
    by (simp add: parse_cpu_list_def cpu_list_text_def)
next
  case False
  then show ?thesis
    using assms cpu_parts_items [of items "[]" max_out]
    by (simp add: parse_cpu_list_def strtok_cpu_list cpu_list_text_not_Nil)
qed

theorem cpu_list_roundtrip_witness:
  "parse_cpu_list \<lparr>ncpu_conf = 8, cpu_dir = (\<lambda>_. None), can_alloc = True\<rparr>
     (Some (cpu_list_text [Single 4, Range 6 8])) 1024 = [4, 6, 7, 8]"
  using cpu_list_roundtrip [of "[Single 4, Range 6 8]"
      "\<lparr>ncpu_conf = 8, cpu_dir = (\<lambda>_. None), can_alloc = True\<rparr>" 1024]
  by (simp add: upto.simps)

fun is_single :: "cpu_item \<Rightarrow> bool" where
  "is_single (Single n) = True"
| "is_single (Range lo hi) = False"

lemma cpu_mask_items:
  assumes "\<forall>it \<in> set items. item_ok it \<and> (\<forall>c \<in> set (item_cpus it). c < 1024)"
  shows "cpu_mask (map item_text items) msk =
    (if list_all is_single items then Some (msk \<union> set (concat (map item_cpus items))) else None)"
  using assms
proof (induction items arbitrary: msk)
  case (Cons it items)
  show ?case
  proof (cases it)
    case (Single n)
    then have "n < 2 ^ 63"
      using Cons.prems by simp
    then have "strtol 10 (dec_digits n) = (int n, [])"
      using strtol_dec [of n "[]"] by simp
    then show ?thesis
      using Single Cons by (simp add: eq_commute [of "[]"])
  next
    case (Range lo hi)
    then have "lo < 2 ^ 63"
      using Cons.prems by simp
    then have "strtol 10 (item_text it) = (int lo, CHR ''-'' # dec_digits hi)"
      using strtol_dec [of lo "CHR ''-'' # dec_digits hi"] Range by simp
    then show ?thesis
      using Range by simp
  qed
qed simp

text \<open>C32: The server's affinity mask is stricter than the list parser: of the well-formed lists over
  CPUs below 1024, the ones without a range set exactly their CPUs as the mask, and every
  list with a range, which the parser accepts, is an error.\<close>

theorem apply_cpu_list_ranges:
  assumes "\<forall>it \<in> set items. item_ok it \<and> (\<forall>c \<in> set (item_cpus it). c < 1024)"
    and "items \<noteq> []" and "can_alloc m"
  shows "apply_cpu_list m sched_setaffinity (Some (cpu_list_text items)) =
    (if list_all is_single items then sched_setaffinity (set (concat (map item_cpus items))) else -1)"
  using assms cpu_mask_items [of items "{}"]
  by (simp add: apply_cpu_list_def strtok_cpu_list cpu_list_text_not_Nil)

theorem apply_cpu_list_ranges_witness:
  "apply_cpu_list \<lparr>ncpu_conf = 8, cpu_dir = (\<lambda>_. None), can_alloc = True\<rparr> (\<lambda>_. 0)
     (Some (cpu_list_text [Single 4, Range 6 8])) = -1"
  using apply_cpu_list_ranges [of "[Single 4, Range 6 8]"
      "\<lparr>ncpu_conf = 8, cpu_dir = (\<lambda>_. None), can_alloc = True\<rparr>" "\<lambda>_. 0"]
  by simp

section \<open>Lemmas: automatic choice\<close>

lemma shuffle_front_mset: "mset (snd (shuffle_front per i rng c)) = mset c"
proof (induction per i rng c rule: shuffle_front.induct)
  case (1 per i rng c)
  show ?case
  proof (cases "i < length c \<and> i < per")
    case True
    let ?r = "rng_next rng"
    let ?j = "i + unat ?r mod (length c - i)"
    have "unat ?r mod (length c - i) < length c - i"
      using True by simp
    then have "?j < length c"
      by linarith
    then have "mset (c[i := c ! ?j, ?j := c ! i]) = mset c"
      using True mset_swap [of ?j c i] by simp
    then show ?thesis
      using 1 True by (subst shuffle_front.simps) (simp add: Let_def)
  next
    case False
    then show ?thesis
      by (subst shuffle_front.simps) auto
  qed
qed

lemma shuffle_front_perm:
  assumes "shuffle_front per i rng c = (r, s)"
  shows "set s = set c" and "length s = length c" and "distinct s \<longleftrightarrow> distinct c"
proof -
  have "mset s = mset c"
    using shuffle_front_mset [of per i rng c] assms by simp
  then show "set s = set c" "length s = length c" "distinct s \<longleftrightarrow> distinct c"
    by (rule mset_eq_setD mset_eq_length mset_eq_imp_distinct_iff)+
qed

lemma cpus_per_chip_pos: "1 \<le> cpus_per_chip args is_client"
proof -
  define p where "p = ((if \<not> is_client \<and> (if threads args > 0 then threads args else 1) > 8 then 8
    else (if threads args > 0 then threads args else 1)) + 1) div 2"
  have "cpus_per_chip args is_client = unat (if p < 1 then 1 else p)"
    by (simp add: cpus_per_chip_def p_def Let_def)
  moreover have "(if p < 1 then 1 else p) \<noteq> 0"
    by (auto simp: not_less)
  ultimately show ?thesis
    using unat_gt_0 [of "if p < 1 then 1 else p"] by linarith
qed

lemma length_filter_chip:
  assumes "\<forall>c \<in> set xs. P c" and "\<forall>c \<in> set ys. \<not> P c"
  shows "length (filter P (xs @ ys)) = length xs"
  using assms by (simp add: filter_id_conv [THEN iffD2] filter_False)

definition chip_cpus :: "machine \<Rightarrow> int \<Rightarrow> int list" where
  "chip_cpus m chip = filter (\<lambda>c. cpu_to_chip m c = chip) (enumerate_all_cpus m 1024)"

lemma length_chip_cpus: "length (chip_cpus m 1) + length (chip_cpus m 2) \<le> 1024"
proof -
  have "length (filter P xs) + length (filter Q xs) \<le> length xs" if "\<And>x. \<not> (P x \<and> Q x)"
    for P Q and xs :: "int list"
    using that by (induction xs) auto
  from this [of "\<lambda>c. cpu_to_chip m c = 1" "\<lambda>c. cpu_to_chip m c = 2" "enumerate_all_cpus m 1024"]
  show ?thesis
    using length_enumerate_all_cpus [of m 1024] by (simp add: chip_cpus_def)
qed

lemma auto_select_shape:
  assumes aff: "affinity_mode args = 0" and ne: "chip_cpus m 1 \<noteq> [] \<or> chip_cpus m 2 \<noteq> []"
  obtains s1 s2 where "auto_select_cpus m args is_client 1024 =
      take (cpus_per_chip args is_client) s1 @ take (cpus_per_chip args is_client) s2"
    and "mset s1 = mset (chip_cpus m 1)" and "mset s2 = mset (chip_cpus m 2)"
proof -
  let ?per = "cpus_per_chip args is_client"
  obtain r1 s1 where 1: "shuffle_front ?per 0 (seed args XOR 0x9e3779b9) (chip_cpus m 1) = (r1, s1)"
    by fastforce
  obtain r2 s2 where 2: "shuffle_front ?per 0 r1 (chip_cpus m 2) = (r2, s2)"
    by fastforce
  have m: "mset s1 = mset (chip_cpus m 1)" "mset s2 = mset (chip_cpus m 2)"
    using shuffle_front_mset [of ?per 0 "seed args XOR 0x9e3779b9" "chip_cpus m 1"]
      shuffle_front_mset [of ?per 0 r1 "chip_cpus m 2"] by (simp_all only: 1 2 snd_conv)
  have l: "length s1 = length (chip_cpus m 1)" "length s2 = length (chip_cpus m 2)"
    using m by (auto dest: mset_eq_length)
  define out where "out = take ?per s1 @ take ?per s2"
  have "out \<noteq> []"
    using ne l cpus_per_chip_pos [of args is_client] by (auto simp: out_def)
  moreover have "length out \<le> 1024"
    using l length_chip_cpus [of m] by (simp add: out_def)
  moreover have "auto_select_cpus m args is_client 1024 =
      (if take 1024 out = [] then enumerate_all_cpus m 1024 else take 1024 out)"
    unfolding auto_select_cpus_def chip_cpus_def [symmetric] Let_def aff 1 2 prod.case out_def by simp
  ultimately have "auto_select_cpus m args is_client 1024 = out"
    by simp
  then show ?thesis
    using m that unfolding out_def by blast
qed

lemma set_chip_cpus:
  "set (chip_cpus m chip) = {c. 0 \<le> c \<and> c < min (ncpu_conf m) 1024 \<and> cpu_to_chip m c = chip}"
  by (auto simp: chip_cpus_def set_enumerate_all_cpus)

lemma distinct_chip_cpus [simp]: "distinct (chip_cpus m chip)"
  by (simp add: chip_cpus_def)

text \<open>C22: In affinity mode the automatic choice draws from both chips: as many CPUs of each chip as
  the thread count asks for (half of it, rounded up) or as the chip has, all different, all
  configured CPUs of that chip.\<close>

theorem auto_select_balanced:
  assumes "affinity_mode args = 0" and "chip_cpus m 1 \<noteq> [] \<or> chip_cpus m 2 \<noteq> []"
    and "chip \<in> {1, 2}"
  shows "let out = auto_select_cpus m args is_client 1024 in
    distinct out \<and> set out \<subseteq> set (chip_cpus m 1) \<union> set (chip_cpus m 2) \<and>
    length (filter (\<lambda>c. cpu_to_chip m c = chip) out) =
      min (cpus_per_chip args is_client) (length (chip_cpus m chip))"
proof -
  let ?per = "cpus_per_chip args is_client"
  obtain s1 s2 where out: "auto_select_cpus m args is_client 1024 = take ?per s1 @ take ?per s2"
    and m1: "mset s1 = mset (chip_cpus m 1)" and m2: "mset s2 = mset (chip_cpus m 2)"
    using auto_select_shape [OF assms(1,2)] .
  have s1: "set s1 = set (chip_cpus m 1)" "length s1 = length (chip_cpus m 1)" "distinct s1"
    using m1 by (auto dest: mset_eq_setD mset_eq_length mset_eq_imp_distinct_iff)
  have s2: "set s2 = set (chip_cpus m 2)" "length s2 = length (chip_cpus m 2)" "distinct s2"
    using m2 by (auto dest: mset_eq_setD mset_eq_length mset_eq_imp_distinct_iff)
  have t1: "\<forall>c \<in> set (take ?per s1). cpu_to_chip m c = 1"
    and t2: "\<forall>c \<in> set (take ?per s2). cpu_to_chip m c = 2"
    using s1(1) s2(1) by (auto simp: set_chip_cpus dest!: in_set_takeD)
  have "distinct (take ?per s1 @ take ?per s2)"
    using s1(3) s2(3) t1 t2 by (force simp: distinct_append)
  moreover have "set (take ?per s1 @ take ?per s2) \<subseteq> set (chip_cpus m 1) \<union> set (chip_cpus m 2)"
    unfolding s1(1) [symmetric] s2(1) [symmetric] by (auto dest: in_set_takeD)
  moreover have "length (filter (\<lambda>c. cpu_to_chip m c = chip) (take ?per s1 @ take ?per s2)) =
      min ?per (length (chip_cpus m chip))"
  proof (cases "chip = 1")
    case True
    then show ?thesis
      using t1 t2 s1(2) by (subst length_filter_chip) auto
  next
    case False
    then have "chip = 2" and "filter (\<lambda>c. cpu_to_chip m c = 2) (take ?per s1) = []"
      using assms(3) t1 by (auto simp: filter_empty_conv)
    then show ?thesis
      using t2 s2(2) length_filter_chip [of "take ?per s2" "\<lambda>c. cpu_to_chip m c = 2" "[]"] by simp
  qed
  ultimately show ?thesis
    unfolding out Let_def by blast
qed

text \<open>A machine of four CPUs, two on each of two nodes.\<close>

definition example_machine :: machine where
  "example_machine = \<lparr>ncpu_conf = 4,
     cpu_dir = (\<lambda>c. if c < 2 then Some [''topology'', ''node0''] else if c < 4 then Some [''node1''] else None),
     can_alloc = True\<rparr>"

lemma example_nodes:
  "cpu_node example_machine c = (if c < 2 then 0 else if c < 4 then 1 else -1)"
  by (simp add: cpu_node_def example_machine_def atoi_def scan_simps i32_of_long_def)

lemma example_machine_nodes: "machine_nodes example_machine = {0, 1}"
proof -
  have "{0..<min (ncpu_conf example_machine) 1024} = {0, 1, 2, 3}"
    by (auto simp: example_machine_def)
  then show ?thesis
    by (auto simp: machine_nodes_def example_nodes)
qed

lemma example_chips: "cpu_to_chip example_machine c = (if c < 2 then 1 else if c < 4 then 2 else -1)"
  by (simp add: cpu_to_chip_def numa_to_chip_cases num_nodes_card example_machine_nodes example_nodes)

lemma example_cpus: "enumerate_all_cpus example_machine 1024 = [0, 1, 2, 3]"
  by (simp add: enumerate_all_cpus_def example_machine_def upt_rec numeral_nat)

lemma example_chip_cpus: "chip_cpus example_machine 1 = [0, 1]" "chip_cpus example_machine 2 = [2, 3]"
  by (simp_all add: chip_cpus_def example_cpus example_chips)

lemmas example_simps = example_nodes example_chips example_cpus example_chip_cpus

theorem auto_select_balanced_witness:
  "length (filter (\<lambda>c. cpu_to_chip example_machine c = 2)
     (auto_select_cpus example_machine (default_arguments\<lparr>threads := 2, affinity_mode := 0\<rparr>) True 1024)) = 1"
  using auto_select_balanced [of "default_arguments\<lparr>threads := 2, affinity_mode := 0\<rparr>" example_machine 2 True]
  by (simp add: example_simps cpus_per_chip_def Let_def)

text \<open>C33: The CPU chosen for the polling thread is never one of the workers' CPUs: it is a configured
  CPU outside the side's list, and -1 exactly when that list covers every configured CPU.\<close>

theorem poll_cpu_free:
  "let used = set (my_cpu_list m args is_client 1024); cpus = {0..<min (ncpu_conf m) 1024};
       c = auto_poll_cpu m args is_client
   in if cpus \<subseteq> used then c = -1 else c \<in> cpus - used"
proof -
  define fr where "fr = filter (\<lambda>c. \<not> c \<in> set (my_cpu_list m args is_client 1024)) (enumerate_all_cpus m 1024)"
  have set: "set fr = {0..<min (ncpu_conf m) 1024} - set (my_cpu_list m args is_client 1024)"
    by (auto simp: fr_def set_enumerate_all_cpus)
  have c: "auto_poll_cpu m args is_client =
      (if fr = [] then -1 else fr ! (unat (rng_next (seed args XOR 0x51ed270b)) mod length fr))"
    unfolding auto_poll_cpu_def Let_def fr_def ..
  have "auto_poll_cpu m args is_client \<in> set fr" if "fr \<noteq> []"
    unfolding c using that by (simp only: if_False) (rule nth_mem, simp)
  moreover have "fr = [] \<longleftrightarrow> {0..<min (ncpu_conf m) 1024} \<subseteq> set (my_cpu_list m args is_client 1024)"
    unfolding set_empty [symmetric] set by blast
  ultimately show ?thesis
    unfolding Let_def set [symmetric] using c by auto
qed

end
