(* ===== verification/ChipRoute.thy ===== *)
theory ChipRoute
  imports Topology "HOL-Library.Monad_Syntax"
begin








section \<open>Lemmas\<close>




















end
