(* ===== verification/Layout.thy ===== *)
theory Layout
  imports Topology
begin

text \<open>
  The registered buffers of \<^verbatim>\<open>src/kv_bench.cpp\<close> and the addresses of the work requests in them:
  the sizes of the client's and the server's data area, the NUMA binding in chunks, the set-up
  of the buffer, and the local and remote address of every work request of the write and of the
  get pipeline. Addresses and sizes are 64-bit.
\<close>

section \<open>The code\<close>

definition ROUND_UP :: "u64 \<Rightarrow> u64 \<Rightarrow> u64" where
  "ROUND_UP x a = (x + a - 1) AND NOT (a - 1)"

abbreviation (input) DATA_WINDOW_PER_THREAD :: u64 where "DATA_WINDOW_PER_THREAD \<equiv> 4"
abbreviation (input) SERVER_DATA_WINDOW :: u64 where "SERVER_DATA_WINDOW \<equiv> 4"

text \<open>The pair of \<^verbatim>\<open>data_len\<close> and \<^verbatim>\<open>buf_len\<close>.\<close>

definition layout_client_buffer :: "argument \<Rightarrow> u64 \<times> u64" where
  "layout_client_buffer args =
     (let window_reqs = (if op_code args \<noteq> OP_MIXED \<and> concurrency args > 0
                         then word_of_int (concurrency args) else 1);
          data_len =
            (if op_code args = OP_WRITE then ucast (threads args) * window_reqs * send_size args
             else if op_code args = OP_GET
             then ucast (threads args) * window_reqs * value_size args * of_nat KV_SENDS_PER_REQ
             else ucast (threads args) * DATA_WINDOW_PER_THREAD * value_size args)
      in (data_len, ROUND_UP data_len PAGE_SIZE))"

definition layout_server_buffer :: "argument \<Rightarrow> u64 \<times> u64" where
  "layout_server_buffer args =
     (let data_len =
            (if op_code args = OP_WRITE
             then of_nat KV_SENDS_PER_REQ * word_of_int KV_MAX_CONCURRENCY * send_size args
             else if op_code args = OP_GET
             then of_nat KV_SENDS_PER_REQ * word_of_int KV_MAX_CONCURRENCY * value_size args
             else SERVER_DATA_WINDOW * value_size args)
      in (data_len, ROUND_UP data_len PAGE_SIZE))"

text \<open>The loop over chunks of at most 1 GB. The system call is an argument: address and length of
  a chunk to its return value. The second component lists the chunks that were bound.\<close>

function mbind_chunks :: "(u64 \<Rightarrow> u64 \<Rightarrow> int) \<Rightarrow> u64 \<Rightarrow> u64 \<Rightarrow> u64 \<Rightarrow> int \<times> (u64 \<times> u64) list" where
  "mbind_chunks sys_mbind p alignedLen off =
     (if off < alignedLen then
        let chunk = min (alignedLen - off) (push_bit 30 1)
        in if sys_mbind (p + off) chunk \<noteq> 0 then (-1, [])
           else case mbind_chunks sys_mbind p alignedLen (off + chunk) of
                  (rc, cs) \<Rightarrow> (rc, (p + off, chunk) # cs)
      else (0, []))"
  by auto

termination mbind_chunks
proof (relation "measure (\<lambda>(s, p, len, off). unat (len - off))")
  fix s :: "u64 \<Rightarrow> u64 \<Rightarrow> int" and p len off chunk :: u64
  assume lt: "off < len" and chunk: "chunk = min (len - off) (push_bit 30 1)"
  have "len - off \<noteq> 0"
    using lt by auto
  then have pos: "0 < chunk"
    unfolding chunk by (auto simp: word_gt_0 min_def)
  have le: "chunk \<le> len - off"
    unfolding chunk by simp
  have "unat (len - off - chunk) < unat (len - off)"
    using pos le by (simp add: unat_sub word_less_nat_alt word_le_nat_alt)
  then show "((s, p, len, off + chunk), s, p, len, off) \<in> measure (\<lambda>(s, p, len, off). unat (len - off))"
    by (simp add: diff_diff_eq)
qed simp

declare mbind_chunks.simps [simp del]

text \<open>The system call also gets the node as a mask of 32 nodes; a node of 64 or more, where the shift is
  undefined in the source, has the empty mask here. Touching a page reads a byte and writes it
  back; it changes nothing the program reads and is left out.\<close>

definition mbind_to_node ::
  "u64 \<Rightarrow> (u64 \<Rightarrow> u64 \<Rightarrow> u64 \<Rightarrow> int) \<Rightarrow> u64 \<Rightarrow> u64 \<Rightarrow> int \<Rightarrow> int \<times> (u64 \<times> u64) list" where
  "mbind_to_node pageSize sys_mbind addr len node =
     (if node < 0 then (-1, [])
      else if pageSize = 0 then (-1, [])
      else
        let alignedBegin = (addr div pageSize) * pageSize;
            alignedEnd = ((addr + len + pageSize - 1) div pageSize) * pageSize;
            mask = push_bit (nat node) 1
        in mbind_chunks (sys_mbind mask) alignedBegin (alignedEnd - alignedBegin) 0)"

text \<open>The node the buffer is bound to, -1 for none.\<close>

definition bind_node :: "machine \<Rightarrow> argument \<Rightarrow> int" where
  "bind_node m args =
     (if single_chip args \<ge> 1 \<and> single_chip args \<le> 2 then chip_to_first_numa m (single_chip args)
      else let dst_cpus = my_cpu_list m args False MAX_CPUS
           in if dst_cpus \<noteq> [] then cpu_node m (hd dst_cpus) else -1)"

record buffer =
  va :: u64
  buf_len :: u64
  data_len :: u64
  bound :: "(u64 \<times> u64) list"

text \<open>\<open>memalign\<close> gives the address for a length or fails; \<open>reg\<close> is the registration of the buffer
  with the manager. A failed binding is only a warning.\<close>

definition setup_buffer ::
  "machine \<Rightarrow> argument \<Rightarrow> bool \<Rightarrow> (u64 \<Rightarrow> u64 option) \<Rightarrow> (u64 \<Rightarrow> u64 \<Rightarrow> bool) \<Rightarrow> u64 \<Rightarrow>
   (u64 \<Rightarrow> u64 \<Rightarrow> u64 \<Rightarrow> int) \<Rightarrow> int \<times> buffer option" where
  "setup_buffer m args is_server memalign reg pageSize sys_mbind =
     (let (dl, bl) = (if is_server then layout_server_buffer args else layout_client_buffer args)
      in case memalign bl of
           None \<Rightarrow> (-1, None)
         | Some a \<Rightarrow>
             if \<not> reg a bl then (-1, Some \<lparr>va = a, buf_len = bl, data_len = dl, bound = []\<rparr>)
             else
               let node = (if mbind args \<and> affinity_mode args = AFF_AFFINITY then bind_node m args else -1);
                   cs = (if node \<ge> 0 then snd (mbind_to_node pageSize sys_mbind a bl node) else [])
               in (0, Some \<lparr>va = a, buf_len = bl, data_len = dl, bound = cs\<rparr>))"

section \<open>Addresses of work requests\<close>

text \<open>The write pipeline: offsets in the local and in the remote data area of work request \<open>wr\<close> of
  the request in slot \<open>slot\<close>.\<close>

definition wr_size_write :: "argument \<Rightarrow> u64" where
  "wr_size_write args = send_size args div 2"

definition write_local_base_off :: "argument \<Rightarrow> nat \<Rightarrow> u64" where
  "write_local_base_off args slot = of_nat slot * send_size args"

definition write_remote_base_off :: "argument \<Rightarrow> nat \<Rightarrow> u64" where
  "write_remote_base_off args slot =
     (let req_bytes = send_size args * of_nat KV_SENDS_PER_REQ in of_nat slot * req_bytes)"

definition write_local_off :: "argument \<Rightarrow> nat \<Rightarrow> nat \<Rightarrow> u64" where
  "write_local_off args slot wr =
     write_local_base_off args slot + of_nat (wr mod KV_WR_PER_SEND) * wr_size_write args"

definition write_remote_off :: "argument \<Rightarrow> nat \<Rightarrow> nat \<Rightarrow> u64" where
  "write_remote_off args slot wr =
     write_remote_base_off args slot + of_nat (wr div KV_WR_PER_SEND) * send_size args + of_nat (wr mod KV_WR_PER_SEND) * wr_size_write args"

text \<open>The get pipeline, of worker number \<open>wid\<close>.\<close>

definition wr_size_get :: "argument \<Rightarrow> u64" where
  "wr_size_get args = value_size args div 2"

definition get_local_base_off :: "argument \<Rightarrow> u32 \<Rightarrow> nat \<Rightarrow> u64" where
  "get_local_base_off args wid slot =
     (let req_bytes = value_size args * of_nat KV_SENDS_PER_REQ;
          per_thread = word_of_int (if concurrency args \<ge> 1 then concurrency args else 1) * req_bytes
      in ucast wid * per_thread + of_nat slot * req_bytes)"

definition get_remote_base_off :: "argument \<Rightarrow> nat \<Rightarrow> u64" where
  "get_remote_base_off args slot =
     (let req_bytes = value_size args * of_nat KV_SENDS_PER_REQ in of_nat slot * req_bytes)"

definition get_local_off :: "argument \<Rightarrow> u32 \<Rightarrow> nat \<Rightarrow> nat \<Rightarrow> u64" where
  "get_local_off args wid slot wr =
     get_local_base_off args wid slot +
     of_nat (wr div KV_WR_PER_SEND) * value_size args + of_nat (wr mod KV_WR_PER_SEND) * wr_size_get args"

definition get_remote_off :: "argument \<Rightarrow> nat \<Rightarrow> nat \<Rightarrow> u64" where
  "get_remote_off args slot wr =
     get_remote_base_off args slot + of_nat (wr div KV_WR_PER_SEND) * value_size args + of_nat (wr mod KV_WR_PER_SEND) * wr_size_get args"

section \<open>Lemmas: addresses\<close>

text \<open>Two ranges of the same length that do not overlap.\<close>

definition apart :: "nat \<Rightarrow> nat \<Rightarrow> nat \<Rightarrow> bool" where
  "apart len a b \<longleftrightarrow> a + len \<le> b \<or> b + len \<le> a"

lemma multiples_apart:
  assumes "j \<noteq> k"
  shows "apart h (j * h) (k * h)"
proof (cases "j < k")
  case True
  then have "Suc j * h \<le> k * h"
    by (intro mult_right_mono) auto
  then show ?thesis
    by (simp add: apart_def add.commute)
next
  case False
  then have "Suc k * h \<le> j * h"
    using assms by (intro mult_right_mono) auto
  then show ?thesis
    by (simp add: apart_def add.commute)
qed

lemma multiple_inside: "k < n \<Longrightarrow> k * h + h \<le> n * (h :: nat)"
  using mult_right_mono [of "Suc k" n h] by simp

lemma half_word:
  fixes w :: u64
  shows "w div 2 = of_nat (unat w div 2)" and "unat (w div 2) = unat w div 2"
proof -
  show u: "unat (w div 2) = unat w div 2"
    by (simp add: unat_div_distrib)
  show "w div 2 = of_nat (unat w div 2)"
    unfolding u [symmetric] by simp
qed

text \<open>The offset of a work request is its number times the size of one.\<close>

lemma wr_offset_nat:
  assumes "even (s :: nat)"
  shows "slot * (s * 10) + (wr div 2) * s + (wr mod 2) * (s div 2) = (slot * 20 + wr) * (s div 2)"
proof -
  obtain h where h: "s = 2 * h"
    using assms by blast
  define q r where "q = wr div 2" and "r = wr mod 2"
  have "wr = 2 * q + r"
    by (simp add: q_def r_def)
  then show ?thesis
    unfolding q_def [symmetric] r_def [symmetric] h by (simp add: algebra_simps)
qed

lemma wr_offset_word:
  fixes w :: u64
  assumes "even (unat w)"
  shows "of_nat slot * (w * of_nat 10) + of_nat (wr div 2) * w + of_nat (wr mod 2) * (w div 2) =
    of_nat ((slot * 20 + wr) * (unat w div 2))"
proof -
  have "w = of_nat (unat w)"
    by simp
  then have "of_nat slot * (w * of_nat 10) + of_nat (wr div 2) * w + of_nat (wr mod 2) * (w div 2) =
      of_nat (slot * (unat w * 10) + (wr div 2) * unat w + (wr mod 2) * (unat w div 2))"
    unfolding half_word(1) by (simp only: of_nat_add of_nat_mult)
  then show ?thesis
    unfolding wr_offset_nat [OF assms] .
qed

lemma unat_of_nat_mult_u64:
  assumes "k < n" and "n * h \<le> N" and "N < 2 ^ 64"
  shows "unat (of_nat (k * h) :: u64) = k * h"
proof (rule unat_of_nat_u64)
  have "k * h \<le> n * h"
    using assms(1) by (intro mult_right_mono) auto
  then show "k * h < 2 ^ 64"
    using assms by linarith
qed

lemma layout_words:
  fixes t :: u32 and w :: u64
  assumes "0 \<le> i"
  shows "ucast t * word_of_int i * w = of_nat (unat t * nat i * unat w)"
proof -
  have "ucast t * word_of_int i * w = of_nat (unat t) * of_nat (nat i) * (of_nat (unat w) :: u64)"
    using assms by simp
  then show ?thesis
    by (simp only: of_nat_mult)
qed

lemma even_8192: "8192 dvd (n :: nat) \<Longrightarrow> even n"
  by (rule dvd_trans [of 2 8192]) simp_all

lemma valid_argumentsD:
  assumes "valid_arguments args"
  shows "unat (threads args) \<le> 512" and "0 < concurrency args" and "nat (concurrency args) \<le> 10"
    and "unat (send_size args) < 2 ^ 32" and "even (unat (send_size args))" and "0 < unat (send_size args)"
    and "unat (value_size args) < 2 ^ 32" and "op_code args = 1 \<Longrightarrow> even (unat (value_size args))"
    and "1 \<le> unat (threads args)" and "0 < unat (value_size args)"
proof -
  note V = assms [unfolded valid_arguments_def]
  show "unat (threads args) \<le> 512" "0 < concurrency args" "nat (concurrency args) \<le> 10"
    "unat (send_size args) < 2 ^ 32" "unat (value_size args) < 2 ^ 32" "1 \<le> unat (threads args)"
    "0 < unat (value_size args)" "0 < unat (send_size args)"
    using V by linarith+
  show "even (unat (send_size args))"
    using V even_8192 by blast
  show "even (unat (value_size args))" if "op_code args = 1"
    using V even_8192 that by blast
qed

lemma layout_product:
  assumes "t \<le> 512" and "c \<le> 10" and "s < 2 ^ 32" and "k \<le> 10"
  shows "t * c * s * k < (2 :: nat) ^ 64"
proof -
  have "t * c \<le> 512 * 10"
    using assms by (intro mult_le_mono)
  moreover have "s * k \<le> 2 ^ 32 * 10"
    using assms by (intro mult_le_mono) auto
  ultimately have "(t * c) * (s * k) \<le> (512 * 10) * (2 ^ 32 * 10)"
    by (rule mult_le_mono)
  then show ?thesis
    by (simp add: mult.assoc)
qed

lemma client_write_len:
  assumes v: "valid_arguments args" and op: "op_code args = 0"
  shows "unat (fst (layout_client_buffer args)) =
    unat (threads args) * nat (concurrency args) * unat (send_size args)"
proof -
  note V = valid_argumentsD [OF v]
  have "fst (layout_client_buffer args) =
      ucast (threads args) * word_of_int (concurrency args) * send_size args"
    using V(2) op by (simp add: layout_client_buffer_def Let_def)
  then have "fst (layout_client_buffer args) =
      of_nat (unat (threads args) * nat (concurrency args) * unat (send_size args))"
    using V(2) by (simp only: layout_words less_imp_le)
  moreover have "unat (threads args) * nat (concurrency args) * unat (send_size args) < 2 ^ 64"
    using layout_product [OF V(1,3,4), of 1] by (simp only: mult_1_right)
  ultimately show ?thesis
    by (simp only: unat_of_nat_u64)
qed

lemma client_get_len:
  assumes v: "valid_arguments args" and op: "op_code args = 1"
  shows "unat (fst (layout_client_buffer args)) =
    unat (threads args) * nat (concurrency args) * unat (value_size args) * 10"
proof -
  note V = valid_argumentsD [OF v]
  have "fst (layout_client_buffer args) =
      ucast (threads args) * word_of_int (concurrency args) * value_size args * of_nat 10"
    using V(2) op by (simp add: layout_client_buffer_def Let_def)
  then have "fst (layout_client_buffer args) =
      of_nat (unat (threads args) * nat (concurrency args) * unat (value_size args) * 10)"
    using V(2) by (simp only: layout_words less_imp_le of_nat_mult [symmetric])
  moreover have "unat (threads args) * nat (concurrency args) * unat (value_size args) * 10 < 2 ^ 64"
    using V by (intro layout_product) simp_all
  ultimately show ?thesis
    by (simp only: unat_of_nat_u64)
qed

lemma server_len:
  assumes "unat w < 2 ^ 32"
  shows "unat (of_nat 10 * word_of_int 10 * w :: u64) = 100 * unat w"
proof -
  have "of_nat 10 * word_of_int 10 * w = (of_nat (100 * unat w) :: u64)"
    by simp
  moreover have "100 * unat w < 2 ^ 64"
    using assms by simp
  ultimately show ?thesis
    by (simp only: unat_of_nat_u64)
qed

text \<open>Part of the accepted configurations: the pipelines use slots below the concurrency and
  20 work requests per slot.\<close>

definition wr_ok :: "argument \<Rightarrow> nat \<Rightarrow> nat \<Rightarrow> bool" where
  "wr_ok args slot wr \<longleftrightarrow> slot < nat (concurrency args) \<and> wr < 20"

lemma mixed_radix:
  assumes "b < n" and "b' < n" and eq: "a * n + b = a' * n + (b' :: nat)"
  shows "a = a' \<and> b = b'"
proof -
  have "(a * n + b) div n = (a' * n + b') div n"
    using eq by (rule arg_cong)
  then have "a = a'"
    using assms(1,2) by simp
  then show ?thesis
    using eq by simp
qed

lemma wr_number:
  assumes "wr_ok args slot wr" and "wr_ok args slot' wr'" and "slot * 20 + wr = slot' * 20 + wr'"
  shows "slot = slot' \<and> wr = wr'"
  using assms by (intro mixed_radix [of wr 20]) (simp_all add: wr_ok_def)

lemma wr_number_bound:
  assumes "wr_ok args slot wr"
  shows "slot * 20 + wr < nat (concurrency args) * 20"
  using assms multiple_inside [of slot "nat (concurrency args)" 20] by (simp add: wr_ok_def)

lemma write_remote_unat:
  assumes v: "valid_arguments args" and ok: "wr_ok args slot wr"
  shows "unat (write_remote_off args slot wr) = (slot * 20 + wr) * (unat (send_size args) div 2)"
proof -
  note V = valid_argumentsD [OF v]
  have "200 * (unat (send_size args) div 2) \<le> 100 * 2 ^ 32"
    using V(4) by simp
  moreover have "slot * 20 + wr < 200"
    using wr_number_bound [OF ok] V(3) by linarith
  ultimately show ?thesis
    unfolding write_remote_off_def write_remote_base_off_def Let_def wr_size_write_def wr_offset_word [OF V(5)]
    by (intro unat_of_nat_mult_u64 [where n = 200 and N = "100 * 2 ^ 32"]) simp_all
qed

lemma write_words:
  assumes "valid_arguments args"
  shows "unat (wr_size_write args) = unat (send_size args) div 2"
    and "unat (send_size args) = 2 * (unat (send_size args) div 2)"
  using valid_argumentsD(5) [OF assms] by (auto simp: wr_size_write_def half_word(2))

lemma write_remote_inside:
  assumes v: "valid_arguments args" and srv: "op_code srv = 0" "send_size srv = send_size args"
    and ok: "wr_ok args slot wr"
  shows "unat (write_remote_off args slot wr) + unat (wr_size_write args) \<le> unat (fst (layout_server_buffer srv))"
proof -
  note V = valid_argumentsD [OF v]
  define h where "h = unat (send_size args) div 2"
  have "unat (fst (layout_server_buffer srv)) = 200 * h"
    using srv server_len [OF V(4)] write_words(2) [OF v] by (simp add: layout_server_buffer_def Let_def h_def)
  moreover have "(slot * 20 + wr) * h + h \<le> 200 * h"
    using wr_number_bound [OF ok] V(3) by (intro multiple_inside) linarith
  ultimately show ?thesis
    using write_remote_unat [OF v ok] write_words(1) [OF v] by (simp add: h_def)
qed

lemma write_local_inside:
  assumes v: "valid_arguments args" and op: "op_code args = 0" and ok: "wr_ok args slot wr"
  shows "unat (write_local_off args slot wr) + unat (wr_size_write args) \<le> unat (fst (layout_client_buffer args))"
proof -
  note V = valid_argumentsD [OF v]
  define h where "h = unat (send_size args) div 2"
  define c where "c = nat (concurrency args)"
  note hs = write_words(1) [OF v, folded h_def] and s = write_words(2) [OF v, folded h_def]
  have k: "slot * 2 + wr mod 2 < c * 2"
  proof -
    have "slot * 2 + 2 \<le> c * 2"
      using ok by (intro multiple_inside) (simp add: wr_ok_def c_def)
    moreover have "wr mod 2 < 2"
      by simp
    ultimately show ?thesis
      by linarith
  qed
  have "write_local_off args slot wr = of_nat ((slot * 2 + wr mod 2) * h)"
  proof -
    have "of_nat (unat (send_size args)) = send_size args" "of_nat (unat (wr_size_write args)) = wr_size_write args"
      by simp_all
    then have w: "of_nat (2 * h) = send_size args" "of_nat h = wr_size_write args"
      unfolding s hs .
    show ?thesis
      unfolding write_local_off_def write_local_base_off_def w [symmetric] by (simp add: algebra_simps)
  qed
  then have "unat (write_local_off args slot wr) = (slot * 2 + wr mod 2) * h"
    using k V(3,4) s by (simp only:) (rule unat_of_nat_mult_u64 [where n = 20 and N = "20 * 2 ^ 32"],
      simp_all add: c_def)
  moreover have "(slot * 2 + wr mod 2) * h + h \<le> c * 2 * h"
    by (rule multiple_inside [OF k])
  moreover have "c * 2 * h \<le> unat (threads args) * c * unat (send_size args)"
    using mult_right_mono [OF V(9), of "c * 2 * h"] by (simp add: s mult.assoc mult.left_commute)
  ultimately show ?thesis
    unfolding client_write_len [OF v op] hs c_def [symmetric] by linarith
qed

text \<open>C4: The write pipeline stays inside its buffers and the requests of a worker never collide. For an
  accepted configuration and a server in write mode with the same send size (the handshake
  compares the send sizes, not the modes), every work request of every slot below the
  concurrency reads a range inside the client's data area and writes a range inside the
  server's data area, and two different work requests of one worker write disjoint ranges.\<close>

theorem write_addresses_ok:
  assumes v: "valid_arguments args" and op: "op_code args = 0"
    and srv: "op_code srv = 0" "send_size srv = send_size args"
    and ok: "wr_ok args slot wr" "wr_ok args slot' wr'" and ne: "(slot, wr) \<noteq> (slot', wr')"
  shows "unat (write_local_off args slot wr) + unat (wr_size_write args)
           \<le> unat (fst (layout_client_buffer args)) \<and>
         unat (write_remote_off args slot wr) + unat (wr_size_write args)
           \<le> unat (fst (layout_server_buffer srv)) \<and>
         apart (unat (wr_size_write args)) (unat (write_remote_off args slot wr))
           (unat (write_remote_off args slot' wr'))"
proof -
  have "slot * 20 + wr \<noteq> slot' * 20 + wr'"
    using wr_number [OF ok] ne by blast
  then show ?thesis
    using write_local_inside [OF v op ok(1)] write_remote_inside [OF v srv ok(1)] multiples_apart
    unfolding write_remote_unat [OF v ok(1)] write_remote_unat [OF v ok(2)] write_words(1) [OF v] by blast
qed

lemma get_local_as_remote:
  assumes v: "valid_arguments args"
  shows "get_local_off args wid slot wr =
    get_remote_off args (unat wid * nat (concurrency args) + slot) wr"
proof -
  have "(word_of_int (concurrency args) :: u64) = of_nat (nat (concurrency args))"
    "(ucast wid :: u64) = of_nat (unat wid)"
    using valid_argumentsD(2) [OF v] by simp_all
  then show ?thesis
    using valid_argumentsD(2) [OF v]
    by (simp add: get_local_off_def get_remote_off_def get_local_base_off_def get_remote_base_off_def Let_def algebra_simps)
qed

lemma get_remote_unat:
  assumes "even (unat (value_size args))" and "slot * 20 + wr < n"
    and "n * (unat (value_size args) div 2) \<le> N" and "N < 2 ^ 64"
  shows "unat (get_remote_off args slot wr) = (slot * 20 + wr) * (unat (value_size args) div 2)"
  unfolding get_remote_off_def get_remote_base_off_def Let_def wr_size_get_def wr_offset_word [OF assms(1)]
  using assms(2-4) by (rule unat_of_nat_mult_u64)

text \<open>The numbers of the work requests of all workers.\<close>

definition get_number :: "argument \<Rightarrow> nat \<Rightarrow> nat \<Rightarrow> nat \<Rightarrow> nat" where
  "get_number args wid slot wr = (wid * nat (concurrency args) + slot) * 20 + wr"

lemma get_number_bound:
  assumes "wid < t" and "wr_ok args slot wr"
  shows "get_number args wid slot wr < t * nat (concurrency args) * 20"
proof -
  have "wid * nat (concurrency args) + nat (concurrency args) \<le> t * nat (concurrency args)"
    using assms(1) by (rule multiple_inside)
  then have "wid * nat (concurrency args) + slot < t * nat (concurrency args)"
    using assms(2) by (simp add: wr_ok_def)
  then have "(wid * nat (concurrency args) + slot) * 20 + 20 \<le> t * nat (concurrency args) * 20"
    by (rule multiple_inside)
  then show ?thesis
    using assms(2) by (simp add: wr_ok_def get_number_def)
qed

lemma get_number_inj:
  assumes ok: "wr_ok args slot wr" "wr_ok args slot' wr'"
    and eq: "get_number args wid slot wr = get_number args wid' slot' wr'"
  shows "(wid, slot, wr) = (wid', slot', wr')"
proof -
  have "wid * nat (concurrency args) + slot = wid' * nat (concurrency args) + slot' \<and> wr = wr'"
    using ok eq by (intro mixed_radix [of wr 20]) (simp_all only: wr_ok_def get_number_def)
  then show ?thesis
    using ok mixed_radix [of slot "nat (concurrency args)" slot' wid wid'] by (simp add: wr_ok_def)
qed

lemma get_words:
  assumes "valid_arguments args" and "op_code args = 1"
  shows "unat (wr_size_get args) = unat (value_size args) div 2"
    and "unat (value_size args) = 2 * (unat (value_size args) div 2)"
  using valid_argumentsD(8) [OF assms] by (auto simp: wr_size_get_def half_word(2))

lemma get_client_len:
  assumes "valid_arguments args" and "op_code args = 1"
  shows "unat (fst (layout_client_buffer args)) =
    unat (threads args) * nat (concurrency args) * 20 * (unat (value_size args) div 2)"
  unfolding client_get_len [OF assms] by (subst get_words(2) [OF assms]) simp

lemma get_local_unat:
  assumes v: "valid_arguments args" and op: "op_code args = 1" and ok: "wr_ok args slot wr"
    and wid: "unat wid < unat (threads args)"
  shows "unat (get_local_off args wid slot wr) = get_number args (unat wid) slot wr * (unat (value_size args) div 2)"
proof -
  have "unat (threads args) * nat (concurrency args) * 20 * (unat (value_size args) div 2) < 2 ^ 64"
    using unat_u64_less [of "fst (layout_client_buffer args)"] by (simp only: get_client_len [OF v op])
  then show ?thesis
    using get_remote_unat [OF valid_argumentsD(8) [OF v op] _ order_refl] get_number_bound [OF wid ok]
    unfolding get_local_as_remote [OF v] get_number_def by blast
qed

lemma get_local_inside:
  assumes v: "valid_arguments args" and op: "op_code args = 1" and ok: "wr_ok args slot wr"
    and wid: "unat wid < unat (threads args)"
  shows "unat (get_local_off args wid slot wr) + unat (wr_size_get args) \<le> unat (fst (layout_client_buffer args))"
  unfolding get_local_unat [OF assms] get_words(1) [OF v op] get_client_len [OF v op]
  by (rule multiple_inside [OF get_number_bound [OF wid ok]])

lemma get_remote_inside:
  assumes v: "valid_arguments args" and op: "op_code args = 1"
    and srv: "op_code srv = 1" "value_size srv = value_size args" and ok: "wr_ok args slot wr"
  shows "unat (get_remote_off args slot wr) + unat (wr_size_get args) \<le> unat (fst (layout_server_buffer srv))"
proof -
  note V = valid_argumentsD [OF v]
  define h where "h = unat (value_size args) div 2"
  note s = get_words(2) [OF v op, folded h_def]
  have sl: "slot * 20 + wr < 200"
    using wr_number_bound [OF ok] V(3) by linarith
  then have "unat (get_remote_off args slot wr) = (slot * 20 + wr) * h"
    using get_remote_unat [OF V(8) [OF op], of slot wr 200 "200 * h"] s V(7) by (simp add: h_def [symmetric])
  moreover have "(slot * 20 + wr) * h + h \<le> 200 * h"
    using sl by (rule multiple_inside)
  moreover have "unat (fst (layout_server_buffer srv)) = 200 * h"
    using srv server_len [OF V(7)] by (simp add: layout_server_buffer_def Let_def s)
  ultimately show ?thesis
    using get_words(1) [OF v op] by (simp add: h_def)
qed

text \<open>C10: The get pipeline likewise: for an accepted configuration and a server in get mode with the
  same value size (the handshake compares neither), every work request of every worker
  writes a range inside the client's data area and reads a range inside the server's data
  area, and two different work requests, of the same or of different workers, write
  disjoint local ranges.\<close>

theorem get_addresses_ok:
  assumes v: "valid_arguments args" and op: "op_code args = 1"
    and srv: "op_code srv = 1" "value_size srv = value_size args"
    and ok: "wr_ok args slot wr" "wr_ok args slot' wr'"
    and wid: "unat wid < unat (threads args)" "unat wid' < unat (threads args)"
    and ne: "(unat wid, slot, wr) \<noteq> (unat wid', slot', wr')"
  shows "unat (get_local_off args wid slot wr) + unat (wr_size_get args)
           \<le> unat (fst (layout_client_buffer args)) \<and>
         unat (get_remote_off args slot wr) + unat (wr_size_get args)
           \<le> unat (fst (layout_server_buffer srv)) \<and>
         apart (unat (wr_size_get args)) (unat (get_local_off args wid slot wr))
           (unat (get_local_off args wid' slot' wr'))"
proof -
  have "get_number args (unat wid) slot wr \<noteq> get_number args (unat wid') slot' wr'"
    using get_number_inj [OF ok] ne by blast
  then show ?thesis
    using get_local_inside [OF v op ok(1) wid(1)] get_remote_inside [OF v op srv ok(1)] multiples_apart
    unfolding get_local_unat [OF v op ok(1) wid(1)] get_local_unat [OF v op ok(2) wid(2)] get_words(1) [OF v op]
    by blast
qed

text \<open>Two accepted configurations, of the write and of the get pipeline, with concurrency 4.\<close>

lemma example_valid:
  "valid_arguments (default_arguments\<lparr>dev_name := Some ''bonding0'', concurrency := 4, op_code := 0\<rparr>)"
  "valid_arguments (default_arguments\<lparr>dev_name := Some ''bonding0'', concurrency := 4, op_code := 1\<rparr>)"
  by (simp_all add: valid_arguments_def default_arguments_def)

theorem write_addresses_ok_witness:
  "apart 4194304
     (unat (write_remote_off (default_arguments\<lparr>dev_name := Some ''bonding0'', concurrency := 4, op_code := 0\<rparr>) 3 19))
     (unat (write_remote_off (default_arguments\<lparr>dev_name := Some ''bonding0'', concurrency := 4, op_code := 0\<rparr>) 2 0))"
  using write_addresses_ok [OF example_valid(1), of default_arguments 3 19 2 0]
  by (simp add: wr_ok_def default_arguments_def wr_size_write_def)

theorem get_addresses_ok_witness:
  "apart 2097152
     (unat (get_local_off (default_arguments\<lparr>dev_name := Some ''bonding0'', concurrency := 4, op_code := 1\<rparr>) 0 3 19))
     (unat (get_local_off (default_arguments\<lparr>dev_name := Some ''bonding0'', concurrency := 4, op_code := 1\<rparr>) 0 2 0))"
  using get_addresses_ok [OF example_valid(2), of "default_arguments\<lparr>op_code := 1\<rparr>" 3 19 2 0 0 0]
  by (simp add: wr_ok_def default_arguments_def wr_size_get_def)

section \<open>Lemmas: NUMA binding\<close>

text \<open>Consecutive chunks of at most 1 GB from \<open>a\<close> to \<open>b\<close>.\<close>

fun tiles :: "nat \<Rightarrow> (u64 \<times> u64) list \<Rightarrow> nat \<Rightarrow> bool" where
  "tiles a [] b \<longleftrightarrow> a = b"
| "tiles a ((p, l) # cs) b \<longleftrightarrow> unat p = a \<and> 0 < unat l \<and> unat l \<le> 2 ^ 30 \<and> tiles (a + unat l) cs b"

lemma unat_chunk: "unat (min (w :: u64) (push_bit 30 1)) = min (unat w) (2 ^ 30)"
proof -
  have "unat (push_bit 30 1 :: u64) = 2 ^ 30"
    by simp
  then show ?thesis
    unfolding min_def word_le_nat_alt by (simp only:) simp
qed

lemma mbind_chunks_tiles:
  assumes "\<forall>a l. sys_mbind a l = 0" and "unat p + unat len < 2 ^ 64" and "off \<le> len"
  shows "\<exists>cs. mbind_chunks sys_mbind p len off = (0, cs) \<and> tiles (unat p + unat off) cs (unat p + unat len)"
  using assms
proof (induction sys_mbind p len off rule: mbind_chunks.induct)
  case (1 sys_mbind p len off)
  show ?case
  proof (cases "off < len")
    case True
    define chunk where "chunk = min (len - off) (push_bit 30 1)"
    have d: "unat (len - off) = unat len - unat off" and lt: "unat off < unat len"
      using True by (simp_all add: unat_sub word_less_nat_alt word_le_nat_alt)
    have c: "unat chunk = min (unat len - unat off) (2 ^ 30)"
      unfolding chunk_def unat_chunk d ..
    then have cpos: "0 < unat chunk" "unat chunk \<le> 2 ^ 30" "unat off + unat chunk \<le> unat len"
      using lt by auto
    have po: "unat (p + off) = unat p + unat off"
      using "1.prems"(2) lt by (intro unat_add_u64) linarith
    have oc: "unat (off + chunk) = unat off + unat chunk"
      using cpos(3) unat_u64_less [of len] by (intro unat_add_u64) linarith
    then have "off + chunk \<le> len"
      using cpos(3) by (simp add: word_le_nat_alt)
    then obtain cs where cs: "mbind_chunks sys_mbind p len (off + chunk) = (0, cs)"
      "tiles (unat p + unat (off + chunk)) cs (unat p + unat len)"
      using "1.IH" [OF True chunk_def] "1.prems"(1,2) by blast
    have "mbind_chunks sys_mbind p len off = (0, (p + off, chunk) # cs)"
      using True "1.prems"(1) cs(1)
      unfolding mbind_chunks.simps [of _ _ _ off] Let_def chunk_def [symmetric] by simp
    moreover have "tiles (unat p + unat off) ((p + off, chunk) # cs) (unat p + unat len)"
      using cs(2) cpos po oc by (simp add: add.assoc)
    ultimately show ?thesis
      by blast
  next
    case False
    then show ?thesis
      using "1.prems" by (subst mbind_chunks.simps) simp
  qed
qed

lemma mbind_chunks_fail:
  "fst (mbind_chunks sys_mbind p len off) \<in> {0, -1}"
proof (induction sys_mbind p len off rule: mbind_chunks.induct)
  case (1 sys_mbind p len off)
  then show ?case
    by (subst mbind_chunks.simps) (auto simp: Let_def split: prod.split)
qed

lemma page_floor: "unat ((w div q) * q :: u64) = unat w div unat q * unat q"
proof -
  have "unat w div unat q * unat q < 2 ^ 64"
    using div_times_less_eq_dividend [of "unat w" "unat q"] unat_u64_less [of w] by linarith
  then show ?thesis
    unfolding unat_word_ariths(2) unat_div_distrib by simp
qed

text \<open>C26: The NUMA binding covers the buffer: when the system call succeeds for the node's mask, the chunks bound are
  consecutive pieces of at most 1 GB, from a page boundary at or before the start of the
  buffer to a page boundary at or after its end. The loop always ends.\<close>

theorem mbind_covers:
  assumes node: "0 \<le> node" and page: "0 < pageSize" and ok: "\<forall>a l. sys_mbind (push_bit (nat node) 1) a l = 0"
    and fit: "unat addr + unat len + unat pageSize < 2 ^ 64"
  shows "\<exists>cs b e. mbind_to_node pageSize sys_mbind addr len node = (0, cs) \<and> tiles b cs e \<and>
    b \<le> unat addr \<and> unat addr + unat len \<le> e \<and>
    unat pageSize dvd b \<and> unat pageSize dvd e"
proof -
  define ps where "ps = unat pageSize"
  define b where "b = (addr div pageSize) * pageSize"
  define e where "e = ((addr + len + pageSize - 1) div pageSize) * pageSize"
  have ps: "0 < ps" "unat addr + unat len + ps < 2 ^ 64"
    using page fit by (simp_all add: ps_def word_less_nat_alt)
  have ub: "unat b = unat addr div ps * ps"
    unfolding b_def ps_def by (rule page_floor)
  have al: "unat (addr + len) = unat addr + unat len"
    using ps by (intro unat_add_u64) linarith
  then have "unat (addr + len + pageSize) = unat addr + unat len + ps"
    using ps by (subst unat_add_u64) (simp_all add: ps_def)
  then have alp: "unat (addr + len + pageSize - 1) = unat addr + unat len + ps - 1"
    using ps by (subst unat_sub) (simp_all add: word_le_nat_alt)
  then have ue: "unat e = (unat addr + unat len + ps - 1) div ps * ps"
    unfolding e_def ps_def page_floor by (simp add: ps_def)
  have lo: "unat b \<le> unat addr"
    unfolding ub by (rule div_times_less_eq_dividend)
  have hi: "unat addr + unat len \<le> unat e"
  proof -
    define x where "x = unat addr + unat len + ps - 1"
    have "x = x div ps * ps + x mod ps" "x mod ps < ps" "unat addr + unat len + ps = x + 1"
      using ps by (simp_all add: x_def)
    then show ?thesis
      unfolding ue x_def [symmetric] by linarith
  qed
  have be: "b \<le> e"
    using lo hi by (simp add: word_le_nat_alt)
  then have d: "unat (e - b) = unat e - unat b"
    by (simp add: unat_sub)
  obtain cs where "mbind_chunks (sys_mbind (push_bit (nat node) 1)) b (e - b) 0 = (0, cs)" "tiles (unat b) cs (unat e)"
    using mbind_chunks_tiles [OF ok, of b "e - b" 0] unat_u64_less [of e] lo hi d by auto
  moreover have "mbind_to_node pageSize sys_mbind addr len node =
      mbind_chunks (sys_mbind (push_bit (nat node) 1)) b (e - b) 0"
    using node page by (simp add: mbind_to_node_def Let_def b_def e_def word_gt_0)
  ultimately show ?thesis
    using lo hi ub ue ps_def by fastforce
qed

theorem mbind_covers_witness:
  "\<exists>cs b e. mbind_to_node 4096 (\<lambda>m a l. 0) 8192 100000 0 = (0, cs) \<and> tiles b cs e \<and> b \<le> 8192 \<and> 108192 \<le> e"
  using mbind_covers [of 0 4096 "\<lambda>m a l. 0" 8192 100000] by auto

end
