(* ===== verification/Urma_Resource.thy ===== *)
theory Urma_Resource
  imports SendJettyPool
begin

text \<open>
  The owner of the library handles, \<^verbatim>\<open>src/urma/urma_resource.cpp\<close>: creation of the context, the
  completion queue, the receive queues and the jettys, registration and import of segments, and
  the order in which everything is given back.

  The URMA library is not part of the repository. Its answers are an argument: a function from
  the calls made so far and the next call to a handle, \<^term>\<open>None\<close> standing for a null pointer
  or a status other than success. Every call is recorded in the trace, with the configuration
  the code passes. A smart pointer is the handle it owns; a handle that another object still
  shares when its owner is reset is in the argument \<open>kept\<close> and is not deleted by that reset.
\<close>

section \<open>Library calls\<close>

datatype trans_mode = TM_RM | TM_RC | TM_UM

record jfr_cfg =
  jfr_depth :: u32
  jfr_order_type :: nat
  jfr_trans_mode :: trans_mode
  jfr_jfc :: nat
  jfr_token :: u32
  jfr_max_sge :: nat

record jetty_cfg =
  jfs_depth :: u32
  jfs_order_type :: nat
  jfs_multi_path :: nat
  jfs_trans_mode :: trans_mode
  jfs_priority :: nat
  jfs_max_sge :: u32
  jfs_jfc :: nat
  shared_jfr :: nat
  shared_jfc :: nat

record seg_cfg =
  seg_va :: u64
  seg_len :: u64
  seg_token :: u32
  seg_cacheable :: bool

datatype tp_type = TP_RTP | TP_CTP

record urma_jetty_id =
  jid_eid :: nat
  jid_uasid :: u32
  jid_id :: u32

record rjetty =
  rj_jetty_id :: urma_jetty_id
  rj_trans_mode :: trans_mode
  rj_tp_type :: tp_type
  rj_order_type :: nat
  rj_share_tp :: nat
  rj_has_drv_ext :: bool

record remote_seg =
  rs_eid :: nat
  rs_uasid :: u32
  rs_va :: u64
  rs_len :: u64
  rs_flag :: u32
  rs_token_id :: u32

datatype urma_call =
    Init_lib | Uninit_lib | Get_device string | Get_eid nat
  | Query_device nat
  | Create_context nat u32 | Create_jfce nat | Create_jfc nat u32 "nat option"
  | Create_jfr nat jfr_cfg | Create_jetty nat jetty_cfg | Rearm_jfc nat
  | Ack_jfc nat nat
  | Register_seg nat seg_cfg | Import_jetty nat rjetty u32 | Import_seg nat remote_seg u32 bool
  | Bind_jetty nat nat
  | Delete_context nat | Delete_jfce nat | Delete_jfc nat | Delete_jfr nat | Delete_jetty nat
  | Unregister_seg nat | Unimport_jetty nat | Unimport_seg nat

text \<open>The answers of the library and the two device attributes that are used.\<close>

record urma_lib =
  answer :: "urma_call list \<Rightarrow> urma_call \<Rightarrow> nat option"
  max_jfc_depth :: u32
  max_write_size :: u64

section \<open>The code\<close>

record resource =
  rctx :: "nat option"
  rjfce :: "nat option"
  rjfc :: "nat option"
  sharedJettyJfr :: "nat option"
  sendJettyPool :: send_pool
  sharedRecvJetty :: "(nat \<times> nat) option"
  maxWriteSize :: u64
  transMode :: u32
  rcacheable :: bool
  rtoken :: u32
  localSeg :: "nat option"
  trace :: "urma_call list"

definition resource_start :: resource where
  "resource_start =
     \<lparr>rctx = None, rjfce = None, rjfc = None, sharedJettyJfr = None,
      sendJettyPool = SendJettyPool_init, sharedRecvJetty = None, maxWriteSize = 0, transMode = 0,
      rcacheable = False, rtoken = 0, localSeg = None, trace = []\<rparr>"

abbreviation (input) kUrmaJettySize :: u32 where "kUrmaJettySize \<equiv> 256"
abbreviation (input) kSharedJfrDepth :: u32 where "kSharedJfrDepth \<equiv> 32"
abbreviation (input) kUrmaMaxSge :: u32 where "kUrmaMaxSge \<equiv> 2"
abbreviation (input) kInvalidChip :: u32 where "kInvalidChip \<equiv> 255"

definition ResolveTransMode :: "u32 \<Rightarrow> trans_mode" where
  "ResolveTransMode mode = (if mode = 1 \<or> mode = 3 then TM_RC else if mode = 2 then TM_UM else TM_RM)"

text \<open>One call of the library, and the calls of destructors, whose status is ignored.\<close>

definition urma :: "urma_lib \<Rightarrow> urma_call \<Rightarrow> resource \<Rightarrow> nat option \<times> resource" where
  "urma lib c r = (answer lib (trace r) c, r\<lparr>trace := trace r @ [c]\<rparr>)"

definition give_back :: "nat set \<Rightarrow> nat list \<Rightarrow> (nat \<Rightarrow> urma_call) \<Rightarrow> resource \<Rightarrow> resource" where
  "give_back kept hs del r = r\<lparr>trace := trace r @ map del (filter (\<lambda>h. h \<notin> kept) hs)\<rparr>"

definition handle_list :: "nat option \<Rightarrow> nat list" where
  "handle_list h = (case h of None \<Rightarrow> [] | Some x \<Rightarrow> [x])"

definition UrmaContext_Create :: "urma_lib \<Rightarrow> nat option \<Rightarrow> u32 \<Rightarrow> resource \<Rightarrow> bool \<times> resource" where
  "UrmaContext_Create lib dev eidIndex r =
     (case dev of
        None \<Rightarrow> (False, r)
      | Some d \<Rightarrow>
          (case urma lib (Create_context d eidIndex) r of
             (None, r1) \<Rightarrow> (False, r1)
           | (Some h, r1) \<Rightarrow> (True, r1\<lparr>rctx := Some h\<rparr>)))"

definition UrmaJfce_Create :: "urma_lib \<Rightarrow> resource \<Rightarrow> bool \<times> resource" where
  "UrmaJfce_Create lib r =
     (case rctx r of
        None \<Rightarrow> (False, r)
      | Some ctx \<Rightarrow>
          (case urma lib (Create_jfce ctx) r of
             (None, r1) \<Rightarrow> (False, r1)
           | (Some h, r1) \<Rightarrow> (True, r1\<lparr>rjfce := Some h\<rparr>)))"

definition UrmaJfc_Create :: "urma_lib \<Rightarrow> nat option \<Rightarrow> resource \<Rightarrow> bool \<times> resource" where
  "UrmaJfc_Create lib jfce r =
     (case rctx r of
        None \<Rightarrow> (False, r)
      | Some ctx \<Rightarrow>
          (case urma lib (Create_jfc ctx (max_jfc_depth lib) jfce) r of
             (None, r1) \<Rightarrow> (False, r1)
           | (Some h, r1) \<Rightarrow> (True, r1\<lparr>rjfc := Some h\<rparr>)))"

definition RearmJfc :: "urma_lib \<Rightarrow> resource \<Rightarrow> bool \<times> resource" where
  "RearmJfc lib r =
     (case rjfc r of
        None \<Rightarrow> (False, r)
      | Some h \<Rightarrow> (case urma lib (Rearm_jfc h) r of (a, r1) \<Rightarrow> (a \<noteq> None, r1)))"

text \<open>The receive queue is returned, not stored.\<close>

definition UrmaJfr_Create :: "urma_lib \<Rightarrow> u32 \<Rightarrow> resource \<Rightarrow> nat option \<times> resource" where
  "UrmaJfr_Create lib depth r =
     (case (rctx r, rjfc r) of
        (Some ctx, Some jfc) \<Rightarrow>
          urma lib (Create_jfr ctx
            \<lparr>jfr_depth = depth, jfr_order_type = (if transMode r = 3 then 1 else 0),
             jfr_trans_mode = ResolveTransMode (transMode r), jfr_jfc = jfc, jfr_token = rtoken r,
             jfr_max_sge = 1\<rparr>) r
      | _ \<Rightarrow> (None, r))"

text \<open>The jetty with its receive queue; a receive queue that only this call owns is deleted again when
  the jetty cannot be created.\<close>

definition UrmaJetty_Create :: "urma_lib \<Rightarrow> bool \<Rightarrow> resource \<Rightarrow> (nat \<times> nat) option \<times> resource" where
  "UrmaJetty_Create lib isSend r =
     (case (rctx r, rjfc r) of
        (Some ctx, Some jfc) \<Rightarrow>
          (let (jfr, r1) =
                 (if isSend then
                    (case sharedJettyJfr r of
                       Some h \<Rightarrow> (Some h, r)
                     | None \<Rightarrow> (case UrmaJfr_Create lib kSharedJfrDepth r of
                                  (None, r1) \<Rightarrow> (None, r1)
                                | (Some h, r1) \<Rightarrow> (Some h, r1\<lparr>sharedJettyJfr := Some h\<rparr>)))
                  else UrmaJfr_Create lib kUrmaJettySize r)
           in case jfr of
                None \<Rightarrow> (None, r1)
              | Some q \<Rightarrow>
                  (case urma lib (Create_jetty ctx
                      \<lparr>jfs_depth = kUrmaJettySize, jfs_order_type = (if transMode r = 3 then 1 else 0),
                       jfs_multi_path = 1, jfs_trans_mode = ResolveTransMode (transMode r),
                       jfs_priority = 4, jfs_max_sge = kUrmaMaxSge, jfs_jfc = jfc, shared_jfr = q,
                       shared_jfc = jfc\<rparr>) r1 of
                     (None, r2) \<Rightarrow> (None, if isSend then r2 else give_back {} [q] Delete_jfr r2)
                   | (Some j, r2) \<Rightarrow> (Some (j, q), r2)))
      | _ \<Rightarrow> (None, r))"

definition CreateSendJetty :: "urma_lib \<Rightarrow> resource \<Rightarrow> nat option \<times> resource" where
  "CreateSendJetty lib r = (case UrmaJetty_Create lib True r of (o1, r1) \<Rightarrow> (map_option fst o1, r1))"

primrec PreFillSendJettyPool :: "urma_lib \<Rightarrow> nat \<Rightarrow> resource \<Rightarrow> bool \<times> resource" where
  "PreFillSendJettyPool lib 0 r = (True, r)"
| "PreFillSendJettyPool lib (Suc n) r =
     (case CreateSendJetty lib r of
        (None, r1) \<Rightarrow> (False, r1)
      | (Some j, r1) \<Rightarrow> PreFillSendJettyPool lib n (r1\<lparr>sendJettyPool := Add j (sendJettyPool r1)\<rparr>))"

definition GetOrCreateSharedRecvJetty :: "urma_lib \<Rightarrow> resource \<Rightarrow> (nat \<times> nat) option \<times> resource" where
  "GetOrCreateSharedRecvJetty lib r =
     (case sharedRecvJetty r of
        Some h \<Rightarrow> (Some h, r)
      | None \<Rightarrow>
          (case UrmaJetty_Create lib False r of
             (None, r1) \<Rightarrow> (None, r1)
           | (Some h, r1) \<Rightarrow> (Some h, r1\<lparr>sharedRecvJetty := Some h\<rparr>)))"

text \<open>The members are reset in this order; a jetty's destructor deletes the jetty and then drops its
  receive queue.\<close>

definition Resource_Clear :: "nat set \<Rightarrow> resource \<Rightarrow> resource" where
  "Resource_Clear kept r =
     (let r1 = (give_back kept (handle_list (localSeg r)) Unregister_seg r)\<lparr>localSeg := None\<rparr>;
          r2 = (give_back kept (jettys (sendJettyPool r1)) Delete_jetty r1)
                 \<lparr>sendJettyPool := Clear (sendJettyPool r1)\<rparr>;
          recv = sharedRecvJetty r2;
          r3 = (give_back kept (handle_list (map_option snd recv)) Delete_jfr
                 (give_back kept (handle_list (map_option fst recv)) Delete_jetty r2))
                 \<lparr>sharedRecvJetty := None\<rparr>;
          r4 = (give_back kept (handle_list (sharedJettyJfr r3)) Delete_jfr r3)\<lparr>sharedJettyJfr := None\<rparr>;
          r5 = (give_back kept (handle_list (rjfc r4)) Delete_jfc r4)\<lparr>rjfc := None\<rparr>;
          r6 = (give_back kept (handle_list (rjfce r5)) Delete_jfce r5)\<lparr>rjfce := None\<rparr>
      in (give_back kept (handle_list (rctx r6)) Delete_context r6)\<lparr>rctx := None\<rparr>)"

definition and_then :: "bool \<times> resource \<Rightarrow> (resource \<Rightarrow> bool \<times> resource) \<Rightarrow> bool \<times> resource" where
  "and_then x f = (case x of (ok, r) \<Rightarrow> if ok then f r else (False, r))"

definition lane_target :: "u32 \<Rightarrow> u32 \<Rightarrow> u32" where
  "lane_target jettyCount minJettys =
     (let count = (if jettyCount > minJettys then jettyCount else minJettys)
      in if count < 1 then 1 else count)"

definition Resource_Init ::
  "urma_lib \<Rightarrow> nat set \<Rightarrow> nat option \<Rightarrow> u32 \<Rightarrow> bool \<Rightarrow> u32 \<Rightarrow> u32 \<Rightarrow> bool \<Rightarrow> u32 \<Rightarrow>
   resource \<Rightarrow> bool \<times> resource" where
  "Resource_Init lib kept device eidIndex cacheable jettyCount minJettys eventMode mode r =
     (let r0 = Resource_Clear kept r
      in case device of
           None \<Rightarrow> (False, r0)
         | Some dev \<Rightarrow>
             (let r1 = r0\<lparr>rcacheable := cacheable, transMode := mode\<rparr>;
                  (q, r2) = urma lib (Query_device dev) r1
              in if q = None then (False, r2)
                 else
                   and_then (UrmaContext_Create lib (Some dev) eidIndex (r2\<lparr>maxWriteSize := max_write_size lib\<rparr>))
                     (\<lambda>r3. and_then (UrmaJfce_Create lib (r3\<lparr>rtoken := 0xACFE\<rparr>))
                     (\<lambda>r4. and_then (UrmaJfc_Create lib (if eventMode then rjfce r4 else None) r4)
                     (\<lambda>r5. and_then (PreFillSendJettyPool lib (unat (lane_target jettyCount minJettys)) r5)
                     (\<lambda>r6. case GetOrCreateSharedRecvJetty lib r6 of (h, r7) \<Rightarrow> (h \<noteq> None, r7)))))))"

text \<open>Registration of the local segment (stored and returned) and the imports.\<close>

definition RegisterSegment :: "urma_lib \<Rightarrow> nat set \<Rightarrow> u64 \<Rightarrow> u64 \<Rightarrow> resource \<Rightarrow> nat option \<times> resource" where
  "RegisterSegment lib kept addr len r =
     (case rctx r of
        None \<Rightarrow> (None, r)
      | Some ctx \<Rightarrow>
          (case urma lib (Register_seg ctx
              \<lparr>seg_va = addr, seg_len = len, seg_token = rtoken r, seg_cacheable = rcacheable r\<rparr>) r of
             (None, r1) \<Rightarrow> (None, r1)
           | (Some h, r1) \<Rightarrow>
               (Some h, (give_back kept (handle_list (localSeg r1)) Unregister_seg r1)\<lparr>localSeg := Some h\<rparr>)))"

definition ImportTargetJetty :: "urma_lib \<Rightarrow> rjetty \<Rightarrow> resource \<Rightarrow> nat option \<times> resource" where
  "ImportTargetJetty lib rj r =
     (case rctx r of None \<Rightarrow> (None, r) | Some ctx \<Rightarrow> urma lib (Import_jetty ctx rj (rtoken r)) r)"

definition ImportSegment :: "urma_lib \<Rightarrow> remote_seg \<Rightarrow> resource \<Rightarrow> nat option \<times> resource" where
  "ImportSegment lib seg r =
     (case rctx r of
        None \<Rightarrow> (None, r) | Some ctx \<Rightarrow> urma lib (Import_seg ctx seg (rtoken r) (rcacheable r)) r)"

definition SendJettyCount :: "resource \<Rightarrow> nat" where
  "SendJettyCount r = poolSize (GetStats (sendJettyPool r))"

definition JettyAt :: "nat \<Rightarrow> resource \<Rightarrow> nat option" where
  "JettyAt index r = At index (sendJettyPool r)"

definition AcquireSendJetty :: "resource \<Rightarrow> nat option \<times> resource" where
  "AcquireSendJetty r = (case PopIdle (sendJettyPool r) of (j, p) \<Rightarrow> (j, r\<lparr>sendJettyPool := p\<rparr>))"

definition ReleaseSendJetty :: "nat option \<Rightarrow> resource \<Rightarrow> resource" where
  "ReleaseSendJetty j r = r\<lparr>sendJettyPool := ReleaseJetty j (sendJettyPool r)\<rparr>"

section \<open>Lemmas: giving back\<close>

text \<open>The order in which handles may be deleted: what uses another handle goes first.\<close>

fun delete_rank :: "urma_call \<Rightarrow> nat" where
  "delete_rank (Unregister_seg h) = 0"
| "delete_rank (Delete_jetty h) = 1"
| "delete_rank (Delete_jfr h) = 2"
| "delete_rank (Delete_jfc h) = 3"
| "delete_rank (Delete_jfce h) = 4"
| "delete_rank (Delete_context h) = 5"
| "delete_rank c = 6"

definition clear_calls :: "resource \<Rightarrow> urma_call list" where
  "clear_calls r =
     map Unregister_seg (handle_list (localSeg r)) @ map Delete_jetty (jettys (sendJettyPool r)) @
     map Delete_jetty (handle_list (map_option fst (sharedRecvJetty r))) @
     map Delete_jfr (handle_list (map_option snd (sharedRecvJetty r))) @
     map Delete_jfr (handle_list (sharedJettyJfr r)) @ map Delete_jfc (handle_list (rjfc r)) @
     map Delete_jfce (handle_list (rjfce r)) @ map Delete_context (handle_list (rctx r))"

lemma give_back_sel [simp]:
  "rctx (give_back kept hs del r) = rctx r" "rjfce (give_back kept hs del r) = rjfce r"
  "rjfc (give_back kept hs del r) = rjfc r" "sharedJettyJfr (give_back kept hs del r) = sharedJettyJfr r"
  "sendJettyPool (give_back kept hs del r) = sendJettyPool r"
  "sharedRecvJetty (give_back kept hs del r) = sharedRecvJetty r"
  "localSeg (give_back kept hs del r) = localSeg r"
  "trace (give_back {} hs del r) = trace r @ map del hs"
  by (simp_all add: give_back_def)

lemma Clear_fields [simp]:
  "jettys (Clear p) = []" "idleIndices (Clear p) = []" "isIdle (Clear p) = []" "jettyIndices (Clear p) = Map.empty"
  by (simp_all add: Clear_def)

lemma Resource_Clear_trace: "trace (Resource_Clear {} r) = trace r @ clear_calls r"
  by (simp add: Resource_Clear_def Let_def clear_calls_def)

lemma Resource_Clear_fields:
  "rctx (Resource_Clear kept r) = None" "rjfce (Resource_Clear kept r) = None"
  "rjfc (Resource_Clear kept r) = None" "sharedJettyJfr (Resource_Clear kept r) = None"
  "jettys (sendJettyPool (Resource_Clear kept r)) = []" "sharedRecvJetty (Resource_Clear kept r) = None"
  "localSeg (Resource_Clear kept r) = None"
  by (simp_all add: Resource_Clear_def Let_def)

lemma handle_list_simps [simp]: "handle_list None = []" "handle_list (Some h) = [h]"
  by (simp_all add: handle_list_def)

lemma sorted_rank: "sorted (map delete_rank (map Delete_jetty hs))" "sorted (map g (map f (handle_list h)))"
  by (induction hs) (simp, simp, cases h, simp_all)

lemma clear_calls_sorted: "sorted (map delete_rank (clear_calls r))"
  unfolding clear_calls_def map_append sorted_append
  by (intro conjI sorted_rank) (auto simp: handle_list_def split: option.splits)

section \<open>Lemmas: initialisation\<close>

text \<open>The jettys that exist after the calls \<open>tr\<close>, and two assumptions on the library: a jetty it creates is
  not one that exists, and no call fails.\<close>

definition live_jettys :: "urma_lib \<Rightarrow> urma_call list \<Rightarrow> nat set" where
  "live_jettys lib tr =
     {h. \<exists>pre ctx cfg post. tr = pre @ Create_jetty ctx cfg # post \<and> answer lib pre (Create_jetty ctx cfg) = Some h \<and>
           Delete_jetty h \<notin> set post}"

definition fresh_jettys :: "urma_lib \<Rightarrow> bool" where
  "fresh_jettys lib \<longleftrightarrow> (\<forall>tr ctx cfg h. answer lib tr (Create_jetty ctx cfg) = Some h \<longrightarrow> h \<notin> live_jettys lib tr)"

definition never_fails :: "urma_lib \<Rightarrow> bool" where
  "never_fails lib \<longleftrightarrow> (\<forall>tr c. answer lib tr c \<noteq> None)"

lemma live_jettys_new:
  "answer lib tr (Create_jetty ctx cfg) = Some h \<Longrightarrow> h \<in> live_jettys lib (tr @ [Create_jetty ctx cfg])"
  by (fastforce simp: live_jettys_def)

lemma live_jettys_mono:
  assumes "\<forall>h. c \<noteq> Delete_jetty h"
  shows "live_jettys lib tr \<subseteq> live_jettys lib (tr @ [c])"
proof
  fix h
  assume "h \<in> live_jettys lib tr"
  then obtain pre ctx cfg post where "tr = pre @ Create_jetty ctx cfg # post"
    "answer lib pre (Create_jetty ctx cfg) = Some h" "Delete_jetty h \<notin> set post"
    by (auto simp: live_jettys_def)
  then show "h \<in> live_jettys lib (tr @ [c])"
    using assms unfolding live_jettys_def
    by (intro CollectI exI [of _ pre] exI [of _ ctx] exI [of _ cfg] exI [of _ "post @ [c]"]) auto
qed

text \<open>What the creation of jettys keeps and what it may extend.\<close>

definition extends :: "urma_lib \<Rightarrow> resource \<Rightarrow> resource \<Rightarrow> bool" where
  "extends lib r r' \<longleftrightarrow>
     rctx r' = rctx r \<and> rjfc r' = rjfc r \<and> sendJettyPool r' = sendJettyPool r \<and>
     sharedRecvJetty r' = sharedRecvJetty r \<and> live_jettys lib (trace r) \<subseteq> live_jettys lib (trace r')"

lemma extends_trans: "extends lib r r' \<Longrightarrow> extends lib r' r'' \<Longrightarrow> extends lib r r''"
  by (auto simp: extends_def)

lemma urma_call_ok:
  assumes "never_fails lib" and "\<forall>h. c \<noteq> Delete_jetty h"
  obtains h where "urma lib c r = (Some h, r\<lparr>trace := trace r @ [c]\<rparr>)"
    and "extends lib r (r\<lparr>trace := trace r @ [c]\<rparr>)" and "answer lib (trace r) c = Some h"
proof -
  obtain h where "answer lib (trace r) c = Some h"
    using assms(1) by (auto simp: never_fails_def)
  then show thesis
    using that live_jettys_mono [OF assms(2)] by (auto simp: extends_def urma_def)
qed

lemma UrmaJfr_Create_ok:
  assumes lib: "never_fails lib" "fresh_jettys lib" and ctx: "rctx r = Some ctx" "rjfc r = Some jfc"
  obtains q r' where "UrmaJfr_Create lib depth r = (Some q, r')" and "extends lib r r'"
proof -
  define c where "c = Create_jfr ctx
    \<lparr>jfr_depth = depth, jfr_order_type = (if transMode r = 3 then 1 else 0),
     jfr_trans_mode = ResolveTransMode (transMode r), jfr_jfc = jfc, jfr_token = rtoken r, jfr_max_sge = 1\<rparr>"
  have "UrmaJfr_Create lib depth r = urma lib c r"
    by (simp add: UrmaJfr_Create_def ctx c_def)
  then show thesis
    using urma_call_ok [OF lib(1), of c r] that by (metis c_def urma_call.distinct)
qed

lemma UrmaJetty_Create_ok:
  assumes lib: "never_fails lib" "fresh_jettys lib" and ctx: "rctx r = Some ctx" "rjfc r = Some jfc"
  obtains j q r' where "UrmaJetty_Create lib isSend r = (Some (j, q), r')" and "extends lib r r'"
    and "j \<notin> live_jettys lib (trace r)" and "j \<in> live_jettys lib (trace r')"
proof -
  define first where "first =
    (if isSend then
       (case sharedJettyJfr r of
          Some h \<Rightarrow> (Some h, r)
        | None \<Rightarrow> (case UrmaJfr_Create lib 32 r of
                     (None, r1) \<Rightarrow> (None, r1)
                   | (Some h, r1) \<Rightarrow> (Some h, r1\<lparr>sharedJettyJfr := Some h\<rparr>)))
     else UrmaJfr_Create lib 256 r)"
  obtain q r1 where first: "first = (Some q, r1)" and ext: "extends lib r r1"
  proof -
    obtain q1 r1 where 1: "UrmaJfr_Create lib 32 r = (Some q1, r1)" "extends lib r r1"
      using UrmaJfr_Create_ok [OF lib ctx] .
    obtain q2 r2 where 2: "UrmaJfr_Create lib 256 r = (Some q2, r2)" "extends lib r r2"
      using UrmaJfr_Create_ok [OF lib ctx] .
    have "extends lib r r" "extends lib r (r1\<lparr>sharedJettyJfr := Some q1\<rparr>)"
      using 1(2) by (auto simp: extends_def)
    then show thesis
      using 1 2 that by (cases isSend; cases "sharedJettyJfr r") (simp_all add: first_def)
  qed
  define c where "c = Create_jetty ctx
    \<lparr>jfs_depth = 256, jfs_order_type = (if transMode r = 3 then 1 else 0), jfs_multi_path = 1,
     jfs_trans_mode = ResolveTransMode (transMode r), jfs_priority = 4, jfs_max_sge = 2, jfs_jfc = jfc,
     shared_jfr = q, shared_jfc = jfc\<rparr>"
  obtain j where j: "urma lib c r1 = (Some j, r1\<lparr>trace := trace r1 @ [c]\<rparr>)"
    "extends lib r1 (r1\<lparr>trace := trace r1 @ [c]\<rparr>)" "answer lib (trace r1) c = Some j"
    by (rule urma_call_ok [OF lib(1), of c r1]) (simp add: c_def)
  then have new: "j \<notin> live_jettys lib (trace r1)" "j \<in> live_jettys lib (trace r1 @ [c])"
    using lib(2) live_jettys_new unfolding c_def fresh_jettys_def by blast+
  have "UrmaJetty_Create lib isSend r = (Some (j, q), r1\<lparr>trace := trace r1 @ [c]\<rparr>)"
    using first j(1) unfolding UrmaJetty_Create_def ctx first_def [symmetric] c_def by simp
  then show thesis
    using that j new extends_trans [OF ext j(2)] ext by (auto simp: extends_def)
qed

lemma PreFill_ok:
  assumes lib: "never_fails lib" "fresh_jettys lib"
  shows "rctx r = Some ctx \<Longrightarrow> rjfc r = Some jfc \<Longrightarrow> lanes_inv (sendJettyPool r) \<Longrightarrow>
    set (jettys (sendJettyPool r)) \<subseteq> live_jettys lib (trace r) \<Longrightarrow>
    \<exists>r'. PreFillSendJettyPool lib n r = (True, r') \<and> rctx r' = Some ctx \<and> rjfc r' = Some jfc \<and>
      sharedRecvJetty r' = sharedRecvJetty r \<and> lanes_inv (sendJettyPool r') \<and>
      length (jettys (sendJettyPool r')) = length (jettys (sendJettyPool r)) + n \<and>
      busy_set (sendJettyPool r') = busy_set (sendJettyPool r)"
proof (induction n arbitrary: r)
  case (Suc n)
  obtain j q r1 where j: "UrmaJetty_Create lib True r = (Some (j, q), r1)" "extends lib r r1"
    "j \<notin> live_jettys lib (trace r)" "j \<in> live_jettys lib (trace r1)"
    using UrmaJetty_Create_ok [OF lib Suc.prems(1,2)] .
  let ?r2 = "r1\<lparr>sendJettyPool := Add j (sendJettyPool r1)\<rparr>"
  have p: "sendJettyPool r1 = sendJettyPool r" and new: "j \<notin> set (jettys (sendJettyPool r))"
    using j Suc.prems(4) by (auto simp: extends_def)
  note add = Add_laws [OF Suc.prems(3) new]
  have "\<exists>r'. PreFillSendJettyPool lib n ?r2 = (True, r') \<and> rctx r' = Some ctx \<and> rjfc r' = Some jfc \<and>
      sharedRecvJetty r' = sharedRecvJetty ?r2 \<and> lanes_inv (sendJettyPool r') \<and>
      length (jettys (sendJettyPool r')) = length (jettys (sendJettyPool ?r2)) + n \<and>
      busy_set (sendJettyPool r') = busy_set (sendJettyPool ?r2)"
    using Suc.prems j add by (intro Suc.IH) (auto simp: extends_def p)
  then show ?case
    using j(1,2) add by (simp add: CreateSendJetty_def extends_def)
qed simp

lemma Clear_init: "Clear p = SendJettyPool_init"
  by (simp add: Clear_def SendJettyPool_init_def)

lemma Resource_Clear_pool: "sendJettyPool (Resource_Clear kept r) = SendJettyPool_init"
  by (simp add: Resource_Clear_def Let_def Clear_init)

lemma init_pool: "jettys SendJettyPool_init = []" "busy_set SendJettyPool_init = {}"
  by (simp_all add: SendJettyPool_init_def busy_set_def)

lemma unat_lane_target: "unat (lane_target a b) = max 1 (max (unat a) (unat b))"
  using unat_gt_0 [of a] unat_gt_0 [of b]
  by (auto simp: lane_target_def Let_def max_def word_less_nat_alt word_le_nat_alt not_less)

text \<open>C23: Initialisation on a device builds the pool it promises: when no call of the library fails and
  a jetty it creates is never one that exists, the result is success, the pool holds exactly
  \<open>max (jettyCount, minJettys, 1)\<close> different jettys, all idle, and the context, the completion
  queue and the receive jetty exist, whatever was owned before.\<close>

theorem resource_init_ok:
  assumes lib: "never_fails lib" "fresh_jettys lib"
  shows "\<exists>r'. Resource_Init lib kept (Some dev) eidIndex cacheable jettyCount minJettys eventMode mode r = (True, r') \<and>
    lanes_inv (sendJettyPool r') \<and> busy_set (sendJettyPool r') = {} \<and>
    SendJettyCount r' = max 1 (max (unat jettyCount) (unat minJettys)) \<and>
    rctx r' \<noteq> None \<and> rjfc r' \<noteq> None \<and> sharedRecvJetty r' \<noteq> None"
proof -
  define r1 where "r1 = (Resource_Clear kept r)\<lparr>rcacheable := cacheable, transMode := mode\<rparr>"
  define r2 where "r2 = r1\<lparr>trace := trace r1 @ [Query_device dev]\<rparr>"
  obtain q where q: "urma lib (Query_device dev) r1 = (Some q, r2)"
    unfolding r2_def by (rule urma_call_ok [OF lib(1), of "Query_device dev" r1]) simp
  define r2' where "r2' = r2\<lparr>maxWriteSize := max_write_size lib\<rparr>"
  obtain ctx where ctx: "urma lib (Create_context dev eidIndex) r2' =
      (Some ctx, r2'\<lparr>trace := trace r2' @ [Create_context dev eidIndex]\<rparr>)"
    by (rule urma_call_ok [OF lib(1), of "Create_context dev eidIndex" r2']) simp
  define r3 where "r3 = r2'\<lparr>trace := trace r2' @ [Create_context dev eidIndex]\<rparr>\<lparr>rctx := Some ctx\<rparr>"
  have s1: "UrmaContext_Create lib (Some dev) eidIndex r2' = (True, r3)"
    using ctx by (simp add: UrmaContext_Create_def r3_def)
  define r3' where "r3' = r3\<lparr>rtoken := 0xACFE\<rparr>"
  obtain e where e: "urma lib (Create_jfce ctx) r3' = (Some e, r3'\<lparr>trace := trace r3' @ [Create_jfce ctx]\<rparr>)"
    by (rule urma_call_ok [OF lib(1), of "Create_jfce ctx" r3']) simp
  define r4 where "r4 = r3'\<lparr>trace := trace r3' @ [Create_jfce ctx]\<rparr>\<lparr>rjfce := Some e\<rparr>"
  have c4: "rctx r3' = Some ctx" "rctx r4 = Some ctx"
    by (simp_all add: r4_def r3'_def r3_def)
  then have s2: "UrmaJfce_Create lib r3' = (True, r4)"
    using e by (simp add: UrmaJfce_Create_def r4_def)
  define c where "c = Create_jfc ctx (max_jfc_depth lib) (if eventMode then rjfce r4 else None)"
  obtain f where f: "urma lib c r4 = (Some f, r4\<lparr>trace := trace r4 @ [c]\<rparr>)"
    by (rule urma_call_ok [OF lib(1), of c r4]) (simp add: c_def)
  define r5 where "r5 = r4\<lparr>trace := trace r4 @ [c]\<rparr>\<lparr>rjfc := Some f\<rparr>"
  have s3: "UrmaJfc_Create lib (if eventMode then rjfce r4 else None) r4 = (True, r5)"
    using f c4 by (simp add: UrmaJfc_Create_def r5_def c_def)
  have r5: "rctx r5 = Some ctx" "rjfc r5 = Some f" "sendJettyPool r5 = SendJettyPool_init" "sharedRecvJetty r5 = None"
    by (simp_all add: r5_def r4_def r3'_def r3_def r2'_def r2_def r1_def Resource_Clear_pool Resource_Clear_fields)
  let ?n = "unat (lane_target jettyCount minJettys)"
  obtain r6 where r6: "PreFillSendJettyPool lib ?n r5 = (True, r6)" "rctx r6 = Some ctx" "rjfc r6 = Some f"
    "lanes_inv (sendJettyPool r6)" "length (jettys (sendJettyPool r6)) = ?n" "busy_set (sendJettyPool r6) = {}"
    "sharedRecvJetty r6 = None"
    using PreFill_ok [OF lib r5(1,2), of ?n] by (auto simp: r5 init_pool lanes_inv_init)
  obtain j k r7 where r7: "UrmaJetty_Create lib False r6 = (Some (j, k), r7)" "extends lib r6 r7"
    using UrmaJetty_Create_ok [OF lib r6(2,3)] .
  have s5: "GetOrCreateSharedRecvJetty lib r6 = (Some (j, k), r7\<lparr>sharedRecvJetty := Some (j, k)\<rparr>)"
    using r7 r6 by (simp add: GetOrCreateSharedRecvJetty_def)
  have "Resource_Init lib kept (Some dev) eidIndex cacheable jettyCount minJettys eventMode mode r =
      (True, r7\<lparr>sharedRecvJetty := Some (j, k)\<rparr>)"
    unfolding Resource_Init_def Let_def r1_def [symmetric] option.case q prod.case r2'_def [symmetric]
    by (simp add: and_then_def s1 r3'_def [symmetric] s2 s3 r6(1) s5)
  then show ?thesis
    using r6 r7(2) by (simp add: extends_def SendJettyCount_def GetStats_def Let_def unat_lane_target)
qed

text \<open>A library whose handles are the numbers of the calls.\<close>

definition counting_lib :: urma_lib where
  "counting_lib = \<lparr>answer = (\<lambda>tr c. Some (length tr)), max_jfc_depth = 1024, max_write_size = 0\<rparr>"

lemma counting_lib_ok: "never_fails counting_lib" "fresh_jettys counting_lib"
proof -
  show "never_fails counting_lib"
    by (simp add: never_fails_def counting_lib_def)
  have "h < length tr" if "h \<in> live_jettys counting_lib tr" for h tr
    using that unfolding live_jettys_def counting_lib_def by force
  then show "fresh_jettys counting_lib"
    unfolding fresh_jettys_def by (force simp: counting_lib_def)
qed

theorem resource_init_ok_witness:
  "\<exists>r'. Resource_Init counting_lib {} (Some 0) 0 False 1 40 False 0 resource_start = (True, r') \<and>
    SendJettyCount r' = 40"
  using resource_init_ok [OF counting_lib_ok, of "{}" 0 0 False 1 40 False 0 resource_start] by auto

end
