(* ===== verification/Urma_Manager.thy ===== *)
theory Urma_Manager
  imports Urma_Resource EventSlotPool
begin

text \<open>
  The manager of \<^verbatim>\<open>src/urma/urma_manager.cpp\<close>: start and stop, the registered buffer, the event
  slots of the workers, the dispatch of completions by the polling thread, send lanes, the
  handshake and the posting of work requests. Waiting for an event, which interleaves with the
  other threads, is in the theory \<open>Worker_World\<close>.

  The slots of the published workers are a list. The messages on the terminal and the interval
  statistics of the polling thread are left out.
\<close>

section \<open>The code\<close>

record manager =
  res :: resource
  workerSlots :: "event_pool list"
  initialized :: bool
  pollStarted :: bool
  stopping :: bool
  eventMode :: bool
  mgrSeg :: "nat option"
  mbuf :: u64
  mbufLen :: u64
  pollCpu :: int

definition manager_start :: manager where
  "manager_start =
     \<lparr>res = resource_start, workerSlots = [], initialized = False, pollStarted = False, stopping = False,
      eventMode = False, mgrSeg = None, mbuf = 0, mbufLen = 0, pollCpu = -1\<rparr>"

abbreviation (input) kRidShift :: nat where "kRidShift \<equiv> 40"
abbreviation (input) kRidMask :: u64 where "kRidMask \<equiv> 0xFFFFFFFFFF"
abbreviation (input) kMaxRegisteredWorkers :: nat where "kMaxRegisteredWorkers \<equiv> 1024"

text \<open>The start of the thread may throw.\<close>

definition EnsurePollThread :: "bool \<Rightarrow> manager \<Rightarrow> bool \<times> manager" where
  "EnsurePollThread thread_ok m =
     (if pollStarted m then (True, m)
      else if thread_ok then (True, m\<lparr>pollStarted := True\<rparr>) else (False, m))"

definition mgr_call :: "urma_lib \<Rightarrow> urma_call \<Rightarrow> manager \<Rightarrow> nat option \<times> manager" where
  "mgr_call lib c m = (case urma lib c (res m) of (a, r) \<Rightarrow> (a, m\<lparr>res := r\<rparr>))"

definition GetEidIndex :: "urma_lib \<Rightarrow> nat \<Rightarrow> manager \<Rightarrow> int \<times> manager" where
  "GetEidIndex lib dev m =
     (case mgr_call lib (Get_eid dev) m of
        (None, m1) \<Rightarrow> (-1, m1) | (Some i, m1) \<Rightarrow> (i32_of_u64 (of_nat i), m1))"

definition Manager_Init ::
  "urma_lib \<Rightarrow> bool \<Rightarrow> string \<Rightarrow> bool \<Rightarrow> u32 \<Rightarrow> u32 \<Rightarrow> bool \<Rightarrow> u32 \<Rightarrow> int \<Rightarrow> manager \<Rightarrow> bool \<times> manager" where
  "Manager_Init lib thread_ok devName cacheable jettyCount threadsMin evMode mode eidIndex m =
     (if initialized m then (True, m)
      else
        let (i, m1) = mgr_call lib Init_lib (m\<lparr>eventMode := evMode\<rparr>)
        in if i = None then (False, m1)
           else
             case mgr_call lib (Get_device devName) m1 of
               (None, m2) \<Rightarrow> (False, m2)
             | (Some dev, m2) \<Rightarrow>
                 (let (eid, m3) = (if eidIndex < 0 then GetEidIndex lib dev m2 else (eidIndex, m2))
                  in if eid < 0 then (False, m3)
                     else
                       case Resource_Init lib (set (handle_list (mgrSeg m3))) (Some dev) (word_of_int eid) cacheable
                              jettyCount threadsMin evMode mode (res m3) of
                         (False, r) \<Rightarrow> (False, m3\<lparr>res := r\<rparr>)
                       | (True, r) \<Rightarrow>
                           (let (armed, r1) = (if evMode then RearmJfc lib r else (True, r));
                                m4 = m3\<lparr>res := r1\<rparr>
                            in if \<not> armed then (False, m4)
                               else EnsurePollThread thread_ok (m4\<lparr>stopping := False, initialized := True\<rparr>))))"

text \<open>The manager shares the local segment with the resource layer, so that clearing the resources
  does not unregister it.\<close>

definition Stop :: "urma_lib \<Rightarrow> manager \<Rightarrow> manager" where
  "Stop lib m =
     (if initialized m then
        let m1 = m\<lparr>stopping := True, pollStarted := False\<rparr>;
            m2 = m1\<lparr>res := Resource_Clear (set (handle_list (mgrSeg m1))) (res m1), initialized := False\<rparr>;
            m3 = m2\<lparr>res := give_back {} (handle_list (mgrSeg m2)) Unregister_seg (res m2),
                    mgrSeg := None, mbuf := 0, mbufLen := 0\<rparr>
        in snd (mgr_call lib Uninit_lib m3)
      else m)"

definition RegisterBuffer :: "urma_lib \<Rightarrow> u64 \<Rightarrow> u64 \<Rightarrow> manager \<Rightarrow> bool \<times> manager" where
  "RegisterBuffer lib addr len m =
     (let old = set (handle_list (mgrSeg m))
      in case RegisterSegment lib old addr len (res m) of
           (None, r) \<Rightarrow> (False, m\<lparr>res := r\<rparr>)
         | (Some h, r) \<Rightarrow>
             (True, m\<lparr>res := give_back {h} (handle_list (mgrSeg m)) Unregister_seg r,
                      mbuf := addr, mbufLen := len, mgrSeg := Some h\<rparr>))"

definition LocalSeg :: "manager \<Rightarrow> nat option" where
  "LocalSeg m = mgrSeg m"

definition SetPollCpu :: "int \<Rightarrow> manager \<Rightarrow> manager" where
  "SetPollCpu cpu m = m\<lparr>pollCpu := cpu\<rparr>"

subsection \<open>Event slots\<close>

definition RegisterWorker :: "bool \<Rightarrow> manager \<Rightarrow> u32 option \<times> manager" where
  "RegisterWorker thread_ok m =
     (let count = length (workerSlots m)
      in if count \<ge> kMaxRegisteredWorkers then (None, m)
         else
           let m1 = m\<lparr>workerSlots := workerSlots m @ [EventSlotPool_init]\<rparr>;
               m2 = (if count = 0 then snd (EnsurePollThread thread_ok m1) else m1)
           in (Some (of_nat count), m2))"

text \<open>The slots stay until the manager stops.\<close>

definition UnregisterWorker :: "u32 \<Rightarrow> manager \<Rightarrow> manager" where
  "UnregisterWorker wid m = m"

definition WorkerCount :: "manager \<Rightarrow> nat" where
  "WorkerCount m = length (workerSlots m)"

definition GetEventSlots :: "u32 \<Rightarrow> manager \<Rightarrow> event_pool option" where
  "GetEventSlots wid m =
     (if unat wid \<ge> WorkerCount m then None else Some (workerSlots m ! unat wid))"

definition set_slots :: "u32 \<Rightarrow> event_pool \<Rightarrow> manager \<Rightarrow> manager" where
  "set_slots wid p m = m\<lparr>workerSlots := (workerSlots m)[unat wid := p]\<rparr>"

text \<open>The user context (0 on failure), the token, and the new state.\<close>

definition PostEvent :: "u32 \<Rightarrow> manager \<Rightarrow> u64 \<times> u64 \<times> manager" where
  "PostEvent wid m =
     (case GetEventSlots wid m of
        None \<Rightarrow> (0, 0, m)
      | Some p \<Rightarrow>
          (case Acquire p of
             (ok, token, p1) \<Rightarrow>
               if ok then (push_bit kRidShift (ucast wid) OR token, token, set_slots wid p1 m)
               else (0, 0, set_slots wid p1 m)))"

definition ProbeEvent :: "u32 \<Rightarrow> u64 \<Rightarrow> manager \<Rightarrow> int \<times> manager" where
  "ProbeEvent wid token m =
     (case GetEventSlots wid m of
        None \<Rightarrow> (0, m)
      | Some p \<Rightarrow> (case Probe token p of (r, p1) \<Rightarrow> (r, set_slots wid p1 m)))"

definition AbortEvent :: "nat \<Rightarrow> u32 \<Rightarrow> u64 \<Rightarrow> manager \<Rightarrow> manager" where
  "AbortEvent spurious wid token m =
     (case GetEventSlots wid m of
        None \<Rightarrow> m
      | Some p \<Rightarrow> set_slots wid (snd (Abort spurious token p)) m)"

definition CompleteEvent :: "u32 \<Rightarrow> u64 \<Rightarrow> bool \<Rightarrow> manager \<Rightarrow> manager" where
  "CompleteEvent wid userCtx ok m =
     (let token = userCtx AND kRidMask
      in if drop_bit kRidShift userCtx \<noteq> ucast wid then m
         else case GetEventSlots wid m of
                None \<Rightarrow> m
              | Some p \<Rightarrow> set_slots wid (Complete token ok p) m)"

text \<open>What a batch of polled completions (user context and success) does.\<close>

definition deliver_one :: "u64 \<times> bool \<Rightarrow> manager \<Rightarrow> manager" where
  "deliver_one cr m = CompleteEvent (ucast (drop_bit kRidShift (fst cr))) (fst cr) (snd cr) m"

definition deliver :: "(u64 \<times> bool) list \<Rightarrow> manager \<Rightarrow> manager" where
  "deliver crs m = fold deliver_one crs m"

text \<open>One turn of \<^verbatim>\<open>PollThreadMain\<close>: the result of waiting for an event and whether it came from this
  completion queue (event mode only), then the result of the poll, either an error code or the
  completions. In event mode a batch is acknowledged and the queue armed again, whose status is
  ignored.\<close>

definition ack_and_rearm :: "urma_lib \<Rightarrow> nat \<Rightarrow> manager \<Rightarrow> manager" where
  "ack_and_rearm lib cnt m =
     (case rjfc (res m) of
        None \<Rightarrow> m
      | Some jfc \<Rightarrow> snd (mgr_call lib (Rearm_jfc jfc) (snd (mgr_call lib (Ack_jfc jfc cnt) m))))"

definition poll_turn :: "urma_lib \<Rightarrow> int \<Rightarrow> bool \<Rightarrow> int + (u64 \<times> bool) list \<Rightarrow> manager \<Rightarrow> manager" where
  "poll_turn lib waited same_jfc polled m =
     (if stopping m then m
      else if eventMode m \<and> (waited \<le> 0 \<or> \<not> same_jfc) then m
      else case polled of
             Inl err \<Rightarrow> m
           | Inr crs \<Rightarrow>
               deliver crs (if eventMode m \<and> crs \<noteq> [] then ack_and_rearm lib (length crs) m else m))"

subsection \<open>Lanes\<close>

definition AcquireSendLane :: "manager \<Rightarrow> nat option \<times> manager" where
  "AcquireSendLane m = (case AcquireSendJetty (res m) of (j, r) \<Rightarrow> (j, m\<lparr>res := r\<rparr>))"

definition ReleaseSendLane :: "nat option \<Rightarrow> manager \<Rightarrow> manager" where
  "ReleaseSendLane j m = m\<lparr>res := ReleaseSendJetty j (res m)\<rparr>"

subsection \<open>Handshake\<close>

record handshake_params =
  p_threads :: u32
  p_opCode :: u32
  p_valueSize :: u32
  p_sendSize :: u32
  p_dstChip :: u32
  p_transMode :: u32

record wire_info =
  w_eid :: nat
  w_uasid :: u32
  w_seg_va :: u64
  w_seg_len :: u64
  w_seg_flag :: u32
  w_seg_token_id :: u32
  w_jetty_id :: urma_jetty_id
  w_threads :: u32
  w_op_code :: u32
  w_value_size :: u32
  w_dst_chip :: u32
  w_send_size :: u32

text \<open>What the library stores behind a handle: the identity of a context and of a jetty, and the
  description of a segment.\<close>

record urma_info =
  ctx_eid :: "nat \<Rightarrow> nat"
  ctx_uasid :: "nat \<Rightarrow> u32"
  jetty_id_of :: "nat \<Rightarrow> urma_jetty_id"
  seg_of :: "nat \<Rightarrow> remote_seg"

record connection =
  peer_eid :: nat
  peer_uasid :: u32
  peer_jettyId :: u32
  peer_dstChip :: u32
  peer_threads :: u32
  peer_opCode :: u32
  peer_valueSize :: u32
  peer_sendSize :: u32
  peer_seg :: remote_seg
  targetJetty :: "nat option"
  remoteSeg :: "nat option"

definition RemoteSegVa :: "urma_info \<Rightarrow> connection \<Rightarrow> u64" where
  "RemoteSegVa info conn = (case remoteSeg conn of None \<Rightarrow> 0 | Some h \<Rightarrow> rs_va (seg_of info h))"

text \<open>\<^verbatim>\<open>SockSyncData\<close>: the number of bytes written, and the results of the reads one after the other;
  the reads may be used up before the message is complete.\<close>

datatype read_result = Bytes "8 word list" | Closed | Interrupted | Read_error

fun sock_read :: "nat \<Rightarrow> read_result list \<Rightarrow> 8 word list \<Rightarrow> (int \<times> 8 word list) option" where
  "sock_read n reads got =
     (if length got \<ge> n then Some (0, got)
      else case reads of
             [] \<Rightarrow> None
           | Bytes bs # rest \<Rightarrow> if bs = [] then Some (-1, got) else sock_read n rest (got @ bs)
           | Closed # rest \<Rightarrow> Some (-1, got)
           | Interrupted # rest \<Rightarrow> sock_read n rest got
           | Read_error # rest \<Rightarrow> Some (-1, got))"

declare sock_read.simps [simp del]

definition SockSyncData :: "nat \<Rightarrow> int \<Rightarrow> read_result list \<Rightarrow> (int \<times> 8 word list) option" where
  "SockSyncData n written reads = (if written < int n then Some (-1, []) else sock_read n reads [])"

definition local_wire :: "urma_info \<Rightarrow> handshake_params \<Rightarrow> nat \<Rightarrow> nat \<Rightarrow> manager \<Rightarrow> wire_info" where
  "local_wire info params seg ctx m =
     \<lparr>w_eid = ctx_eid info ctx, w_uasid = ctx_uasid info ctx, w_seg_va = rs_va (seg_of info seg),
      w_seg_len = rs_len (seg_of info seg), w_seg_flag = rs_flag (seg_of info seg),
      w_seg_token_id = rs_token_id (seg_of info seg),
      w_jetty_id = (case sharedRecvJetty (res m) of
                      None \<Rightarrow> \<lparr>jid_eid = 0, jid_uasid = 0, jid_id = 0\<rparr> | Some (j, q) \<Rightarrow> jetty_id_of info j),
      w_threads = p_threads params, w_op_code = p_opCode params, w_value_size = p_valueSize params,
      w_dst_chip = p_dstChip params, w_send_size = p_sendSize params\<rparr>"

definition peer_of_wire :: "wire_info \<Rightarrow> connection" where
  "peer_of_wire w =
     \<lparr>peer_eid = w_eid w, peer_uasid = w_uasid w, peer_jettyId = jid_id (w_jetty_id w), peer_dstChip = w_dst_chip w, peer_threads = w_threads w,
      peer_opCode = w_op_code w, peer_valueSize = w_value_size w, peer_sendSize = w_send_size w,
      peer_seg = \<lparr>rs_eid = w_eid w, rs_uasid = w_uasid w, rs_va = w_seg_va w, rs_len = w_seg_len w,
                  rs_flag = w_seg_flag w, rs_token_id = w_seg_token_id w\<rparr>,
      targetJetty = None, remoteSeg = None\<rparr>"

definition rtp_jetty :: "handshake_params \<Rightarrow> wire_info \<Rightarrow> rjetty" where
  "rtp_jetty params w =
     \<lparr>rj_jetty_id = w_jetty_id w, rj_trans_mode = ResolveTransMode (p_transMode params),
      rj_tp_type = TP_RTP, rj_order_type = (if p_transMode params = 3 then 1 else 0),
      rj_share_tp = (if p_transMode params = 3 then 1 else 0), rj_has_drv_ext = False\<rparr>"

definition ctp_jetty :: "handshake_params \<Rightarrow> wire_info \<Rightarrow> rjetty" where
  "ctp_jetty params w =
     \<lparr>rj_jetty_id = w_jetty_id w, rj_trans_mode = ResolveTransMode (p_transMode params),
      rj_tp_type = TP_CTP, rj_order_type = 0, rj_share_tp = 0, rj_has_drv_ext = True\<rparr>"

definition import_peer :: "urma_lib \<Rightarrow> handshake_params \<Rightarrow> bool \<Rightarrow> wire_info \<Rightarrow> resource \<Rightarrow> nat option \<times> resource" where
  "import_peer lib params preferRtp w r =
     (if preferRtp then ImportTargetJetty lib (rtp_jetty params w) r
      else case ImportTargetJetty lib (ctp_jetty params w) r of
             (Some t, r1) \<Rightarrow> (Some t, r1)
           | (None, r1) \<Rightarrow> ImportTargetJetty lib (rtp_jetty params w) r1)"

text \<open>Binding the jettys from index \<open>i\<close> on to the target jetty.\<close>

primrec bind_jettys :: "urma_lib \<Rightarrow> nat \<Rightarrow> nat \<Rightarrow> nat \<Rightarrow> resource \<Rightarrow> bool \<times> resource" where
  "bind_jettys lib t i 0 r = (True, r)"
| "bind_jettys lib t i (Suc n) r =
     (case JettyAt i r of
        None \<Rightarrow> bind_jettys lib t (i + 1) n r
      | Some j \<Rightarrow>
          (case urma lib (Bind_jetty j t) r of
             (None, r1) \<Rightarrow> (False, r1)
           | (Some x, r1) \<Rightarrow> bind_jettys lib t (i + 1) n r1))"

text \<open>\<open>sync\<close> exchanges the local description for the peer's. A connection that is given up unimports
  what it imported.\<close>

definition Exchange ::
  "urma_lib \<Rightarrow> urma_info \<Rightarrow> (wire_info \<Rightarrow> wire_info option) \<Rightarrow> handshake_params \<Rightarrow> bool \<Rightarrow> manager \<Rightarrow>
   connection option \<times> manager" where
  "Exchange lib info sync params preferRtp m =
     (case (mgrSeg m, rctx (res m)) of
        (Some seg, Some ctx) \<Rightarrow>
          (case sync (local_wire info params seg ctx m) of
             None \<Rightarrow> (None, m)
           | Some w \<Rightarrow>
               if p_sendSize params \<noteq> 0 \<and> w_send_size w \<noteq> 0 \<and> w_send_size w \<noteq> p_sendSize params
               then (None, m)
               else
                 case import_peer lib params preferRtp w (res m) of
                   (None, r1) \<Rightarrow> (None, m\<lparr>res := r1\<rparr>)
                 | (Some t, r1) \<Rightarrow>
                     (case ImportSegment lib (peer_seg (peer_of_wire w)) r1 of
                        (None, r2) \<Rightarrow> (None, m\<lparr>res := give_back {} [t] Unimport_jetty r2\<rparr>)
                      | (Some g, r2) \<Rightarrow>
                          (let (ok, r3) = (if p_transMode params = 1 \<or> p_transMode params = 3
                                           then bind_jettys lib t 0 (SendJettyCount r2) r2 else (True, r2))
                           in if ok then (Some ((peer_of_wire w)\<lparr>targetJetty := Some t, remoteSeg := Some g\<rparr>),
                                          m\<lparr>res := r3\<rparr>)
                              else (None, m\<lparr>res := give_back {} [t] Unimport_jetty
                                              (give_back {} [g] Unimport_seg r3)\<rparr>))))
      | _ \<Rightarrow> (None, m))"

definition ExchangeAsClient ::
  "urma_lib \<Rightarrow> urma_info \<Rightarrow> (wire_info \<Rightarrow> wire_info option) \<Rightarrow> handshake_params \<Rightarrow> bool \<Rightarrow> manager \<Rightarrow>
   connection option \<times> manager" where
  "ExchangeAsClient lib info sync params preferRtp m = Exchange lib info sync params preferRtp m"

definition ExchangeAsServer ::
  "urma_lib \<Rightarrow> urma_info \<Rightarrow> (wire_info \<Rightarrow> wire_info option) \<Rightarrow> handshake_params \<Rightarrow> bool \<Rightarrow> manager \<Rightarrow>
   connection option \<times> manager" where
  "ExchangeAsServer lib info sync params preferRtp m = Exchange lib info sync params preferRtp m"

subsection \<open>Posting\<close>

datatype wr_opcode = OPC_WRITE | OPC_READ

record work_request =
  wr_opcode :: wr_opcode
  wr_jetty :: nat
  wr_tjetty :: nat
  wr_src :: "nat \<times> u64"
  wr_dst :: "nat \<times> u64"
  wr_len :: u32
  wr_user_ctx :: u64
  wr_drv_ext :: bool
  wr_src_chip :: u32
  wr_dst_chip :: u32

definition BuildBondpWr ::
  "wr_opcode \<Rightarrow> nat \<Rightarrow> nat \<Rightarrow> nat \<times> u64 \<Rightarrow> nat \<times> u64 \<Rightarrow> u32 \<Rightarrow> u64 \<Rightarrow> bool \<Rightarrow> u32 \<Rightarrow> u32 \<Rightarrow> work_request" where
  "BuildBondpWr opc jetty tjetty src dst len userCtx drv srcChip dstChip =
     \<lparr>wr_opcode = opc, wr_jetty = jetty, wr_tjetty = tjetty, wr_src = src, wr_dst = dst, wr_len = len,
      wr_user_ctx = userCtx, wr_drv_ext = drv, wr_src_chip = srcChip, wr_dst_chip = dstChip\<rparr>"

text \<open>Whether the library accepts a work request is an argument.\<close>

definition PostJettyRw ::
  "(work_request \<Rightarrow> bool) \<Rightarrow> nat \<Rightarrow> nat \<Rightarrow> nat \<Rightarrow> nat \<Rightarrow> u64 \<Rightarrow> u64 \<Rightarrow> u32 \<Rightarrow> u64 \<Rightarrow> bool \<Rightarrow> u32 \<Rightarrow> u32 \<Rightarrow> bool" where
  "PostJettyRw post jetty tjetty lseg rseg laddr raddr len userCtx drv srcChip dstChip =
     (if len = 0 then False
      else post (BuildBondpWr OPC_WRITE jetty tjetty (lseg, laddr) (rseg, raddr) len userCtx drv srcChip dstChip))"

definition PostJettyRd ::
  "(work_request \<Rightarrow> bool) \<Rightarrow> nat \<Rightarrow> nat \<Rightarrow> nat \<Rightarrow> nat \<Rightarrow> u64 \<Rightarrow> u64 \<Rightarrow> u32 \<Rightarrow> u64 \<Rightarrow> bool \<Rightarrow> u32 \<Rightarrow> u32 \<Rightarrow> bool" where
  "PostJettyRd post jetty tjetty lseg rseg laddr raddr len userCtx drv srcChip dstChip =
     (if len = 0 then False
      else post (BuildBondpWr OPC_READ jetty tjetty (rseg, raddr) (lseg, laddr) len userCtx drv srcChip dstChip))"

definition PostWrite ::
  "(work_request \<Rightarrow> bool) \<Rightarrow> nat option \<Rightarrow> connection \<Rightarrow> u64 \<Rightarrow> u64 \<Rightarrow> u32 \<Rightarrow> u32 \<Rightarrow> u32 \<Rightarrow> u64 \<Rightarrow> manager \<Rightarrow> bool" where
  "PostWrite post jetty conn laddr raddr len srcChip dstChip userCtx m =
     (case (jetty, mgrSeg m, targetJetty conn, remoteSeg conn) of
        (Some j, Some ls, Some t, Some rs) \<Rightarrow>
          PostJettyRw post j t ls rs laddr raddr len userCtx
            (srcChip \<noteq> kInvalidChip \<and> dstChip \<noteq> kInvalidChip) srcChip dstChip
      | _ \<Rightarrow> False)"

definition PostRead ::
  "(work_request \<Rightarrow> bool) \<Rightarrow> nat option \<Rightarrow> connection \<Rightarrow> u64 \<Rightarrow> u64 \<Rightarrow> u32 \<Rightarrow> u32 \<Rightarrow> u32 \<Rightarrow> u64 \<Rightarrow> manager \<Rightarrow> bool" where
  "PostRead post jetty conn laddr raddr len srcChip dstChip userCtx m =
     (case (jetty, mgrSeg m, targetJetty conn, remoteSeg conn) of
        (Some j, Some ls, Some t, Some rs) \<Rightarrow>
          PostJettyRd post j t ls rs laddr raddr len userCtx
            (srcChip \<noteq> kInvalidChip \<and> dstChip \<noteq> kInvalidChip) srcChip dstChip
      | _ \<Rightarrow> False)"

section \<open>Lemmas: user contexts\<close>

lemma live_token_less: "pool_inv p \<Longrightarrow> t \<in> live_tokens p \<Longrightarrow> unat t < 2 ^ 40"
proof -
  assume "pool_inv p" "t \<in> live_tokens p"
  then obtain i where i: "i < 256" "t = slot_token p i"
    by (auto simp: live_tokens_slots)
  have "unat (generations p ! i) * 256 + 256 \<le> 2 ^ 40"
    using unat_u32_less [of "generations p ! i"] by simp
  then show "unat t < 2 ^ 40"
    using i by (simp add: slot_token_def make_token_unat)
qed

text \<open>The user context of a worker below 1024 and a token of at most 40 bits, and reading it back.\<close>

definition user_ctx :: "u32 \<Rightarrow> u64 \<Rightarrow> u64" where
  "user_ctx wid token = push_bit kRidShift (ucast wid) OR token"

lemma unat_ucast_u32 [simp]: "unat (ucast (w :: u32) :: u64) = unat w"
  using unat_u32_less [of w] by (simp add: unsigned_ucast_eq take_bit_nat_eq_self)

lemma unat_user_ctx:
  assumes "unat wid < 1024" and "unat t < 2 ^ 40"
  shows "unat (user_ctx wid t) = unat wid * 2 ^ 40 + unat t"
proof -
  have w: "unat (ucast wid :: u64) * 2 ^ 40 < 2 ^ 64"
    unfolding unat_ucast_u32 using assms(1) by simp
  have p: "unat (push_bit 40 (ucast wid) :: u64) = unat wid * 2 ^ 40"
    using unat_push_bit_u64 [OF w] unfolding unat_ucast_u32 .
  have "unat wid * 2 ^ 40 + unat t < 2 ^ 64"
    using assms by simp
  moreover have "(push_bit 40 (ucast wid) :: u64) OR t = push_bit 40 (ucast wid) + t"
    using assms(2) by (intro or_disjoint_u64) simp_all
  ultimately show ?thesis
    unfolding user_ctx_def by (simp only: unat_add_u64 p)
qed

lemma kRidMask_take_bit: "ue AND kRidMask = take_bit 40 ue"
  by (simp add: take_bit_eq_mask mask_eq_exp_minus_1)

lemma user_ctx_decode:
  assumes "unat wid < 1024" and "unat t < 2 ^ 40"
  shows "drop_bit kRidShift (user_ctx wid t) = ucast wid" and "user_ctx wid t AND kRidMask = t"
proof -
  note u = unat_user_ctx [OF assms]
  have "unat (drop_bit 40 (user_ctx wid t)) = unat (ucast wid :: u64)"
    unfolding unat_drop_bit_u64 u unat_ucast_u32 using assms(2) by simp
  then show "drop_bit kRidShift (user_ctx wid t) = ucast wid"
    by (rule unat_eqI)
  have "unat (take_bit 40 (user_ctx wid t)) = (unat wid * 2 ^ 40 + unat t) mod 2 ^ 40"
    unfolding u [symmetric]
    using unsigned_take_bit_eq [where ?'a = nat and n = 40 and w = "user_ctx wid t"]
    by (simp add: take_bit_eq_mod)
  also have "\<dots> = unat t"
    using assms(2) by simp
  finally show "user_ctx wid t AND kRidMask = t"
    unfolding kRidMask_take_bit by (rule unat_eqI)
qed

section \<open>Lemmas: event slots of the workers\<close>

definition slots_inv :: "manager \<Rightarrow> bool" where
  "slots_inv m \<longleftrightarrow> length (workerSlots m) \<le> kMaxRegisteredWorkers \<and> (\<forall>p \<in> set (workerSlots m). pool_inv p)"

abbreviation pool_of :: "u32 \<Rightarrow> manager \<Rightarrow> event_pool" where
  "pool_of wid m \<equiv> workerSlots m ! unat wid"

lemma slots_inv_pool: "slots_inv m \<Longrightarrow> unat wid < length (workerSlots m) \<Longrightarrow> pool_inv (pool_of wid m)"
  by (simp add: slots_inv_def)

lemma slots_inv_start: "slots_inv manager_start"
  by (simp add: slots_inv_def manager_start_def)

lemma set_slots_sel [simp]:
  "res (set_slots wid p m) = res m" "length (workerSlots (set_slots wid p m)) = length (workerSlots m)"
  "mgrSeg (set_slots wid p m) = mgrSeg m"
  "unat wid < length (workerSlots m) \<Longrightarrow> pool_of wid (set_slots wid p m) = p"
  by (simp_all add: set_slots_def)

lemma set_slots_other:
  "wid' \<noteq> wid \<Longrightarrow> pool_of wid' (set_slots wid p m) = pool_of wid' m"
  using unat_eqI [of wid' wid] by (cases "unat wid = unat wid'") (simp_all add: set_slots_def)

lemma slots_inv_set: "slots_inv m \<Longrightarrow> pool_inv p \<Longrightarrow> slots_inv (set_slots wid p m)"
  using set_update_subset_insert [of "workerSlots m" "unat wid" p] by (auto simp: slots_inv_def set_slots_def)

lemma GetEventSlots_Some:
  "unat wid < length (workerSlots m) \<Longrightarrow> GetEventSlots wid m = Some (pool_of wid m)"
  by (simp add: GetEventSlots_def WorkerCount_def)

lemma PostEvent_full:
  assumes "unat wid < length (workerSlots m)" and "slots_inv m" and "freeCount (pool_of wid m) = 0"
  shows "PostEvent wid m = (0, 0, m)"
  using assms by (simp add: PostEvent_def GetEventSlots_Some Acquire_empty set_slots_def)

lemma PostEvent_token:
  assumes wid: "unat wid < length (workerSlots m)" and inv: "slots_inv m" and free: "0 < freeCount (pool_of wid m)"
  obtains t p where "Acquire (pool_of wid m) = (True, t, p)"
    and "PostEvent wid m = (user_ctx wid t, t, set_slots wid p m)"
    and "pool_inv p" "t \<noteq> 0" "valid_token t" "unat t < 2 ^ 40" "user_ctx wid t \<noteq> 0" "unat wid < 1024"
proof -
  note P = slots_inv_pool [OF inv wid]
  obtain ok t p where a: "Acquire (pool_of wid m) = (ok, t, p)"
    by (cases "Acquire (pool_of wid m)") auto
  then have ok: "ok"
    using Acquire_flag(1) [OF P] free by simp
  then have a1: "Acquire (pool_of wid m) = (True, t, p)"
    using a by simp
  note T = Acquire_token [OF P a1]
  have p: "pool_inv p"
    using Acquire_inv [OF P a1] by blast
  have "t \<in> live_tokens p"
    using T(2) T(4) [OF T(2)] by (simp add: live_tokens_def)
  then have less: "unat t < 2 ^ 40"
    by (rule live_token_less [OF p])
  have w: "unat wid < 1024"
    using wid inv by (simp add: slots_inv_def)
  have "user_ctx wid t \<noteq> 0"
    using unat_user_ctx [OF w less] T(1) by (intro unat_neI) (simp add: unat_eq_0)
  then show ?thesis
    using that a1 T p less w by (simp add: PostEvent_def GetEventSlots_Some [OF wid] user_ctx_def)
qed

lemma deliver_user_ctx:
  assumes "unat wid < 1024" and "unat t < 2 ^ 40" and "unat wid < length (workerSlots m)"
  shows "deliver_one (user_ctx wid t, ok) m = set_slots wid (Complete t ok (pool_of wid m)) m"
proof -
  have "(ucast (ucast wid :: u64) :: u32) = wid"
    by (rule bit_word_eqI) (simp add: bit_simps)
  then show ?thesis
    using assms by (simp add: deliver_one_def CompleteEvent_def Let_def user_ctx_decode GetEventSlots_Some)
qed

text \<open>C6: A completion reaches the work request it belongs to. An event can be posted unless the
  worker is unknown or has 256 events outstanding, and then the user context is 0. Otherwise
  the token was not outstanding and is waiting now, and when the polling thread later sees a
  completion with the returned user context, whatever happened in between, it completes
  exactly this token of this worker.\<close>

theorem event_routing:
  assumes inv: "slots_inv m" and post: "PostEvent wid m = (ue, t, m')"
    and later: "unat wid < WorkerCount m''"
  shows "(ue = 0 \<longleftrightarrow> unat wid \<ge> WorkerCount m \<or> card (live_tokens (pool_of wid m)) = 256) \<and>
    (if ue = 0 then m' = m
     else slots_inv m' \<and> slot_view (pool_of wid m) t = Gone \<and> slot_view (pool_of wid m') t = Waiting \<and>
          deliver_one (ue, ok) m'' = set_slots wid (Complete t ok (pool_of wid m'')) m'')"
proof (cases "unat wid < length (workerSlots m)")
  case False
  then show ?thesis
    using post by (simp add: PostEvent_def GetEventSlots_def WorkerCount_def)
next
  case wid: True
  note P = slots_inv_pool [OF inv wid]
  note C = live_tokens_card [OF P]
  show ?thesis
  proof (cases "freeCount (pool_of wid m) = 0")
    case True
    then show ?thesis
      using PostEvent_full [OF wid inv] post C by simp
  next
    case False
    then have "0 < freeCount (pool_of wid m)"
      by simp
    then obtain t0 p where a: "Acquire (pool_of wid m) = (True, t0, p)"
      and eq: "PostEvent wid m = (user_ctx wid t0, t0, set_slots wid p m)"
      and t: "pool_inv p" "t0 \<noteq> 0" "valid_token t0" "unat t0 < 2 ^ 40" "user_ctx wid t0 \<noteq> 0" "unat wid < 1024"
      by (rule PostEvent_token [OF wid inv])
    have r: "ue = user_ctx wid t0" "t = t0" "m' = set_slots wid p m"
      using post unfolding eq by auto
    have "deliver_one (ue, ok) m'' = set_slots wid (Complete t ok (pool_of wid m'')) m''"
      unfolding r using later t by (intro deliver_user_ctx) (simp_all add: WorkerCount_def)
    then show ?thesis
      using Acquire_token(3,4) [OF P a] t wid False C slots_inv_set [OF inv t(1)]
      by (auto simp: r WorkerCount_def)
  qed
qed

definition one_worker :: manager where
  "one_worker = snd (RegisterWorker True manager_start)"

lemma one_worker_ok: "slots_inv one_worker" "WorkerCount one_worker = 1" "pool_of 0 one_worker = EventSlotPool_init"
  by (simp_all add: one_worker_def RegisterWorker_def manager_start_def EnsurePollThread_def Let_def
      slots_inv_def pool_inv_init WorkerCount_def)

theorem event_routing_witness:
  "\<exists>ue t m'. PostEvent 0 one_worker = (ue, t, m') \<and> ue \<noteq> 0 \<and> slot_view (pool_of 0 m') t = Waiting"
proof -
  obtain ue t m' where post: "PostEvent 0 one_worker = (ue, t, m')"
    by (cases "PostEvent 0 one_worker") auto
  have "card (live_tokens EventSlotPool_init) = 0"
    using live_tokens_card [OF pool_inv_init] by (simp add: EventSlotPool_init_def)
  then show ?thesis
    using event_routing [OF one_worker_ok(1) post, of one_worker True] one_worker_ok post by auto
qed

text \<open>What a turn of the polling thread changes: the slots, by delivering its batch, or nothing.\<close>

lemma CompleteEvent_res [simp]: "res (CompleteEvent wid ue ok m) = res m"
  by (simp add: CompleteEvent_def Let_def split: option.splits)

lemma deliver_res [simp]: "res (deliver crs m) = res m"
  by (induction crs arbitrary: m) (simp_all add: deliver_def deliver_one_def)

lemma ack_and_rearm_slots: "workerSlots (ack_and_rearm lib n m) = workerSlots m"
  by (simp add: ack_and_rearm_def mgr_call_def split: option.splits prod.splits)

lemma CompleteEvent_slots_cong:
  "workerSlots m = workerSlots m' \<Longrightarrow> workerSlots (CompleteEvent wid ue ok m) = workerSlots (CompleteEvent wid ue ok m')"
  by (simp add: CompleteEvent_def Let_def GetEventSlots_def WorkerCount_def set_slots_def)

lemma deliver_slots_cong: "workerSlots m = workerSlots m' \<Longrightarrow> workerSlots (deliver crs m) = workerSlots (deliver crs m')"
proof (induction crs arbitrary: m m')
  case (Cons c crs)
  show ?case
    using Cons.IH [OF CompleteEvent_slots_cong [OF Cons.prems]] unfolding deliver_def deliver_one_def by simp
qed (simp add: deliver_def)

lemma poll_turn_slots:
  "workerSlots (poll_turn lib waited same polled m) \<in>
     {workerSlots m} \<union> {workerSlots (deliver crs m) | crs. polled = Inr crs}"
  using deliver_slots_cong [OF ack_and_rearm_slots] by (auto simp: poll_turn_def split: sum.splits)

end
