(* ===== verification/Urma_Handshake.thy ===== *)
theory Urma_Handshake
  imports Urma_Manager
begin

text \<open>
  Lemmas on the control plane of the manager (\<open>Urma_Manager\<close>): the exchange of messages over the
  stream, the decision of the two sides of a handshake, what a failed handshake leaves behind, and
  the order in which stopping the manager gives everything back.
\<close>

section \<open>Lemmas: handshake\<close>

text \<open>Bytes that the results of reads bring, when none of them fails.\<close>

fun payload :: "read_result list \<Rightarrow> 8 word list" where
  "payload (Bytes bs # rest) = bs @ payload rest"
| "payload (r # rest) = payload rest"
| "payload [] = []"

definition reads_ok :: "read_result list \<Rightarrow> bool" where
  "reads_ok reads \<longleftrightarrow> (\<forall>r \<in> set reads. r = Interrupted \<or> (\<exists>bs. r = Bytes bs \<and> bs \<noteq> []))"

lemma sock_read_enough: "n \<le> length got \<Longrightarrow> sock_read n reads got = Some (0, got)"
  by (subst sock_read.simps) simp

lemma sock_read_step:
  "length got < n \<Longrightarrow> bs \<noteq> [] \<Longrightarrow> sock_read n (Bytes bs # rest) got = sock_read n rest (got @ bs)"
  "length got < n \<Longrightarrow> sock_read n (Interrupted # rest) got = sock_read n rest got"
  "length got < n \<Longrightarrow> sock_read n (Closed # rest) got = Some (-1, got)"
  "length got < n \<Longrightarrow> sock_read n (Read_error # rest) got = Some (-1, got)"
  by (subst sock_read.simps, simp)+

lemma reads_ok_Cons: "reads_ok (r # reads) \<longleftrightarrow> (r = Interrupted \<or> (\<exists>bs. r = Bytes bs \<and> bs \<noteq> [])) \<and> reads_ok reads"
  by (simp add: reads_ok_def)

lemma sock_read_prefix:
  assumes "reads_ok reads" and "length got + length (payload reads) < n"
  shows "sock_read n (reads @ rest) got = sock_read n rest (got @ payload reads)"
  using assms
proof (induction reads arbitrary: got)
  case (Cons r reads)
  then show ?case
    by (auto simp: reads_ok_Cons sock_read_step)
qed simp

lemma sock_read_complete:
  assumes "reads_ok reads" and "length got + length (payload reads) = n"
  shows "sock_read n (reads @ rest) got = Some (0, got @ payload reads)"
  using assms
proof (induction reads arbitrary: got)
  case Nil
  then show ?case
    by (simp add: sock_read_enough)
next
  case (Cons r reads)
  show ?case
  proof (cases "n \<le> length got")
    case True
    then have "length (payload (r # reads)) = 0"
      using Cons.prems(2) by linarith
    then show ?thesis
      using True by (simp add: sock_read_enough)
  next
    case False
    then have "length got < n"
      by simp
    then show ?thesis
      using Cons by (auto simp: reads_ok_Cons sock_read_step)
  qed
qed

text \<open>C28: The control message survives the stream. However the reads cut the peer's message into
  pieces and however often they are interrupted, the exchange returns the message; a peer
  that closes the connection or an error before the last byte makes it fail, and so does a
  short write.\<close>

theorem sock_sync_roundtrip:
  assumes "reads_ok reads" and "bad = Closed \<or> bad = Read_error"
  shows "SockSyncData (length (payload reads)) (int (length (payload reads))) (reads @ rest) = Some (0, payload reads) \<and>
    (length (payload reads) < n \<longrightarrow> SockSyncData n (int n) (reads @ bad # rest) = Some (-1, payload reads)) \<and>
    (written < int n \<longrightarrow> SockSyncData n written reads = Some (-1, []))"
proof -
  have "sock_read n (reads @ bad # rest) [] = Some (-1, payload reads)" if "length (payload reads) < n"
    using sock_read_prefix [OF assms(1), of "[]" n "bad # rest"] that assms(2)
    by (auto simp: sock_read_step)
  then show ?thesis
    using sock_read_complete [OF assms(1), of "[]"] by (simp add: SockSyncData_def)
qed

theorem sock_sync_roundtrip_witness:
  "SockSyncData 3 3 [Bytes [1], Interrupted, Bytes [2, 3]] = Some (0, [1, 2, 3])"
  using sock_sync_roundtrip [of "[Bytes [1], Interrupted, Bytes [2, 3]]" Closed "[]" 4 0]
  by (simp add: reads_ok_def numeral_3_eq_3)

text \<open>The local description names the sizes of this side and the segment behind the handle; it
  does not depend on the library's answers.\<close>

definition sizes_agree :: "handshake_params \<Rightarrow> handshake_params \<Rightarrow> bool" where
  "sizes_agree a b \<longleftrightarrow> p_sendSize a = 0 \<or> p_sendSize b = 0 \<or> p_sendSize a = p_sendSize b"

lemma sizes_agree_sym: "sizes_agree a b \<longleftrightarrow> sizes_agree b a"
  by (auto simp: sizes_agree_def)

lemma urma_never_fails: "never_fails lib \<Longrightarrow> \<exists>h. urma lib c r = (Some h, r\<lparr>trace := trace r @ [c]\<rparr>)"
  by (auto simp: urma_def never_fails_def)

lemma import_peer_ok:
  assumes "never_fails lib" and "rctx r = Some ctx"
  obtains t c where "import_peer lib params rtp w r = (Some t, r\<lparr>trace := trace r @ [c]\<rparr>)"
proof -
  obtain t1 where "ImportTargetJetty lib (rtp_jetty params w) r =
      (Some t1, r\<lparr>trace := trace r @ [Import_jetty ctx (rtp_jetty params w) (rtoken r)]\<rparr>)"
    using urma_never_fails [OF assms(1)] assms(2) by (auto simp: ImportTargetJetty_def)
  moreover obtain t2 where "ImportTargetJetty lib (ctp_jetty params w) r =
      (Some t2, r\<lparr>trace := trace r @ [Import_jetty ctx (ctp_jetty params w) (rtoken r)]\<rparr>)"
    using urma_never_fails [OF assms(1)] assms(2) by (auto simp: ImportTargetJetty_def)
  ultimately show ?thesis
    using that by (cases rtp) (auto simp: import_peer_def)
qed

lemma bind_jettys_ok: "never_fails lib \<Longrightarrow> \<exists>r'. bind_jettys lib t i n r = (True, r')"
proof (induction n arbitrary: i r)
  case (Suc n)
  show ?case
  proof (cases "JettyAt i r")
    case (Some j)
    then show ?thesis
      using urma_never_fails [OF Suc.prems, of "Bind_jetty j t" r] Suc.IH [OF Suc.prems] by auto
  qed (use Suc in simp)
qed simp

lemma Exchange_ok:
  assumes lib: "never_fails lib" and seg: "mgrSeg m = Some seg" and ctx: "rctx (res m) = Some ctx"
  shows "\<exists>t g m'. Exchange lib info (\<lambda>_. Some w) params rtp m =
    (if p_sendSize params = 0 \<or> w_send_size w = 0 \<or> w_send_size w = p_sendSize params
     then (Some ((peer_of_wire w)\<lparr>targetJetty := Some t, remoteSeg := Some g\<rparr>), m') else (None, m)) \<and>
    (\<exists>tr tok ca. answer lib tr (Import_seg ctx (peer_seg (peer_of_wire w)) tok ca) = Some g)"
proof -
  obtain t c where imp: "import_peer lib params rtp w (res m) = (Some t, (res m)\<lparr>trace := trace (res m) @ [c]\<rparr>)"
    by (rule import_peer_ok [OF lib ctx])
  define r1 where "r1 = (res m)\<lparr>trace := trace (res m) @ [c]\<rparr>"
  have imp: "import_peer lib params rtp w (res m) = (Some t, r1)"
    using imp by (simp add: r1_def)
  have "rctx r1 = Some ctx"
    by (simp add: r1_def ctx)
  define ci where "ci = Import_seg ctx (peer_seg (peer_of_wire w)) (rtoken r1) (rcacheable r1)"
  obtain g r2 where g: "ImportSegment lib (peer_seg (peer_of_wire w)) r1 = (Some g, r2)"
    and answer: "answer lib (trace r1) ci = Some g"
    using urma_never_fails [OF lib, of ci r1] \<open>rctx r1 = Some ctx\<close>
    by (auto simp: ImportSegment_def urma_def ci_def)
  obtain r3 where b: "bind_jettys lib t 0 (SendJettyCount r2) r2 = (True, r3)"
    using bind_jettys_ok [OF lib] by blast
  have "Exchange lib info (\<lambda>_. Some w) params rtp m =
    (if p_sendSize params = 0 \<or> w_send_size w = 0 \<or> w_send_size w = p_sendSize params
     then (Some ((peer_of_wire w)\<lparr>targetJetty := Some t, remoteSeg := Some g\<rparr>),
           m\<lparr>res := if p_transMode params = 1 \<or> p_transMode params = 3 then r3 else r2\<rparr>) else (None, m))"
    by (auto simp: Exchange_def seg ctx imp g b Let_def)
  then show ?thesis
    using answer unfolding ci_def by blast
qed

text \<open>What the code relies on of the library: the segment that importing returns starts at the address it
  was given.\<close>

definition import_keeps_va :: "urma_lib \<Rightarrow> urma_info \<Rightarrow> bool" where
  "import_keeps_va lib info \<longleftrightarrow>
     (\<forall>tr ctx seg tok ca h. answer lib tr (Import_seg ctx seg tok ca) = Some h \<longrightarrow> rs_va (seg_of info h) = rs_va seg)"

text \<open>C17: Both ends of a handshake decide alike. When each side has a registered buffer and gets the
  other side's description, no call of either side's library fails, and importing a segment
  keeps its address, the client accepts the connection exactly when the server does, namely
  when the send sizes are equal or one side leaves its size open; and the address from which
  the client then computes the targets of its requests is that of the server's registered
  segment.\<close>

theorem handshake_agreement:
  fixes info info' :: urma_info and params params' :: handshake_params
  assumes lib: "never_fails lib" "never_fails lib'" and va: "import_keeps_va lib info"
    and c: "mgrSeg m = Some seg" "rctx (res m) = Some ctx"
    and s: "mgrSeg m' = Some seg'" "rctx (res m') = Some ctx'"
  defines "w \<equiv> local_wire info params seg ctx m" and "w' \<equiv> local_wire info' params' seg' ctx' m'"
  shows "(fst (ExchangeAsClient lib info (\<lambda>_. Some w') params rtp m) \<noteq> None \<longleftrightarrow> sizes_agree params params') \<and>
    (fst (ExchangeAsServer lib' info' (\<lambda>_. Some w) params' rtp' m') \<noteq> None \<longleftrightarrow> sizes_agree params params') \<and>
    (\<forall>conn. fst (ExchangeAsClient lib info (\<lambda>_. Some w') params rtp m) = Some conn \<longrightarrow>
       RemoteSegVa info conn = rs_va (seg_of info' seg') \<and>
       rs_va (peer_seg conn) = rs_va (seg_of info' seg') \<and> rs_len (peer_seg conn) = rs_len (seg_of info' seg') \<and>
       peer_sendSize conn = p_sendSize params' \<and> targetJetty conn \<noteq> None \<and> remoteSeg conn \<noteq> None)"
proof -
  have w: "w_send_size w = p_sendSize params" "w_send_size w' = p_sendSize params'"
    "rs_va (peer_seg (peer_of_wire w')) = rs_va (seg_of info' seg')"
    "rs_len (peer_seg (peer_of_wire w')) = rs_len (seg_of info' seg')"
    by (simp_all add: w_def w'_def local_wire_def peer_of_wire_def)
  obtain t g m1 where "Exchange lib info (\<lambda>_. Some w') params rtp m =
    (if p_sendSize params = 0 \<or> w_send_size w' = 0 \<or> w_send_size w' = p_sendSize params
     then (Some ((peer_of_wire w')\<lparr>targetJetty := Some t, remoteSeg := Some g\<rparr>), m1) else (None, m))"
    and "\<exists>tr tok ca. answer lib tr (Import_seg ctx (peer_seg (peer_of_wire w')) tok ca) = Some g"
    using Exchange_ok [OF lib(1) c] by blast
  moreover from this(2) have "rs_va (seg_of info g) = rs_va (seg_of info' seg')"
    using va w(3) unfolding import_keeps_va_def by metis
  moreover obtain t' g' m2 where "Exchange lib' info' (\<lambda>_. Some w) params' rtp' m' =
    (if p_sendSize params' = 0 \<or> w_send_size w = 0 \<or> w_send_size w = p_sendSize params'
     then (Some ((peer_of_wire w)\<lparr>targetJetty := Some t', remoteSeg := Some g'\<rparr>), m2) else (None, m'))"
    using Exchange_ok [OF lib(2) s] by blast
  ultimately show ?thesis
    using w(3,4)
    by (auto simp: ExchangeAsClient_def ExchangeAsServer_def w(1,2) sizes_agree_def RemoteSegVa_def peer_of_wire_def)
qed

definition ready_manager :: manager where
  "ready_manager = manager_start\<lparr>mgrSeg := Some 7, res := resource_start\<lparr>rctx := Some 3\<rparr>\<rparr>"

definition example_info :: urma_info where
  "example_info = \<lparr>ctx_eid = (\<lambda>_. 0), ctx_uasid = (\<lambda>_. 0), jetty_id_of = (\<lambda>_. \<lparr>jid_eid = 0, jid_uasid = 0, jid_id = 0\<rparr>),
    seg_of = (\<lambda>h. \<lparr>rs_eid = 0, rs_uasid = 0, rs_va = of_nat h, rs_len = 8192, rs_flag = 0, rs_token_id = 0\<rparr>)\<rparr>"

text \<open>A library whose handle for an imported segment is the address in its lower 64 bits.\<close>

definition addressing_lib :: urma_lib where
  "addressing_lib =
     \<lparr>answer = (\<lambda>tr c. Some (case c of Import_seg ctx seg tok ca \<Rightarrow> length tr * 2 ^ 64 + unat (rs_va seg) | _ \<Rightarrow> length tr)),
      max_jfc_depth = 1024, max_write_size = 0\<rparr>"

lemma addressing_lib_ok: "never_fails addressing_lib" "import_keeps_va addressing_lib example_info"
proof -
  have *: "(18446744073709551616 :: u64) = 0"
    by transfer simp
  have "(of_nat (n * 2 ^ 64 + unat v) :: u64) = v" for n v
    by (simp, simp only: * mult_zero_right)
  then show "never_fails addressing_lib" "import_keeps_va addressing_lib example_info"
    by (simp_all add: never_fails_def import_keeps_va_def addressing_lib_def example_info_def)
qed

definition example_params :: handshake_params where
  "example_params = \<lparr>p_threads = 1, p_opCode = 0, p_valueSize = 8192, p_sendSize = 8192, p_dstChip = 255, p_transMode = 0\<rparr>"

theorem handshake_agreement_witness:
  "\<exists>conn. fst (ExchangeAsClient addressing_lib example_info
     (\<lambda>_. Some (local_wire example_info example_params 7 3 ready_manager)) example_params False ready_manager) = Some conn \<and>
     RemoteSegVa example_info conn = 7"
  using handshake_agreement [OF addressing_lib_ok(1) addressing_lib_ok(1) addressing_lib_ok(2),
      of ready_manager 7 3 ready_manager 7 3,
      where params = example_params and info' = example_info and params' = example_params
        and rtp = False and rtp' = False]
  by (auto simp: ready_manager_def sizes_agree_def example_info_def)

text \<open>A handle that a list of calls imported is given up again by a later call of the list.\<close>

fun unimport :: "urma_call \<Rightarrow> nat \<Rightarrow> urma_call option" where
  "unimport (Import_jetty c rj tok) h = Some (Unimport_jetty h)"
| "unimport (Import_seg c seg tok ca) h = Some (Unimport_seg h)"
| "unimport _ h = None"

definition imports_undone :: "urma_lib \<Rightarrow> urma_call list \<Rightarrow> urma_call list \<Rightarrow> bool" where
  "imports_undone lib before cs \<longleftrightarrow>
     (\<forall>pre c post h u. cs = pre @ c # post \<longrightarrow> answer lib (before @ pre) c = Some h \<longrightarrow>
        unimport c h = Some u \<longrightarrow> u \<in> set post)"

lemma imports_undone_Nil [simp]: "imports_undone lib before []"
  by (simp add: imports_undone_def)

lemma imports_undone_Cons:
  "imports_undone lib before (c # cs) \<longleftrightarrow>
     (\<forall>h u. answer lib before c = Some h \<longrightarrow> unimport c h = Some u \<longrightarrow> u \<in> set cs) \<and>
     imports_undone lib (before @ [c]) cs"
  by (fastforce simp: imports_undone_def Cons_eq_append_conv)

lemma imports_undone_binds:
  assumes "\<forall>c \<in> set bs. \<forall>h. unimport c h = None"
  shows "imports_undone lib before (bs @ cs) \<longleftrightarrow> imports_undone lib (before @ bs) cs"
  using assms by (induction bs arbitrary: before) (auto simp: imports_undone_Cons)

lemma bind_jettys_trace:
  "bind_jettys lib t i n r = (ok, r') \<Longrightarrow>
     \<exists>bs. r' = r\<lparr>trace := trace r @ bs\<rparr> \<and> (\<forall>c \<in> set bs. \<forall>h. unimport c h = None)"
proof (induction n arbitrary: i r)
  case (Suc n)
  show ?case
  proof (cases "JettyAt i r")
    case None
    then show ?thesis
      using Suc by simp
  next
    case (Some j)
    define r1 where "r1 = r\<lparr>trace := trace r @ [Bind_jetty j t]\<rparr>"
    have u: "urma lib (Bind_jetty j t) r = (answer lib (trace r) (Bind_jetty j t), r1)"
      by (simp add: urma_def r1_def)
    show ?thesis
    proof (cases "answer lib (trace r) (Bind_jetty j t)")
      case None
      then show ?thesis
        using Suc.prems Some u by (auto simp: r1_def)
    next
      case (Some x)
      then have "bind_jettys lib t (i + 1) n r1 = (ok, r')"
        using Suc.prems \<open>JettyAt i r = Some j\<close> u by simp
      then obtain bs where "r' = r1\<lparr>trace := trace r1 @ bs\<rparr>" "\<forall>c \<in> set bs. \<forall>h. unimport c h = None"
        using Suc.IH by blast
      then show ?thesis
        by (intro exI [of _ "Bind_jetty j t # bs"]) (simp add: r1_def)
    qed
  qed
qed (simp add: exI [of _ "[]"])

lemma ImportTargetJetty_eq:
  "rctx r = Some ctx \<Longrightarrow> ImportTargetJetty lib rj r =
     (answer lib (trace r) (Import_jetty ctx rj (rtoken r)), r\<lparr>trace := trace r @ [Import_jetty ctx rj (rtoken r)]\<rparr>)"
  by (simp add: ImportTargetJetty_def urma_def)

lemma import_peer_trace:
  assumes "rctx r = Some ctx" and "import_peer lib params rtp w r = (o1, r')"
  obtains imps where "r' = r\<lparr>trace := trace r @ imps\<rparr>"
    and "\<And>cs. (\<forall>t. o1 = Some t \<longrightarrow> Unimport_jetty t \<in> set cs) \<Longrightarrow> imports_undone lib (trace r @ imps) cs \<Longrightarrow>
           imports_undone lib (trace r) (imps @ cs)"
proof -
  define c1 where "c1 = Import_jetty ctx (ctp_jetty params w) (rtoken r)"
  define c2 where "c2 = Import_jetty ctx (rtp_jetty params w) (rtoken r)"
  have u: "unimport c1 h = Some (Unimport_jetty h)" "unimport c2 h = Some (Unimport_jetty h)" for h
    by (simp_all add: c1_def c2_def)
  note eqs = import_peer_def ImportTargetJetty_eq [OF assms(1)] c1_def [symmetric] c2_def [symmetric]
  consider (rtp) "rtp" | (ctp) h where "\<not> rtp" "answer lib (trace r) c1 = Some h"
    | (fallback) "\<not> rtp" "answer lib (trace r) c1 = None"
    by (cases rtp; cases "answer lib (trace r) c1") auto
  then show ?thesis
  proof cases
    case rtp
    then have "o1 = answer lib (trace r) c2" "r' = r\<lparr>trace := trace r @ [c2]\<rparr>"
      using assms(2) by (simp_all add: eqs)
    then show ?thesis
      using that [of "[c2]"] u by (simp add: imports_undone_Cons)
  next
    case ctp
    then have "o1 = Some h" "r' = r\<lparr>trace := trace r @ [c1]\<rparr>"
      using assms(2) by (simp_all add: eqs)
    then show ?thesis
      using that [of "[c1]"] u ctp by (simp add: imports_undone_Cons)
  next
    case fallback
    have "ImportTargetJetty lib (rtp_jetty params w) (r\<lparr>trace := trace r @ [c1]\<rparr>) =
        (answer lib (trace r @ [c1]) c2, r\<lparr>trace := trace r @ [c1, c2]\<rparr>)"
      using assms(1) by (simp add: ImportTargetJetty_def urma_def c2_def)
    then have "o1 = answer lib (trace r @ [c1]) c2" "r' = r\<lparr>trace := trace r @ [c1, c2]\<rparr>"
      using assms(2) fallback by (simp_all add: eqs)
    then show ?thesis
      using that [of "[c1, c2]"] u fallback by (simp add: imports_undone_Cons)
  qed
qed

text \<open>The peer's description, when the exchange gets as far as importing it, and the rest of the
  exchange from there.\<close>

definition reaches_import ::
  "urma_info \<Rightarrow> (wire_info \<Rightarrow> wire_info option) \<Rightarrow> handshake_params \<Rightarrow> manager \<Rightarrow> (nat \<times> wire_info) option" where
  "reaches_import info sync params m =
     (case (mgrSeg m, rctx (res m)) of
        (Some seg, Some ctx) \<Rightarrow>
          (case sync (local_wire info params seg ctx m) of
             None \<Rightarrow> None
           | Some w \<Rightarrow>
               if p_sendSize params \<noteq> 0 \<and> w_send_size w \<noteq> 0 \<and> w_send_size w \<noteq> p_sendSize params
               then None else Some (ctx, w))
      | _ \<Rightarrow> None)"

definition import_and_bind ::
  "urma_lib \<Rightarrow> handshake_params \<Rightarrow> bool \<Rightarrow> wire_info \<Rightarrow> manager \<Rightarrow> connection option \<times> manager" where
  "import_and_bind lib params rtp w m =
     (case import_peer lib params rtp w (res m) of
        (None, r1) \<Rightarrow> (None, m\<lparr>res := r1\<rparr>)
      | (Some t, r1) \<Rightarrow>
          (case ImportSegment lib (peer_seg (peer_of_wire w)) r1 of
             (None, r2) \<Rightarrow> (None, m\<lparr>res := give_back {} [t] Unimport_jetty r2\<rparr>)
           | (Some g, r2) \<Rightarrow>
               (let (ok, r3) = (if p_transMode params = 1 \<or> p_transMode params = 3
                                then bind_jettys lib t 0 (SendJettyCount r2) r2 else (True, r2))
                in if ok then (Some ((peer_of_wire w)\<lparr>targetJetty := Some t, remoteSeg := Some g\<rparr>), m\<lparr>res := r3\<rparr>)
                   else (None, m\<lparr>res := give_back {} [t] Unimport_jetty (give_back {} [g] Unimport_seg r3)\<rparr>))))"

lemma Exchange_split:
  "Exchange lib info sync params rtp m =
     (case reaches_import info sync params m of
        None \<Rightarrow> (None, m) | Some (ctx, w) \<Rightarrow> import_and_bind lib params rtp w m)"
  unfolding Exchange_def reaches_import_def import_and_bind_def
  by (cases "mgrSeg m"; cases "rctx (res m)") (simp_all split: option.split)

lemma Exchange_early: "reaches_import info sync params m = None \<Longrightarrow> Exchange lib info sync params rtp m = (None, m)"
  by (simp add: Exchange_split)

lemma Exchange_late:
  assumes "reaches_import info sync params m = Some (ctx, w)"
  shows "rctx (res m) = Some ctx" and "Exchange lib info sync params rtp m = import_and_bind lib params rtp w m"
  using assms by (auto simp: Exchange_split reaches_import_def split: option.splits if_splits)

text \<open>C18: A failed handshake leaves nothing imported. On every path on which the exchange fails (no
  buffer, a broken connection, different send sizes, an import or a binding that the library
  refuses), the resources are those from before and every handle imported on the way is
  given fallback by a later call.\<close>

theorem exchange_failure_clean:
  assumes "Exchange lib info sync params rtp m = (None, m')"
  shows "\<exists>cs. m' = m\<lparr>res := (res m)\<lparr>trace := trace (res m) @ cs\<rparr>\<rparr> \<and> imports_undone lib (trace (res m)) cs"
proof -
  have unchanged: "?thesis" if "m' = m"
    using that by (intro exI [of _ "[]"]) simp
  show ?thesis
  proof (cases "reaches_import info sync params m")
    case None
    then show ?thesis
      using assms unchanged by (simp add: Exchange_early)
  next
    case (Some y)
    obtain ctx w where y: "y = (ctx, w)"
      by (cases y)
    note pre = Exchange_late(1) [OF Some [unfolded y]] Exchange_late(2) [OF Some [unfolded y], of lib rtp]
    obtain o1 r1 where imp: "import_peer lib params rtp w (res m) = (o1, r1)"
      by (cases "import_peer lib params rtp w (res m)") auto
    obtain imps where imps: "r1 = (res m)\<lparr>trace := trace (res m) @ imps\<rparr>"
      "\<And>cs. (\<forall>t. o1 = Some t \<longrightarrow> Unimport_jetty t \<in> set cs) \<Longrightarrow> imports_undone lib (trace (res m) @ imps) cs \<Longrightarrow>
         imports_undone lib (trace (res m)) (imps @ cs)"
      using import_peer_trace [OF pre(1) imp] by blast
    show ?thesis
    proof (cases o1)
      case None
      then have "m' = m\<lparr>res := r1\<rparr>"
        using assms pre(2) imp by (simp add: import_and_bind_def)
      then show ?thesis
        using imps(1) imps(2) [of "[]"] None by (intro exI [of _ "imps"]) simp
    next
      case (Some t)
      define c where "c = Import_seg ctx (peer_seg (peer_of_wire w)) (rtoken r1) (rcacheable r1)"
      define r2 where "r2 = r1\<lparr>trace := trace r1 @ [c]\<rparr>"
      have seg: "ImportSegment lib (peer_seg (peer_of_wire w)) r1 = (answer lib (trace r1) c, r2)"
        using pre(1) imps(1) by (simp add: ImportSegment_def urma_def c_def r2_def)
      show ?thesis
      proof (cases "answer lib (trace r1) c")
        case None
        then have "m' = m\<lparr>res := give_back {} [t] Unimport_jetty r2\<rparr>"
          using assms pre(2) imp Some seg by (simp add: import_and_bind_def)
        then show ?thesis
          using imps(1) imps(2) [of "[c, Unimport_jetty t]"] None Some
          by (intro exI [of _ "imps @ [c, Unimport_jetty t]"]) (simp add: r2_def give_back_def imports_undone_Cons)
      next
        case g: (Some g)
        obtain ok r3 where b: "bind_jettys lib t 0 (SendJettyCount r2) r2 = (ok, r3)"
          by (cases "bind_jettys lib t 0 (SendJettyCount r2) r2") auto
        then obtain bs where bs: "r3 = r2\<lparr>trace := trace r2 @ bs\<rparr>" "\<forall>c \<in> set bs. \<forall>h. unimport c h = None"
          using bind_jettys_trace by blast
        have "m' = m\<lparr>res := give_back {} [t] Unimport_jetty (give_back {} [g] Unimport_seg r3)\<rparr>"
          using assms pre(2) imp Some seg g b by (auto simp: import_and_bind_def split: if_splits)
        moreover have "imports_undone lib (trace (res m) @ imps) (c # bs @ [Unimport_seg g, Unimport_jetty t])"
          using g imps(1) bs(2) by (simp add: imports_undone_Cons imports_undone_binds c_def)
        ultimately show ?thesis
          using imps(1) imps(2) [of "c # bs @ [Unimport_seg g, Unimport_jetty t]"] Some bs(1)
          by (intro exI [of _ "imps @ c # bs @ [Unimport_seg g, Unimport_jetty t]"]) (simp add: r2_def give_back_def)
      qed
    qed
  qed
qed

text \<open>A library that refuses to import segments.\<close>

definition no_segments_lib :: urma_lib where
  "no_segments_lib = counting_lib\<lparr>answer := (\<lambda>tr c. case c of Import_seg x seg tok ca \<Rightarrow> None | _ \<Rightarrow> Some (length tr))\<rparr>"

definition open_params :: handshake_params where
  "open_params = \<lparr>p_threads = 1, p_opCode = 0, p_valueSize = 8192, p_sendSize = 0, p_dstChip = 255, p_transMode = 0\<rparr>"

lemma refused_exchange:
  "reaches_import info (\<lambda>w. Some w) open_params ready_manager = Some (3, local_wire info open_params 7 3 ready_manager)"
  by (simp add: reaches_import_def ready_manager_def open_params_def)

lemma refused_import: "fst (import_and_bind no_segments_lib open_params True w ready_manager) = None"
  by (simp add: import_and_bind_def import_peer_def ImportTargetJetty_def ImportSegment_def urma_def no_segments_lib_def
      ready_manager_def)

theorem exchange_failure_clean_witness:
  "\<exists>m' cs. Exchange no_segments_lib example_info (\<lambda>w. Some w) open_params True ready_manager = (None, m') \<and>
     trace (res m') = cs \<and> imports_undone no_segments_lib [] cs"
proof -
  obtain m' where m': "Exchange no_segments_lib example_info (\<lambda>w. Some w) open_params True ready_manager = (None, m')"
    using Exchange_late(2) [OF refused_exchange] refused_import by (metis prod.collapse)
  then show ?thesis
    using exchange_failure_clean [OF m'] by (auto simp: ready_manager_def resource_start_def)
qed

section \<open>Lemmas: stopping\<close>

text \<open>The handles that the resource layer owns beside the segment.\<close>

definition other_handles :: "resource \<Rightarrow> nat set" where
  "other_handles r =
     set (jettys (sendJettyPool r) @ handle_list (map_option fst (sharedRecvJetty r)) @
          handle_list (map_option snd (sharedRecvJetty r)) @ handle_list (sharedJettyJfr r) @
          handle_list (rjfc r) @ handle_list (rjfce r) @ handle_list (rctx r))"

lemma Resource_Clear_kept:
  assumes "localSeg r = Some h" and "h \<notin> other_handles r"
  shows "trace (Resource_Clear {h} r) = trace r @ clear_calls (r\<lparr>localSeg := None\<rparr>)"
proof -
  have k: "filter (\<lambda>x. x \<noteq> h) hs = hs" if "h \<notin> set hs" for hs
    using that by (induction hs) auto
  show ?thesis
    using assms
    by (simp add: Resource_Clear_def Let_def clear_calls_def other_handles_def give_back_def k)
qed

text \<open>C24: Stopping the manager gives everything back before the library is left: all handles of the
  resource layer in the order of their dependencies, then the registered segment, and last of
  all the library itself. The segment, which the manager shares with the resource layer, is
  therefore unregistered only after the context it was registered in has been deleted.\<close>

theorem stop_order:
  assumes "initialized m" and "mgrSeg m = Some h" and "localSeg (res m) = Some h" and "h \<notin> other_handles (res m)"
  shows "trace (res (Stop lib m)) =
      trace (res m) @ clear_calls ((res m)\<lparr>localSeg := None\<rparr>) @ [Unregister_seg h, Uninit_lib] \<and>
    sorted (map delete_rank (clear_calls ((res m)\<lparr>localSeg := None\<rparr>))) \<and>
    (\<forall>ctx. rctx (res m) = Some ctx \<longrightarrow> last (clear_calls ((res m)\<lparr>localSeg := None\<rparr>)) = Delete_context ctx) \<and>
    \<not> initialized (Stop lib m) \<and> Stop lib (Stop lib m) = Stop lib m"
proof -
  have "trace (res (Stop lib m)) =
      trace (res m) @ clear_calls ((res m)\<lparr>localSeg := None\<rparr>) @ [Unregister_seg h, Uninit_lib]"
    using assms Resource_Clear_kept [OF assms(3,4)]
    by (simp add: Stop_def Let_def mgr_call_def urma_def)
  moreover have "\<not> initialized (Stop lib m)"
    using assms(1) by (simp add: Stop_def Let_def mgr_call_def urma_def)
  moreover have "Stop lib (Stop lib m) = Stop lib m"
    using calculation(2) by (simp add: Stop_def [of lib "Stop lib m"])
  moreover have "last (clear_calls ((res m)\<lparr>localSeg := None\<rparr>)) = Delete_context ctx" if "rctx (res m) = Some ctx" for ctx
    using that by (simp add: clear_calls_def)
  ultimately show ?thesis
    using clear_calls_sorted by blast
qed

definition running_manager :: manager where
  "running_manager = ready_manager\<lparr>initialized := True, res := (res ready_manager)\<lparr>localSeg := Some 7\<rparr>\<rparr>"

theorem stop_order_witness:
  "trace (res (Stop counting_lib running_manager)) = [Delete_context 3, Unregister_seg 7, Uninit_lib]"
  using stop_order [of running_manager 7 counting_lib]
  by (simp add: running_manager_def ready_manager_def resource_start_def manager_start_def other_handles_def
      clear_calls_def SendJettyPool_init_def)

end
