(* ===== verification/Worker_World.thy ===== *)
theory Worker_World
  imports Urma_Manager "HOL-Library.Multiset"
begin

text \<open>
  One benchmark thread among the others. What a thread shares is the manager; between any two of
  its own steps the polling thread delivers completions and other threads take and return send
  lanes. This environment is an argument: for every point in the run it says what the clock
  shows, which completions were delivered and which lane operations of other threads took place
  just before, whether the library accepts a work request, how often a compare-and-exchange fails
  spuriously, and what the shared flags are. Other threads are the same program and release only
  lanes they hold. The event slots of the other workers are not touched by this thread and its
  own only by itself and by the polling thread, so that their operations are left out.

  \<^verbatim>\<open>UrmaManager::WaitEvent\<close> is here because it interleaves with the environment; a wait that does
  not return is \<^term>\<open>None\<close>.
\<close>

section \<open>The environment\<close>

datatype other_lane_op = Other_acquire | Other_release nat

record env =
  clock :: "nat \<Rightarrow> u64"
  polled :: "nat \<Rightarrow> (u64 \<times> bool) list"
  lane_acts :: "nat \<Rightarrow> other_lane_op list"
  accepts :: "nat \<Rightarrow> work_request \<Rightarrow> bool"
  spurious :: "nat \<Rightarrow> nat"
  stop_flag :: "nat \<Rightarrow> bool"
  fatal_flag :: "nat \<Rightarrow> bool"

text \<open>An accepted work request: operation, jetty, local and remote address, length, user context.\<close>

record posting =
  post_op :: wr_opcode
  post_jetty :: "nat option"
  post_local :: u64
  post_remote :: u64
  post_len :: u32
  post_ctx :: u64

record shared =
  mgr :: manager
  others :: "nat list"
  ticks :: nat
  posted :: "posting list"

abbreviation lanes :: "shared \<Rightarrow> send_pool" where
  "lanes s \<equiv> sendJettyPool (res (mgr s))"

fun other_act :: "other_lane_op \<Rightarrow> shared \<Rightarrow> shared" where
  "other_act Other_acquire s =
     (case AcquireSendLane (mgr s) of
        (None, m) \<Rightarrow> s\<lparr>mgr := m\<rparr>
      | (Some j, m) \<Rightarrow> s\<lparr>mgr := m, others := j # others s\<rparr>)"
| "other_act (Other_release j) s =
     (if j \<in> set (others s) then s\<lparr>mgr := ReleaseSendLane (Some j) (mgr s), others := remove1 j (others s)\<rparr> else s)"

definition turn :: "env \<Rightarrow> shared \<Rightarrow> shared" where
  "turn e s =
     (fold other_act (lane_acts e (ticks s)) (s\<lparr>mgr := deliver (polled e (ticks s)) (mgr s)\<rparr>))\<lparr>ticks := ticks s + 1\<rparr>"

text \<open>A call of the manager, an update of it, and a reading of the clock.\<close>

definition call :: "env \<Rightarrow> (manager \<Rightarrow> 'a \<times> manager) \<Rightarrow> shared \<Rightarrow> 'a \<times> shared" where
  "call e f s = (let s1 = turn e s in case f (mgr s1) of (a, m) \<Rightarrow> (a, s1\<lparr>mgr := m\<rparr>))"

definition upd :: "env \<Rightarrow> (manager \<Rightarrow> manager) \<Rightarrow> shared \<Rightarrow> shared" where
  "upd e f s = (let s1 = turn e s in s1\<lparr>mgr := f (mgr s1)\<rparr>)"

definition now_ns :: "env \<Rightarrow> shared \<Rightarrow> u64 \<times> shared" where
  "now_ns e s = (clock e (ticks s), turn e s)"

section \<open>The code\<close>

text \<open>The manager's operations as a thread sees them.\<close>

definition acquire_lane :: "env \<Rightarrow> shared \<Rightarrow> nat option \<times> shared" where
  "acquire_lane e = call e AcquireSendLane"

definition release_lane :: "env \<Rightarrow> nat option \<Rightarrow> shared \<Rightarrow> shared" where
  "release_lane e j = upd e (ReleaseSendLane j)"

definition post_event :: "env \<Rightarrow> u32 \<Rightarrow> shared \<Rightarrow> (u64 \<times> u64) \<times> shared" where
  "post_event e wid = call e (\<lambda>m. case PostEvent wid m of (ue, t, m') \<Rightarrow> ((ue, t), m'))"

definition probe_event :: "env \<Rightarrow> u32 \<Rightarrow> u64 \<Rightarrow> shared \<Rightarrow> int \<times> shared" where
  "probe_event e wid token = call e (ProbeEvent wid token)"

definition abort_event :: "env \<Rightarrow> u32 \<Rightarrow> u64 \<Rightarrow> shared \<Rightarrow> shared" where
  "abort_event e wid token s = upd e (AbortEvent (spurious e (ticks s)) wid token) s"

definition post_wr ::
  "env \<Rightarrow> wr_opcode \<Rightarrow> nat option \<Rightarrow> connection \<Rightarrow> u64 \<Rightarrow> u64 \<Rightarrow> u32 \<Rightarrow> u32 \<Rightarrow> u32 \<Rightarrow> u64 \<Rightarrow> shared \<Rightarrow> bool \<times> shared" where
  "post_wr e opc jetty conn laddr raddr len srcChip dstChip userCtx s =
     (let s1 = turn e s;
          ok = (case opc of OPC_WRITE \<Rightarrow> PostWrite | OPC_READ \<Rightarrow> PostRead)
                 (accepts e (ticks s)) jetty conn laddr raddr len srcChip dstChip userCtx (mgr s1)
      in (ok, if ok then s1\<lparr>posted := posted s1 @ [\<lparr>post_op = opc, post_jetty = jetty, post_local = laddr,
                                  post_remote = raddr, post_len = len, post_ctx = userCtx\<rparr>]\<rparr>
              else s1))"

text \<open>The loop of \<^verbatim>\<open>WaitEvent\<close> and what follows it.\<close>

partial_function (option) wait_loop :: "env \<Rightarrow> u32 \<Rightarrow> u64 \<Rightarrow> u64 \<Rightarrow> shared \<Rightarrow> (bool \<times> shared) option" where
  "wait_loop e wid token deadline s =
     (let (r, s1) = probe_event e wid token s
      in if r \<noteq> 0 then Some (r = 1, s1)
         else
           let (now, s2) = now_ns e s1
           in if now \<ge> deadline then
                let (r2, s3) = probe_event e wid token s2
                in if r2 \<noteq> 0 then Some (r2 = 1, s3) else Some (False, abort_event e wid token s3)
              else wait_loop e wid token deadline s2)"

definition WaitEvent :: "env \<Rightarrow> u32 \<Rightarrow> u64 \<Rightarrow> int \<Rightarrow> shared \<Rightarrow> (bool \<times> shared) option" where
  "WaitEvent e wid token timeoutMs s =
     (case GetEventSlots wid (mgr s) of
        None \<Rightarrow> Some (False, s)
      | Some p \<Rightarrow>
          (let (now, s1) = now_ns e s
           in wait_loop e wid token (now + word_of_int timeoutMs * 1000000) s1))"

section \<open>What a thread holds\<close>

text \<open>The lanes \<open>H\<close> the thread took and did not return, and its outstanding events \<open>T\<close>: every lane in
  use is held by exactly one thread, and the live tokens of the thread's pool are exactly those
  it keeps.\<close>

definition shared_inv :: "u32 \<Rightarrow> nat multiset \<Rightarrow> u64 multiset \<Rightarrow> shared \<Rightarrow> bool" where
  "shared_inv wid H T s \<longleftrightarrow>
     lanes_inv (lanes s) \<and> mset_set (busy_set (lanes s)) = H + mset (others s) \<and>
     slots_inv (mgr s) \<and> unat wid < length (workerSlots (mgr s)) \<and>
     T = mset_set (live_tokens (pool_of wid (mgr s)))"

subsection \<open>The environment keeps what the thread holds\<close>

lemma finite_busy [simp]: "finite (busy_set p)"
  by (simp add: busy_set_def)

lemma finite_live [simp]: "pool_inv p \<Longrightarrow> finite (live_tokens p)"
  by (simp add: live_tokens_slots)

lemma valid_ctx_token: "valid_token (ue AND kRidMask)"
proof -
  have "unat (take_bit 40 ue) = unat ue mod 2 ^ 40"
    using unsigned_take_bit_eq [where ?'a = nat and n = 40 and w = ue] by (simp add: take_bit_eq_mod)
  also have "\<dots> < 2 ^ 40"
    by simp
  finally show ?thesis
    unfolding kRidMask_take_bit valid_token_def by simp
qed

lemma Complete_live:
  assumes "pool_inv p" and "valid_token t"
  shows "live_tokens (Complete t ok p) = live_tokens p"
  using Complete_view [OF assms] by (auto simp: live_tokens_def split: if_splits)

text \<open>The events of one worker in the manager: the pools are sound and the live tokens are \<open>T\<close>.\<close>

definition events_inv :: "u32 \<Rightarrow> u64 multiset \<Rightarrow> manager \<Rightarrow> bool" where
  "events_inv wid T m \<longleftrightarrow>
     slots_inv m \<and> unat wid < length (workerSlots m) \<and> T = mset_set (live_tokens (pool_of wid m))"

lemma shared_inv_split:
  "shared_inv wid H T s \<longleftrightarrow>
     lanes_inv (lanes s) \<and> mset_set (busy_set (lanes s)) = H + mset (others s) \<and> events_inv wid T (mgr s)"
  by (auto simp: shared_inv_def events_inv_def)

lemma events_inv_set:
  assumes "events_inv wid T m" and "pool_inv p"
  shows "events_inv wid' T' (set_slots wid p m) \<longleftrightarrow>
    (if wid' = wid then T' = mset_set (live_tokens p) else events_inv wid' T' m)"
  using assms slots_inv_set [of m p wid] by (auto simp: events_inv_def set_slots_other)

lemma events_inv_slots: "workerSlots m = workerSlots m' \<Longrightarrow> events_inv wid T m \<longleftrightarrow> events_inv wid T m'"
  by (simp add: events_inv_def slots_inv_def)

lemma CompleteEvent_events:
  assumes "events_inv wid T m"
  shows "events_inv wid T (CompleteEvent wid' ue ok m)"
proof (cases "drop_bit kRidShift ue = ucast wid' \<and> unat wid' < length (workerSlots m)")
  case True
  have inv: "slots_inv m"
    using assms by (simp add: events_inv_def)
  define p where "p = Complete (ue AND kRidMask) ok (pool_of wid' m)"
  have pool: "pool_inv (pool_of wid' m)"
    using slots_inv_pool [OF inv] True by simp
  have p: "pool_inv p" "live_tokens p = live_tokens (pool_of wid' m)"
    using Complete_inv [OF pool valid_ctx_token] Complete_live [OF pool valid_ctx_token] by (simp_all add: p_def)
  have e: "events_inv wid' (mset_set (live_tokens (pool_of wid' m))) m"
    using True inv by (simp add: events_inv_def)
  have "T = mset_set (live_tokens p)" if "wid = wid'"
    using assms that unfolding p(2) events_inv_def by blast
  then have "events_inv wid T (set_slots wid' p m)"
    unfolding events_inv_set [OF e p(1)] using assms by simp
  then show ?thesis
    using True by (simp add: CompleteEvent_def Let_def GetEventSlots_Some p_def)
next
  case False
  then show ?thesis
    using assms by (auto simp: CompleteEvent_def Let_def GetEventSlots_def WorkerCount_def)
qed

lemma deliver_events: "events_inv wid T m \<Longrightarrow> events_inv wid T (deliver crs m)"
  by (induction crs arbitrary: m) (simp_all add: deliver_def deliver_one_def CompleteEvent_events)

lemma lane_slots [simp]:
  "workerSlots (snd (AcquireSendLane m)) = workerSlots m" "workerSlots (ReleaseSendLane j m) = workerSlots m"
  "sendJettyPool (res (ReleaseSendLane j m)) = ReleaseJetty j (sendJettyPool (res m))"
  by (simp_all add: AcquireSendLane_def ReleaseSendLane_def ReleaseSendJetty_def split: prod.splits)

lemma AcquireSendLane_cases:
  assumes "lanes_inv (sendJettyPool (res m))"
  obtains (none) "AcquireSendLane m = (None, m)"
  | (lane) j m' where "AcquireSendLane m = (Some j, m')" "workerSlots m' = workerSlots m" "mgrSeg m' = mgrSeg m"
      "lanes_inv (sendJettyPool (res m'))" "j \<notin> busy_set (sendJettyPool (res m))"
      "busy_set (sendJettyPool (res m')) = insert j (busy_set (sendJettyPool (res m)))"
proof (cases "idle_queue (sendJettyPool (res m))")
  case Nil
  then show ?thesis
    using none lanes.pop_empty [OF assms] by (simp add: AcquireSendLane_def AcquireSendJetty_def)
next
  case (Cons j js)
  obtain r p where p: "PopIdle (sendJettyPool (res m)) = (r, p)"
    by (cases "PopIdle (sendJettyPool (res m))")
  note P = lanes.pop_some [OF assms Cons p]
  have "j \<notin> busy_set (sendJettyPool (res m))"
    using lanes.inv_lanes [OF assms] Cons by auto
  then show ?thesis
    using lane [of j "m\<lparr>res := (res m)\<lparr>sendJettyPool := p\<rparr>\<rparr>"] P p
    by (simp add: AcquireSendLane_def AcquireSendJetty_def)
qed

lemma release_busy:
  assumes "lanes_inv p" and "mset_set (busy_set p) = add_mset j H"
  shows "lanes_inv (ReleaseJetty (Some j) p)" and "mset_set (busy_set (ReleaseJetty (Some j) p)) = H"
proof -
  have "j \<in># mset_set (busy_set p)"
    using assms(2) by simp
  then have j: "j \<in> busy_set p"
    by simp
  show "lanes_inv (ReleaseJetty (Some j) p)"
    using lanes.put_busy [OF assms(1) j] by simp
  have "mset_set (busy_set p - {j}) = mset_set (busy_set p) - {#j#}"
    using j by (simp add: mset_set_Diff)
  then show "mset_set (busy_set (ReleaseJetty (Some j) p)) = H"
    using lanes.put_busy [OF assms(1) j] assms(2) by simp
qed

lemma other_act_inv: "shared_inv wid H T s \<Longrightarrow> shared_inv wid H T (other_act a s)"
proof (cases a)
  case Other_acquire
  assume inv: "shared_inv wid H T s"
  then have l: "lanes_inv (sendJettyPool (res (mgr s)))"
    by (simp add: shared_inv_split)
  then show ?thesis
  proof (cases rule: AcquireSendLane_cases)
    case none
    then show ?thesis
      using inv Other_acquire by simp
  next
    case (lane j m')
    have "events_inv wid T m'"
      using inv events_inv_slots [OF lane(2)] by (simp add: shared_inv_split)
    then show ?thesis
      using inv Other_acquire lane by (simp add: shared_inv_split)
  qed
next
  case (Other_release j)
  assume inv: "shared_inv wid H T s"
  show ?thesis
  proof (cases "j \<in> set (others s)")
    case True
    have l: "lanes_inv (lanes s)"
      using inv by (simp add: shared_inv_split)
    have "mset_set (busy_set (lanes s)) = add_mset j (H + mset (remove1 j (others s)))"
      using inv True by (simp add: shared_inv_split)
    note R = release_busy [OF l this]
    have "events_inv wid T (ReleaseSendLane (Some j) (mgr s))"
      using inv events_inv_slots [OF lane_slots(2)] by (simp add: shared_inv_split)
    then show ?thesis
      using Other_release True R by (simp add: shared_inv_split)
  qed (use inv Other_release in simp)
qed

lemma turn_inv: "shared_inv wid H T s \<Longrightarrow> shared_inv wid H T (turn e s)"
proof -
  assume "shared_inv wid H T s"
  then have "shared_inv wid H T (s\<lparr>mgr := deliver (polled e (ticks s)) (mgr s)\<rparr>)"
    by (simp add: shared_inv_split deliver_events)
  then have "shared_inv wid H T (fold other_act acts (s\<lparr>mgr := deliver (polled e (ticks s)) (mgr s)\<rparr>))" for acts
    by (induction acts rule: rev_induct) (simp_all add: other_act_inv)
  then show ?thesis
    by (simp add: turn_def shared_inv_def)
qed

subsection \<open>Laws of the operations\<close>

lemma turn_ticks [simp]: "ticks (turn e s) = ticks s + 1"
  by (simp add: turn_def)

lemma other_act_posted [simp]: "posted (other_act a s) = posted s"
  by (cases a) (auto split: prod.splits option.splits)

lemma turn_posted [simp]: "posted (turn e s) = posted s"
proof -
  have "posted (fold other_act acts s) = posted s" for acts s
    by (induction acts arbitrary: s) simp_all
  then show ?thesis
    by (simp add: turn_def)
qed

lemma call_sel [simp]: "ticks (snd (call e f s)) = ticks s + 1" "posted (snd (call e f s)) = posted s"
  by (simp_all add: call_def Let_def split: prod.splits)

lemma upd_sel [simp]: "ticks (upd e f s) = ticks s + 1" "posted (upd e f s) = posted s"
  by (simp_all add: upd_def Let_def)

lemma op_sel [simp]:
  "ticks (snd (now_ns e s)) = ticks s + 1" "posted (snd (now_ns e s)) = posted s"
  "ticks (snd (acquire_lane e s)) = ticks s + 1" "posted (snd (acquire_lane e s)) = posted s"
  "ticks (release_lane e j s) = ticks s + 1" "posted (release_lane e j s) = posted s"
  "ticks (snd (post_event e wid s)) = ticks s + 1" "posted (snd (post_event e wid s)) = posted s"
  "ticks (snd (probe_event e wid t s)) = ticks s + 1" "posted (snd (probe_event e wid t s)) = posted s"
  "ticks (abort_event e wid t s) = ticks s + 1" "posted (abort_event e wid t s) = posted s"
  "ticks (snd (post_wr e opc j c la ra len src dst ue s)) = ticks s + 1"
  by (simp_all add: now_ns_def acquire_lane_def release_lane_def post_event_def probe_event_def abort_event_def
      post_wr_def Let_def)

lemma shared_inv_cong: "mgr s = mgr s' \<Longrightarrow> others s = others s' \<Longrightarrow> shared_inv wid H T s \<longleftrightarrow> shared_inv wid H T s'"
  by (simp add: shared_inv_def)

lemma now_ns_inv: "shared_inv wid H T s \<Longrightarrow> shared_inv wid H T (snd (now_ns e s))"
  by (simp add: now_ns_def turn_inv)

lemma post_wr_inv: "shared_inv wid H T s \<Longrightarrow> shared_inv wid H T (snd (post_wr e opc j c la ra len src dst ue s))"
  using turn_inv [of wid H T s e] by (simp add: post_wr_def Let_def shared_inv_def)

lemma acquire_lane_inv:
  assumes "shared_inv wid H T s" and "acquire_lane e s = (r, s')"
  shows "shared_inv wid (case r of None \<Rightarrow> H | Some j \<Rightarrow> add_mset j H) T s'"
proof -
  have inv: "shared_inv wid H T (turn e s)"
    using assms(1) by (rule turn_inv)
  then have "lanes_inv (sendJettyPool (res (mgr (turn e s))))"
    by (simp add: shared_inv_split)
  then show ?thesis
  proof (cases rule: AcquireSendLane_cases)
    case none
    then show ?thesis
      using assms(2) inv by (auto simp: acquire_lane_def call_def Let_def)
  next
    case (lane j m')
    have "events_inv wid T m'"
      using inv events_inv_slots [OF lane(2)] by (simp add: shared_inv_split)
    moreover have "s' = (turn e s)\<lparr>mgr := m'\<rparr>" "r = Some j"
      using assms(2) lane(1) by (simp_all add: acquire_lane_def call_def Let_def)
    ultimately show ?thesis
      using inv lane by (simp add: shared_inv_split)
  qed
qed

lemma release_lane_inv:
  assumes "shared_inv wid (add_mset j H) T s"
  shows "shared_inv wid H T (release_lane e (Some j) s)"
proof -
  have inv: "shared_inv wid (add_mset j H) T (turn e s)"
    using assms by (rule turn_inv)
  then have l: "lanes_inv (lanes (turn e s))"
    and b: "mset_set (busy_set (lanes (turn e s))) = add_mset j (H + mset (others (turn e s)))"
    by (simp_all add: shared_inv_split)
  have "events_inv wid T (ReleaseSendLane (Some j) (mgr (turn e s)))"
    using inv events_inv_slots [OF lane_slots(2)] by (simp add: shared_inv_split)
  then show ?thesis
    using release_busy [OF l b] by (simp add: release_lane_def upd_def Let_def shared_inv_split)
qed

text \<open>An operation on the events of the worker: what it does to the live tokens of the pool.\<close>

lemma pool_update_inv:
  assumes "shared_inv wid H T s" and "pool_inv p"
  shows "shared_inv wid H (mset_set (live_tokens p)) (s\<lparr>mgr := set_slots wid p (mgr s)\<rparr>)"
  using assms events_inv_set [of wid T "mgr s" p wid "mset_set (live_tokens p)"] by (simp add: shared_inv_split)

lemma shared_pool:
  assumes "shared_inv wid H T s"
  shows "pool_inv (pool_of wid (mgr s))" and "unat wid < length (workerSlots (mgr s))"
    and "T = mset_set (live_tokens (pool_of wid (mgr s)))" and "slots_inv (mgr s)"
    and "GetEventSlots wid (mgr s) = Some (pool_of wid (mgr s))"
  using assms slots_inv_pool GetEventSlots_Some by (auto simp: shared_inv_def)

lemma live_mset_remove:
  assumes "pool_inv p" and "\<And>t'. valid_token t' \<Longrightarrow> slot_view q t' = (if t' = t then Gone else slot_view p t')"
  shows "mset_set (live_tokens q) = mset_set (live_tokens p) - {#t#}"
proof -
  have "live_tokens q = live_tokens p - {t}"
    using assms(2) by (auto simp: live_tokens_def split: if_splits)
  then show ?thesis
    using assms(1) by (cases "t \<in> live_tokens p") (simp_all add: mset_set_Diff)
qed

lemma probe_event_inv:
  assumes "shared_inv wid H T s" and "valid_token t" and "probe_event e wid t s = (r, s')"
  shows "shared_inv wid H (if r = 0 then T else T - {#t#}) s'" and "r \<noteq> 0 \<longrightarrow> t \<in># T" and "r \<in> {-1, 0, 1}"
proof -
  have inv: "shared_inv wid H T (turn e s)"
    using assms(1) by (rule turn_inv)
  note P = shared_pool [OF inv]
  let ?p = "pool_of wid (mgr (turn e s))"
  obtain r0 q where q: "Probe t ?p = (r0, q)"
    by (cases "Probe t ?p")
  have r: "r0 = r" "s' = (turn e s)\<lparr>mgr := set_slots wid q (mgr (turn e s))\<rparr>"
    using assms(3) q P(5) by (auto simp: probe_event_def call_def Let_def ProbeEvent_def)
  note L = slots.prb_law [OF P(1) assms(2) q]
  have "r = 0 \<Longrightarrow> live_tokens q = live_tokens ?p"
    using L r(1) by (auto simp: live_tokens_def)
  moreover have "r \<noteq> 0 \<Longrightarrow> mset_set (live_tokens q) = mset_set (live_tokens ?p) - {#t#}"
    using L r(1) by (intro live_mset_remove [OF P(1)]) simp
  ultimately show "shared_inv wid H (if r = 0 then T else T - {#t#}) s'"
    using pool_update_inv [OF inv, of q] L r(2) P(3) by (cases "r = 0") simp_all
  show "r \<in> {-1, 0, 1}" and "r \<noteq> 0 \<longrightarrow> t \<in># T"
    using L r(1) assms(2) P(1,3)
    by (auto simp: probe_code_def live_tokens_def split: slot_view.splits if_splits)
qed

lemma abort_event_inv:
  assumes "shared_inv wid H T s" and "valid_token t"
  shows "shared_inv wid H (T - {#t#}) (abort_event e wid t s)"
proof -
  have inv: "shared_inv wid H T (turn e s)"
    using assms(1) by (rule turn_inv)
  note P = shared_pool [OF inv]
  let ?p = "pool_of wid (mgr (turn e s))"
  obtain b q where q: "Abort (spurious e (ticks s)) t ?p = (b, q)"
    by (cases "Abort (spurious e (ticks s)) t ?p")
  note L = slots.abt_law [OF P(1) assms(2) q]
  have "mset_set (live_tokens q) = mset_set (live_tokens ?p) - {#t#}"
    using L by (intro live_mset_remove [OF P(1)]) simp
  then show ?thesis
    using pool_update_inv [OF inv, of q] L q P(3,5) by (simp add: abort_event_def upd_def Let_def AbortEvent_def)
qed

lemma post_event_inv:
  assumes "shared_inv wid H T s" and "post_event e wid s = ((ue, t), s')"
  shows "if ue = 0 then shared_inv wid H T s' \<and> size T = 256
         else shared_inv wid H (add_mset t T) s' \<and> valid_token t \<and> t \<noteq> 0"
proof -
  have inv: "shared_inv wid H T (turn e s)"
    using assms(1) by (rule turn_inv)
  note P = shared_pool [OF inv]
  let ?p = "pool_of wid (mgr (turn e s))"
  show ?thesis
  proof (cases "freeCount ?p = 0")
    case True
    then have "PostEvent wid (mgr (turn e s)) = (0, 0, mgr (turn e s))"
      by (rule PostEvent_full [OF P(2,4)])
    then show ?thesis
      using assms(2) inv live_tokens_card [OF P(1)] True P(3) by (auto simp: post_event_def call_def Let_def)
  next
    case False
    then have "0 < freeCount ?p"
      by simp
    then obtain t0 p where a: "Acquire ?p = (True, t0, p)"
      and eq: "PostEvent wid (mgr (turn e s)) = (user_ctx wid t0, t0, set_slots wid p (mgr (turn e s)))"
      and t: "pool_inv p" "t0 \<noteq> 0" "valid_token t0" "user_ctx wid t0 \<noteq> 0"
      using PostEvent_token [OF P(2,4)] by metis
    have r: "ue = user_ctx wid t0" "t = t0" "s' = (turn e s)\<lparr>mgr := set_slots wid p (mgr (turn e s))\<rparr>"
      using assms(2) eq by (auto simp: post_event_def call_def Let_def)
    note L = slots.acq_ok [OF P(1) a]
    have "live_tokens p = insert t0 (live_tokens ?p)" and "t0 \<notin> live_tokens ?p"
      using L by (auto simp: live_tokens_def split: if_splits)
    then have "mset_set (live_tokens p) = add_mset t0 T"
      using P(1,3) by simp
    then show ?thesis
      using pool_update_inv [OF inv t(1)] r t by simp
  qed
qed

subsection \<open>Status of a token\<close>

lemma probe_event_steps: "probe_event e wid t s = (r, s') \<Longrightarrow> ticks s' = ticks s + 1 \<and> posted s' = posted s"
  using op_sel(9,10) [of e wid t s] by simp

text \<open>How the status of a token can change while the thread waits: only by a delivered completion.\<close>

lemma user_ctx_eqI:
  assumes "drop_bit kRidShift ue = ucast wid"
  shows "ue = user_ctx wid (ue AND kRidMask)"
proof (rule bit_word_eqI)
  fix n :: nat
  assume "n < LENGTH(64)"
  have "bit (drop_bit 40 ue) (n - 40) = bit (ucast wid :: u64) (n - 40)"
    using assms by simp
  then show "bit ue n = bit (user_ctx wid (ue AND kRidMask)) n"
    using \<open>n < LENGTH(64)\<close> unfolding kRidMask_take_bit user_ctx_def by (auto simp: bit_simps)
qed

definition view :: "u32 \<Rightarrow> u64 \<Rightarrow> manager \<Rightarrow> slot_view" where
  "view wid t m = slot_view (pool_of wid m) t"

lemma CompleteEvent_view:
  assumes "events_inv wid T m" and "valid_token t"
  shows "view wid t (CompleteEvent wid' ue ok m) = view wid t m \<or>
    view wid t m = Waiting \<and> view wid t (CompleteEvent wid' ue ok m) = Finished ok \<and> ue = user_ctx wid t"
proof (cases "drop_bit kRidShift ue = ucast wid' \<and> unat wid' < length (workerSlots m) \<and> wid = wid'")
  case True
  have "pool_inv (pool_of wid m)"
    using assms(1) slots_inv_pool by (simp add: events_inv_def)
  note C = Complete_view [OF this valid_ctx_token [of ue] assms(2), of ok]
  have "CompleteEvent wid' ue ok m = set_slots wid (Complete (ue AND kRidMask) ok (pool_of wid m)) m"
    using True by (simp add: CompleteEvent_def Let_def GetEventSlots_Some)
  moreover have "unat wid < length (workerSlots m)"
    using True by simp
  ultimately show ?thesis
    using C True user_ctx_eqI [of ue wid] by (simp add: view_def)
next
  case False
  then show ?thesis
    using set_slots_other [of wid wid'] by (simp add: CompleteEvent_def Let_def GetEventSlots_def WorkerCount_def view_def)
qed

lemma deliver_view:
  assumes "events_inv wid T m" and "valid_token t"
  shows "view wid t (deliver crs m) = view wid t m \<or>
    view wid t m = Waiting \<and> (\<exists>ok. view wid t (deliver crs m) = Finished ok \<and> (user_ctx wid t, ok) \<in> set crs)"
  using assms
proof (induction crs arbitrary: m)
  case (Cons c crs)
  obtain ue ok where c: "c = (ue, ok)"
    by (cases c)
  define m1 where "m1 = deliver_one c m"
  have d: "deliver (c # crs) m = deliver crs m1"
    by (simp add: deliver_def m1_def)
  have "events_inv wid T m1"
    using CompleteEvent_events [OF Cons.prems(1)] by (simp add: m1_def deliver_one_def)
  note IH = Cons.IH [OF this Cons.prems(2)]
  have "view wid t m1 = view wid t m \<or> view wid t m = Waiting \<and> view wid t m1 = Finished ok \<and> ue = user_ctx wid t"
    using CompleteEvent_view [OF Cons.prems] by (simp add: m1_def deliver_one_def c)
  then show ?case
    using IH unfolding d unfolding c by auto
qed (simp add: deliver_def)

lemma other_acts_slots: "workerSlots (mgr (fold other_act acts s)) = workerSlots (mgr s)"
proof (induction acts arbitrary: s)
  case (Cons a acts)
  have "workerSlots (mgr (other_act a s)) = workerSlots (mgr s)"
    using lane_slots(1) [of "mgr s"] by (cases a; cases "AcquireSendLane (mgr s)") (auto split: option.splits)
  then show ?case
    using Cons by simp
qed simp

lemma turn_view:
  assumes "shared_inv wid H T s" and "valid_token t"
  shows "view wid t (mgr (turn e s)) = view wid t (mgr s) \<or>
    view wid t (mgr s) = Waiting \<and>
    (\<exists>ok. view wid t (mgr (turn e s)) = Finished ok \<and> (user_ctx wid t, ok) \<in> set (polled e (ticks s)))"
proof -
  have "view wid t (mgr (turn e s)) = view wid t (deliver (polled e (ticks s)) (mgr s))"
    by (simp add: turn_def view_def other_acts_slots)
  moreover have "events_inv wid T (mgr s)"
    using assms(1) by (simp add: shared_inv_split)
  ultimately show ?thesis
    using deliver_view assms(2) by simp
qed

lemma probe_event_view:
  assumes "shared_inv wid H T s" and "valid_token t" and "probe_event e wid t s = (r, s')"
  shows "r = probe_code (view wid t (mgr (turn e s)))" and "r = 0 \<Longrightarrow> view wid t (mgr s') = view wid t (mgr (turn e s))"
proof -
  have inv: "shared_inv wid H T (turn e s)"
    using assms(1) by (rule turn_inv)
  note P = shared_pool [OF inv]
  let ?p = "pool_of wid (mgr (turn e s))"
  obtain r0 q where q: "Probe t ?p = (r0, q)"
    by (cases "Probe t ?p")
  have r: "r0 = r" "s' = (turn e s)\<lparr>mgr := set_slots wid q (mgr (turn e s))\<rparr>"
    using assms(3) q P(5) by (auto simp: probe_event_def call_def Let_def ProbeEvent_def)
  note L = slots.prb_law [OF P(1) assms(2) q]
  show "r = probe_code (view wid t (mgr (turn e s)))"
    using L r(1) by (simp add: view_def)
  show "view wid t (mgr s') = view wid t (mgr (turn e s))" if "r = 0"
    using L r that assms(2) P(2) by (simp add: view_def)
qed

text \<open>The completion that explains a result: it had arrived before, or it was delivered meanwhile.\<close>

definition completed :: "env \<Rightarrow> u32 \<Rightarrow> u64 \<Rightarrow> shared \<Rightarrow> nat \<Rightarrow> bool \<Rightarrow> bool" where
  "completed e wid t s n ok \<longleftrightarrow>
     view wid t (mgr s) = Finished ok \<or>
     view wid t (mgr s) = Waiting \<and> (\<exists>i. ticks s \<le> i \<and> i < n \<and> (user_ctx wid t, ok) \<in> set (polled e i))"

lemma completed_turn:
  assumes "shared_inv wid H T s" and "valid_token t"
    and "view wid t (mgr s') = view wid t (mgr (turn e s))" and "ticks s' = ticks s + 1" and "ticks s' \<le> n"
    and "completed e wid t s' n ok"
  shows "completed e wid t s n ok"
proof -
  consider "view wid t (mgr s') = view wid t (mgr s)"
    | ok' where "view wid t (mgr s) = Waiting" "view wid t (mgr s') = Finished ok'"
        "(user_ctx wid t, ok') \<in> set (polled e (ticks s))"
    using turn_view [OF assms(1,2), of e] assms(3) by auto
  then show ?thesis
  proof cases
    case 1
    then show ?thesis
      using assms(4,6) unfolding completed_def by (auto dest: Suc_leD)
  next
    case 2
    then have "ok = ok'"
      using assms(6) by (simp add: completed_def)
    then show ?thesis
      using 2 assms(4,5) unfolding completed_def by (auto intro!: exI [of _ "ticks s"])
  qed
qed

lemma view_kept:
  assumes "shared_inv wid H T s" and "valid_token t" and "view wid t (mgr s) \<noteq> Waiting"
  shows "view wid t (mgr (turn e s)) = view wid t (mgr s)"
  using turn_view [OF assms(1,2), of e] assms(3) by auto

text \<open>One round of the wait: either the probe answers, or nothing has arrived yet.\<close>

lemma probe_completed:
  assumes "shared_inv wid H T s" and "valid_token t" and "probe_event e wid t s = (r, s')"
  shows "r \<noteq> 0 \<Longrightarrow> completed e wid t s (ticks s') (r = 1)"
    and "r \<noteq> 0 \<Longrightarrow> view wid t (mgr s) = Finished ok \<Longrightarrow> ok = (r = 1)"
    and "r = 0 \<Longrightarrow> view wid t (mgr s) \<noteq> Finished ok"
    and "r = 0 \<Longrightarrow> ticks s' \<le> n \<Longrightarrow> completed e wid t s' n ok \<Longrightarrow> completed e wid t s n ok"
proof -
  note V = probe_event_view [OF assms]
  have ticks: "ticks s' = ticks s + 1"
    using probe_event_steps [OF assms(3)] by simp
  show "completed e wid t s (ticks s') (r = 1)" if "r \<noteq> 0"
  proof -
    have "view wid t (mgr (turn e s)) = Finished (r = 1)"
      using V(1) that by (auto simp: probe_code_def split: slot_view.splits if_splits)
    then show ?thesis
      using turn_view [OF assms(1,2), of e] ticks by (auto simp: completed_def)
  qed
  show "ok = (r = 1)" if "r \<noteq> 0" "view wid t (mgr s) = Finished ok"
    using V(1) view_kept [OF assms(1,2), of e] that by (auto simp: probe_code_def)
  show "view wid t (mgr s) \<noteq> Finished ok" if "r = 0"
    using V(1) view_kept [OF assms(1,2), of e] that by (auto simp: probe_code_def split: if_splits)
  show "completed e wid t s n ok" if "r = 0" "ticks s' \<le> n" "completed e wid t s' n ok"
    using completed_turn [OF assms(1,2) V(2) ticks] that by simp
qed

subsection \<open>Waiting\<close>

text \<open>What a wait leaves, when it returns: the token is gone, whatever the result.\<close>

definition wait_post :: "env \<Rightarrow> u32 \<Rightarrow> nat multiset \<Rightarrow> u64 multiset \<Rightarrow> u64 \<Rightarrow> shared \<Rightarrow> bool \<times> shared \<Rightarrow> bool" where
  "wait_post e wid H T t s r \<longleftrightarrow>
     shared_inv wid H (T - {#t#}) (snd r) \<and> (fst r \<longrightarrow> t \<in># T) \<and> ticks s < ticks (snd r) \<and>
     posted (snd r) = posted s \<and> (fst r \<longrightarrow> completed e wid t s (ticks (snd r)) True) \<and>
     (\<forall>ok. view wid t (mgr s) = Finished ok \<longrightarrow> fst r = ok)"

lemma wait_loop_post:
  assumes "wait_loop e wid t dl s = Some r" and "shared_inv wid H T s" and "valid_token t"
  shows "wait_post e wid H T t s r"
proof -
  have "shared_inv wid H T s \<longrightarrow> valid_token t \<longrightarrow> wait_post e wid H T t s r"
  proof (rule wait_loop.raw_induct [where P = "\<lambda>e wid t dl s r.
      shared_inv wid H T s \<longrightarrow> valid_token t \<longrightarrow> wait_post e wid H T t s r", OF _ assms(1)], intro impI)
    fix f e wid t dl s r
    assume IH: "\<And>e wid t dl s r. f e wid t dl s = Some r \<Longrightarrow>
        shared_inv wid H T s \<longrightarrow> valid_token t \<longrightarrow> wait_post e wid H T t s r"
      and eq: "(let (r, s1) = probe_event e wid t s
        in if r \<noteq> 0 then Some (r = 1, s1)
           else let (now, s2) = now_ns e s1
                in if dl \<le> now then let (r2, s3) = probe_event e wid t s2
                                   in if r2 \<noteq> 0 then Some (r2 = 1, s3) else Some (False, abort_event e wid t s3)
                   else f e wid t dl s2) = Some r"
      and inv: "shared_inv wid H T s" and t: "valid_token t"
    obtain r1 s1 where p: "probe_event e wid t s = (r1, s1)"
      by (cases "probe_event e wid t s")
    note P = probe_event_inv [OF inv t p] probe_event_steps [OF p] and C = probe_completed [OF inv t p]
    show "wait_post e wid H T t s r"
    proof (cases "r1 = 0")
      case False
      then have "r = (r1 = 1, s1)"
        using eq p by simp
      then show ?thesis
        using P C(1,2) False by (auto simp: wait_post_def)
    next
      case True
      define s2 where "s2 = snd (now_ns e s1)"
      have s1: "shared_inv wid H T s1"
        using P True by simp
      have s2: "shared_inv wid H T s2" "ticks s2 = ticks s + 2" "posted s2 = posted s"
        using P now_ns_inv [OF s1, of e] by (simp_all add: s2_def)
      have unfinished: "view wid t (mgr s) \<noteq> Finished ok" for ok
        using C(3) True by blast
      have "completed e wid t s1 n ok" if "completed e wid t s2 n ok" "ticks s2 \<le> n" for n ok
        using completed_turn [OF s1 t, of s2 e n ok] that by (simp add: s2_def now_ns_def)
      then have before: "completed e wid t s n ok" if "completed e wid t s2 n ok" "ticks s2 \<le> n" for n ok
        using C(4) [OF True, of n ok] that P s2(2) by simp
      show ?thesis
      proof (cases "dl \<le> fst (now_ns e s1)")
        case False
        then have "f e wid t dl s2 = Some r"
          using eq p True by (simp add: s2_def split_beta)
        then have "wait_post e wid H T t s2 r"
          using IH s2(1) t by blast
        then show ?thesis
          using s2 before unfinished by (auto simp: wait_post_def)
      next
        case late: True
        obtain r2 s3 where p2: "probe_event e wid t s2 = (r2, s3)"
          by (cases "probe_event e wid t s2")
        note P2 = probe_event_inv [OF s2(1) t p2] probe_event_steps [OF p2] and C2 = probe_completed [OF s2(1) t p2]
        have "r = (if r2 \<noteq> 0 then (r2 = 1, s3) else (False, abort_event e wid t s3))"
          using eq p p2 True late by (simp add: s2_def [symmetric] split_beta split: if_splits)
        then show ?thesis
          using P2 C2(1) s2 abort_event_inv [of wid H T s3 t e] t before unfinished by (auto simp: wait_post_def)
      qed
    qed
  qed
  then show ?thesis
    using assms(2,3) by blast
qed

lemma WaitEvent_post:
  assumes "WaitEvent e wid t ms s = Some r" and "shared_inv wid H T s" and "valid_token t"
  shows "wait_post e wid H T t s r"
proof -
  have "shared_inv wid H T (snd (now_ns e s))"
    using assms(2) by (rule now_ns_inv)
  then have "wait_post e wid H T t (snd (now_ns e s)) r"
    using wait_loop_post [OF _ _ assms(3)] assms(1) shared_pool(5) [OF assms(2)]
    by (fastforce simp: WaitEvent_def split_beta)
  moreover have "completed e wid t s n ok"
    if "completed e wid t (snd (now_ns e s)) n ok" "ticks s + 1 \<le> n" for n ok
    using completed_turn [OF assms(2,3), of "snd (now_ns e s)" e n ok] that by (simp add: now_ns_def)
  moreover have "view wid t (mgr (snd (now_ns e s))) = Finished ok" if "view wid t (mgr s) = Finished ok" for ok
    using view_kept [OF assms(2,3), of e] that by (simp add: now_ns_def)
  ultimately show ?thesis
    by (simp add: wait_post_def)
qed

text \<open>A deadline passes when two consecutive readings from some point on are not before it. The loop reads
  the clock at every second step, so that it sees one of them.\<close>

definition deadline_passes :: "env \<Rightarrow> nat \<Rightarrow> u64 \<Rightarrow> bool" where
  "deadline_passes e i dl \<longleftrightarrow> (\<exists>N \<ge> i. dl \<le> clock e N \<and> dl \<le> clock e (N + 1))"

lemma wait_loop_returns:
  assumes "deadline_passes e (ticks s) dl"
  shows "\<exists>r. wait_loop e wid t dl s = Some r"
proof -
  obtain N where "ticks s \<le> N" and N: "dl \<le> clock e N" "dl \<le> clock e (N + 1)"
    using assms by (auto simp: deadline_passes_def)
  then show ?thesis
  proof (induction "N - ticks s" arbitrary: s rule: less_induct)
    case less
    obtain r1 s1 where p: "probe_event e wid t s = (r1, s1)"
      by (cases "probe_event e wid t s")
    define s2 where "s2 = snd (now_ns e s1)"
    have ticks: "ticks s1 = ticks s + 1" "ticks s2 = ticks s + 2"
      using probe_event_steps [OF p] by (simp_all add: s2_def)
    have step: "wait_loop e wid t dl s = wait_loop e wid t dl s2" if "r1 = 0" "\<not> dl \<le> clock e (ticks s + 1)"
      using that p ticks by (subst wait_loop.simps) (simp add: now_ns_def s2_def)
    show ?case
    proof (cases "r1 = 0 \<and> \<not> dl \<le> clock e (ticks s + 1)")
      case True
      then have "ticks s \<noteq> N" and "ticks s + 1 \<noteq> N"
        using N by auto
      then have "N - ticks s2 < N - ticks s" and "ticks s2 \<le> N"
        using less.prems(1) ticks by linarith+
      then have "\<exists>r. wait_loop e wid t dl s2 = Some r"
        using N by (intro less.hyps)
      then show ?thesis
        using step True by simp
    next
      case False
      then show ?thesis
        using p ticks by (subst wait_loop.simps) (auto simp: now_ns_def Let_def split: prod.split)
    qed
  qed
qed

abbreviation wait_deadline :: "env \<Rightarrow> int \<Rightarrow> shared \<Rightarrow> u64" where
  "wait_deadline e ms s \<equiv> clock e (ticks s) + word_of_int ms * 1000000"

lemma WaitEvent_returns:
  assumes "deadline_passes e (ticks s + 1) (wait_deadline e ms s)"
  shows "\<exists>r. WaitEvent e wid t ms s = Some r"
  using wait_loop_returns [of e "turn e s" "wait_deadline e ms s"] assms
  by (cases "GetEventSlots wid (mgr s)") (auto simp: WaitEvent_def now_ns_def)

lemma held_valid: "shared_inv wid H T s \<Longrightarrow> t \<in># T \<Longrightarrow> valid_token t"
  using shared_pool(1,3) [of wid H T s] by (auto simp: live_tokens_def)

text \<open>C7: Waiting for an event ends and tells the truth. When the deadline of the wait, the time at its
  start plus the timeout, passes (two readings after the start are not before it),
  \<^verbatim>\<open>WaitEvent\<close> on an outstanding event returns, whatever the other threads do meanwhile.
  Afterwards the event is no longer outstanding, and everything else the thread holds is
  unchanged. It returns success only if a successful completion of this very event had arrived
  or was delivered during the wait, and a completion that had arrived decides the result.\<close>

theorem wait_event_correct:
  assumes "deadline_passes e (ticks s + 1) (wait_deadline e ms s)" and "shared_inv wid H T s" and "t \<in># T"
  shows "\<exists>b s'. WaitEvent e wid t ms s = Some (b, s') \<and> shared_inv wid H (T - {#t#}) s' \<and>
    (b \<longrightarrow> completed e wid t s (ticks s') True) \<and> (\<forall>ok. view wid t (mgr s) = Finished ok \<longrightarrow> b = ok)"
proof -
  obtain b s' where r: "WaitEvent e wid t ms s = Some (b, s')"
    using WaitEvent_returns [OF assms(1)] by fastforce
  show ?thesis
    using WaitEvent_post [OF r assms(2) held_valid [OF assms(2,3)]] r by (auto simp: wait_post_def)
qed

text \<open>A quiet environment: a clock that shows a millisecond more at every reading and wraps at 64 bits, no
  completions, no other threads, a library that accepts everything.\<close>

definition quiet_env :: env where
  "quiet_env = \<lparr>clock = (\<lambda>i. of_nat (i * 1000000)), polled = (\<lambda>_. []), lane_acts = (\<lambda>_. []),
     accepts = (\<lambda>_ _. True), spurious = (\<lambda>_. 0), stop_flag = (\<lambda>_. False), fatal_flag = (\<lambda>_. False)\<rparr>"

definition quiet_shared :: shared where
  "quiet_shared = \<lparr>mgr = one_worker, others = [], ticks = 0, posted = []\<rparr>"

lemma init_no_tokens: "live_tokens EventSlotPool_init = {}"
  using live_tokens_card [OF pool_inv_init] finite_live [OF pool_inv_init]
  by (simp add: EventSlotPool_init_def)

lemma quiet_inv: "shared_inv 0 {#} {#} quiet_shared"
proof -
  have "sendJettyPool (res one_worker) = SendJettyPool_init"
    by (simp add: one_worker_def RegisterWorker_def manager_start_def EnsurePollThread_def Let_def resource_start_def)
  moreover have "busy_set SendJettyPool_init = {}"
    by (simp add: busy_set_def SendJettyPool_init_def)
  ultimately show ?thesis
    using one_worker_ok by (simp add: shared_inv_def quiet_shared_def lanes_inv_init init_no_tokens WorkerCount_def)
qed

theorem wait_event_correct_witness:
  "\<exists>ue t s b s'. post_event quiet_env 0 quiet_shared = ((ue, t), s) \<and> ue \<noteq> 0 \<and>
     WaitEvent quiet_env 0 t 5000 s = Some (b, s') \<and> shared_inv 0 {#} {#} s'"
proof -
  obtain ue t s where p: "post_event quiet_env 0 quiet_shared = ((ue, t), s)"
    by (metis prod.collapse)
  then have ue: "ue \<noteq> 0" and s: "shared_inv 0 {#} {#t#} s"
    using post_event_inv [OF quiet_inv p] by (auto split: if_splits)
  have "ticks s = 1"
    using op_sel(7) [of quiet_env 0 quiet_shared] unfolding p by (simp add: quiet_shared_def)
  then have "deadline_passes quiet_env (ticks s + 1) (wait_deadline quiet_env 5000 s)"
    unfolding deadline_passes_def by (intro exI [of _ 5001]) (simp add: quiet_env_def word_le_nat_alt)
  from wait_event_correct [OF this s, of t] show ?thesis
    using p ue by auto
qed

end
