(* ===== verification/Spec2Isabelle.thy ===== *)
theory Spec2Isabelle
  imports Hist_Percentile Hist_Window EventSlotConc SendJettyPool Clock ChipRoute Layout Urma_Handshake Worker_World
begin

text \<open>
  A verification of \<^verbatim>\<open>kv-bench\<close>, a benchmark of one-sided writes and reads over the URMA library.
  The program is \<^verbatim>\<open>src/kv_bench.cpp\<close> (command line, choice of CPUs and chips, buffers, workers,
  reports) on top of \<^verbatim>\<open>src/urma/\<close> (the manager with its event slots and send lanes, and the owner
  of the library handles), \<^verbatim>\<open>src/hist.h\<close> (latency histograms) and \<^verbatim>\<open>src/clock.cpp\<close> (the cycle
  clock). A client worker takes a send lane from a pool, takes an event slot for each work
  request, posts the requests, and waits until the polling thread has delivered the completions
  into the slots; the latencies go into the worker's histogram, and a sampler and the final report
  read percentiles from copies and sums of the histograms.

  \<^bold>\<open>The theories and the code they model.\<close>

  \<^item> \<open>KV_Prelude\<close>: the integer types \<open>u64\<close>, \<open>u32\<close> (words, so arithmetic wraps), \<^verbatim>\<open>int\<close> as \<open>int\<close> with its
    wrap-around written out, and shared lemmas. \<open>Fp_Double\<close>: finite doubles as rationals
    with round-to-nearest-even to 53 bits; the locale \<open>fp_rounding\<close> is what the statistics need of a
    rounding, interpreted by \<open>dbl\<close>. \<open>Cstdlib\<close>: \<^verbatim>\<open>strtoull\<close>, \<^verbatim>\<open>strtoul\<close>, \<^verbatim>\<open>atoi\<close>, \<^verbatim>\<open>strtok\<close> and the like.
  \<^item> \<open>Hist\<close>: \<^verbatim>\<open>kv_hist_t\<close> as the record \<open>kv_hist\<close> and one definition per function of \<^verbatim>\<open>src/hist.h\<close>.
    \<open>Hist_Spec\<close> relates a histogram to the multiset of its samples, \<open>Hist_Window\<close> treats copy,
    difference and merge, \<open>Hist_Percentile\<close> the percentiles. Shown: recording refines
    adding to the multiset, merging equals recording both runs, a difference is exactly the window
    in between, a percentile is the bucket edge of the right rank and is monotone, and
    \<^verbatim>\<open>kv_hist_init\<close> returns exactly for the highest values its bucket loop can reach.
  \<^item> \<open>EventSlotPool\<close>: \<^verbatim>\<open>EventSlotPool\<close> of \<^verbatim>\<open>src/urma/event_slot_pool.h\<close>, 256 slots of a 64-bit word
    with state, status and generation. The locale \<open>completion_slots\<close> is its contract over an
    abstract set of outstanding tokens; the interpretation \<open>slots\<close> proves it for the code.
    \<open>EventSlotConc\<close> splits the operations into their atomic steps (\<open>conc_step\<close>), interleaved with
    completions by the polling thread, and shows that each interleaving is a sequential history.
    Memory orders are not modelled: the words are sequentially consistent. Generations have 32
    bits, so the uniqueness statements hold for the next \<open>2 ^ 32 - 2\<close> acquisitions.
  \<^item> \<open>SendJettyPool\<close>: \<^verbatim>\<open>src/urma/urma_send_lane.h\<close>; each operation holds the mutex, so a history is a
    list of operations. The locale \<open>fifo_lanes\<close>, interpreted as \<open>lanes\<close>, gives exclusive lanes.
  \<^item> \<open>Clock\<close>: \<^verbatim>\<open>src/clock.cpp\<close>; the counter readings, the 200 samples of the regression and the
    rounding of \<^verbatim>\<open>long double\<close> are arguments. Shown: the error bound of the conversion while the
    product fits in 64 bits, and that the clock runs backwards after that.
  \<^item> \<open>Argument\<close>: \<^verbatim>\<open>argument_t\<close>, \<^verbatim>\<open>parse_size\<close>, the option table and switch, the defaults and
    \<^verbatim>\<open>validate_input_params\<close>. \<^verbatim>\<open>getopt_long\<close> is a library call: the model starts from the list of
    codes and arguments that it returns. \<open>ChipWeight\<close>, \<open>Topology\<close>, \<open>ChipRoute\<close>: the generator, the
    weighted chip choice, the node and chip model, CPU lists, the automatic choice of CPUs, and the
    chips of each send and round. What the operating system answers is the record \<open>machine\<close>.
  \<^item> \<open>Layout\<close>: the sizes of both sides' buffers, their allocation and binding to a NUMA node, and
    the offsets of the work requests of the write and get pipelines inside them.
  \<^item> \<open>Urma_Resource\<close>: \<^verbatim>\<open>src/urma/urma_resource.cpp\<close>. \<open>Urma_Manager\<close>: \<^verbatim>\<open>src/urma/urma_manager.cpp\<close>, the state
    \<open>manager\<close> and one definition per method. \<open>Urma_Handshake\<close>: lemmas on socket exchange, handshake
    and stop. The URMA library is the parameter \<open>urma_lib\<close>: a function that answers
    each call, given the calls before it, and every call is recorded in the \<open>trace\<close> of the resource
    record. Hypotheses on it are named (\<open>never_fails\<close>, \<open>fresh_jettys\<close>, \<open>import_keeps_va\<close>) and each has
    a concrete library that satisfies it.
  \<^item> \<open>Worker_World\<close>: a worker thread among the others. The record \<open>env\<close> says, for each point in
    time, what the clock shows, which completions the polling thread has delivered, which lanes other
    threads took and returned, and whether the library accepts a request. \<^verbatim>\<open>WaitEvent\<close>, with its
    busy and yielding phases, is the \<open>partial_function\<close> \<open>wait_loop\<close>, so that a wait which never
    returns is \<open>None\<close>; that it returns is proved from a deadline that two readings of the clock reach.

  \<^bold>\<open>Loops.\<close> No definition uses fuel. Loops that end are structural or have a termination proof
  (\<open>bit_count_loop\<close>, \<open>mult_bits\<close>, \<open>mbind_chunks\<close>, \<open>shuffle_front\<close>, \<open>weighted_loop\<close>); the two that may not end
  (\<open>init_buckets\<close>, \<open>wait_loop\<close>) are partial functions with a theorem on when they return.

  \<^bold>\<open>Not modelled.\<close> The request loops of the workers in \<^verbatim>\<open>src/kv_bench.cpp\<close> (write and get
  pipelines, mixed mode), thread creation and joining, the dual-device mode, the server's accept
  loop, the sampler and all printing: they are I/O and thread start-up around the components above.
  The URMA library, the socket calls, \<^verbatim>\<open>getopt_long\<close> and the system calls are parameters.
\<close>

end
